(* ===== verification/Prelude.thy ===== *)
theory Prelude
  imports Main "HOL-Library.Multiset" "HOL-Library.Word" "HOL-Library.AList"
begin

section \<open>Shared types, orders and list lemmas\<close>

text \<open>
  The types every component uses, the strict weak order contract of the comparators that
  the algorithms take, and the generic lemmas on lists, association lists and words.

  \<^item> \<open>byte\<close> is \<open>byte_t\<close> (\<open>uint8_t\<close>); \<open>u16\<close>, \<open>u32\<close>, \<open>u64\<close> are the fixed-width integers, and
    \<open>size_t\<close> is 64 bits wide on every platform the library supports.
  \<^item> A \<open>flat_unordered_map\<close> is an association list with distinct keys: \<open>map_of\<close> is \<open>find\<close>,
    \<open>AList.update\<close> is \<open>operator[]\<close> followed by an assignment and \<open>AList.delete\<close> is
    \<open>erase\<close>. The order of the list stands for the iteration order of the table.
\<close>

unbundle bit_operations_syntax

type_synonym byte = "8 word"
type_synonym u16 = "16 word"
type_synonym u32 = "32 word"
type_synonym u64 = "64 word"

named_theorems upd_simps \<open>reading a list after an update at an index\<close>
named_theorems swo_intros \<open>consequences of a strict weak order\<close>

subsection \<open>Comparators\<close>

text \<open>
  The requirement that the heap algorithms document for \<open>cmp\<close>: a strict weak order,
  given by asymmetry and the transitivity of its negation.
\<close>

definition strict_weak_order :: "('a \<Rightarrow> 'a \<Rightarrow> bool) \<Rightarrow> bool" where
  "strict_weak_order cmp \<longleftrightarrow>
     (\<forall>x y. cmp x y \<longrightarrow> \<not> cmp y x) \<and>
     (\<forall>x y z. \<not> cmp x y \<longrightarrow> \<not> cmp y z \<longrightarrow> \<not> cmp x z)"

lemma swo_irrefl [swo_intros]: "strict_weak_order cmp \<Longrightarrow> \<not> cmp x x"
  unfolding strict_weak_order_def by blast

lemma swo_asym [swo_intros]: "strict_weak_order cmp \<Longrightarrow> cmp x y \<Longrightarrow> \<not> cmp y x"
  unfolding strict_weak_order_def by blast

lemma swo_neg_trans:
  "strict_weak_order cmp \<Longrightarrow> \<not> cmp x y \<Longrightarrow> \<not> cmp y z \<Longrightarrow> \<not> cmp x z"
  unfolding strict_weak_order_def by blast

lemma swo_trans:
  assumes "strict_weak_order cmp" "cmp x y" "cmp y z"
  shows "cmp x z"
proof (rule ccontr)
  assume "\<not> cmp x z"
  moreover have "\<not> cmp z y" using assms by (blast dest: swo_asym)
  ultimately have "\<not> cmp x y" using assms(1) swo_neg_trans by metis
  with assms(2) show False by simp
qed

lemma swo_less [simp, intro]: "strict_weak_order ((<) :: 'a::linorder \<Rightarrow> 'a \<Rightarrow> bool)"
  by (auto simp: strict_weak_order_def)

lemma swo_greater [simp, intro]:
  "strict_weak_order (\<lambda>x y. (y :: 'a::linorder) < x)"
  by (auto simp: strict_weak_order_def)

subsection \<open>Lists read and written by index\<close>

lemma nth_upd_other [upd_simps]: "i \<noteq> j \<Longrightarrow> xs[i := v] ! j = xs ! j"
  by simp

lemma nth_upd_same [upd_simps]: "i < length xs \<Longrightarrow> xs[i := v] ! i = v"
  by simp

lemma mset_move_hole:
  assumes "h < length xs" "c < length xs" "h \<noteq> c"
  shows "mset (xs[h := xs ! c, c := v]) = mset (xs[h := v])"
proof -
  let ?ys = "xs[h := v]"
  have "mset (?ys[h := ?ys ! c, c := ?ys ! h]) = mset ?ys"
    using assms by (intro mset_swap) auto
  then show ?thesis using assms by simp
qed

lemma all_from_Suc:
  assumes "c < n"
  shows "(\<forall>i<n. c \<le> i \<longrightarrow> Q i) \<longleftrightarrow> Q c \<and> (\<forall>i<n. Suc c \<le> i \<longrightarrow> Q i)"
proof -
  have "c \<le> i \<longleftrightarrow> i = c \<or> Suc c \<le> i" for i by auto
  then show ?thesis using assms by auto
qed

lemma take_eqI:
  assumes "length xs = length ys" "\<And>i. i < n \<Longrightarrow> i < length xs \<Longrightarrow> xs ! i = ys ! i"
  shows "take n xs = take n ys"
  using assms by (intro nth_equalityI) auto

lemma drop_eqI:
  assumes "length xs = length ys" "\<And>i. n \<le> i \<Longrightarrow> i < length xs \<Longrightarrow> xs ! i = ys ! i"
  shows "drop n xs = drop n ys"
  using assms by (intro nth_equalityI) auto

lemma mset_take_eqI:
  assumes "mset xs = mset ys" "drop n xs = drop n ys"
  shows "mset (take n xs) = mset (take n ys)"
proof -
  have "mset (take n xs) + mset (drop n xs) = mset (take n ys) + mset (drop n ys)"
    using assms(1) by (metis append_take_drop_id mset_append)
  then show ?thesis using assms(2) by simp
qed

subsection \<open>Association lists as hash maps\<close>

text \<open>\<open>flat_unordered_map::emplace\<close>: an existing entry is kept.\<close>

definition map_emplace :: "'k \<Rightarrow> 'v \<Rightarrow> ('k \<times> 'v) list \<Rightarrow> ('k \<times> 'v) list" where
  "map_emplace k v al = (case map_of al k of None \<Rightarrow> (k, v) # al | Some _ \<Rightarrow> al)"

lemma map_of_emplace:
  "map_of (map_emplace k v al) = (if map_of al k = None then (map_of al)(k \<mapsto> v) else map_of al)"
  by (auto simp: map_emplace_def split: option.splits)

lemma distinct_map_emplace:
  "distinct (map fst al) \<Longrightarrow> distinct (map fst (map_emplace k v al))"
  by (auto simp: map_emplace_def map_of_eq_None_iff split: option.splits)

lemma map_of_delete [simp]: "map_of (AList.delete k al) = (map_of al)(k := None)"
  by (rule delete_conv')

lemma map_of_update [simp]: "map_of (AList.update k v al) = (map_of al)(k \<mapsto> v)"
  by (rule update_conv')

subsection \<open>Sequences of calls\<close>

text \<open>The calls of \<open>xs\<close> made one after the other, with the answer of each.\<close>

fun run_ops :: "('op \<Rightarrow> 's \<Rightarrow> 's \<times> 'r) \<Rightarrow> 'op list \<Rightarrow> 's \<Rightarrow> 's \<times> 'r list" where
  "run_ops step [] s = (s, [])"
| "run_ops step (x # xs) s =
     (let (s, r) = step x s; (s, rs) = run_ops step xs s in (s, r # rs))"

lemma run_ops_ConsE:
  assumes "run_ops step (x # xs) s = (s', rs)"
  obtains rs' where "run_ops step xs (fst (step x s)) = (s', rs')" "rs = snd (step x s) # rs'"
  using assms by (cases "step x s"; cases "run_ops step xs (fst (step x s))") auto

end
