(* ===== verification/HeapAlgo.thy ===== *)
theory HeapAlgo
  imports Prelude
begin

section \<open>Binary heaps over a random access range\<close>

text \<open>
  \<open>include/NeForce/core/algorithm/heap.hpp\<close>. The range \<open>[first, last)\<close> is a list and the
  number of its leading elements that the call works on, \<open>*(first + i)\<close> is \<open>xs ! i\<close> and an
  assignment to it is \<open>xs[i := v]\<close>. The loops of \<open>push_heap_aux\<close> and \<open>adjust_heap\<close> are
  recursive functions over the hole index. A comparator is any strict weak order.
\<close>

abbreviation parent_of :: "nat \<Rightarrow> nat" where
  "parent_of i \<equiv> (i - 1) div 2"

subsection \<open>The operations\<close>

function is_heap_until_from :: "('a \<Rightarrow> 'a \<Rightarrow> bool) \<Rightarrow> 'a list \<Rightarrow> nat \<Rightarrow> nat \<Rightarrow> nat" where
  "is_heap_until_from cmp xs child n =
     (if child < n then
        (if cmp (xs ! parent_of child) (xs ! child) then child
         else is_heap_until_from cmp xs (child + 1) n)
      else n)"
  by pat_completeness auto
termination
  by (relation "measure (\<lambda>(cmp, xs, child, n). n - child)") auto

declare is_heap_until_from.simps [simp del]

definition is_heap_until :: "('a \<Rightarrow> 'a \<Rightarrow> bool) \<Rightarrow> 'a list \<Rightarrow> nat \<Rightarrow> nat" where
  "is_heap_until cmp xs n = is_heap_until_from cmp xs 1 n"

definition is_heap :: "('a \<Rightarrow> 'a \<Rightarrow> bool) \<Rightarrow> 'a list \<Rightarrow> nat \<Rightarrow> bool" where
  "is_heap cmp xs n \<longleftrightarrow> is_heap_until cmp xs n = n"

fun push_heap_aux :: "('a \<Rightarrow> 'a \<Rightarrow> bool) \<Rightarrow> 'a list \<Rightarrow> nat \<Rightarrow> nat \<Rightarrow> 'a \<Rightarrow> 'a list" where
  "push_heap_aux cmp xs hole_index top_index v =
     (let parent = parent_of hole_index
      in if hole_index > top_index \<and> cmp (xs ! parent) v
         then push_heap_aux cmp (xs[hole_index := xs ! parent]) parent top_index v
         else xs[hole_index := v])"

declare push_heap_aux.simps [simp del]

definition push_heap :: "('a \<Rightarrow> 'a \<Rightarrow> bool) \<Rightarrow> 'a list \<Rightarrow> nat \<Rightarrow> 'a list" where
  "push_heap cmp xs n =
     (if n < 2 then xs else push_heap_aux cmp xs (n - 1) 0 (xs ! (n - 1)))"

text \<open>The loop of \<open>adjust_heap\<close>: the range and the hole it ends with.\<close>

function sift_down :: "('a \<Rightarrow> 'a \<Rightarrow> bool) \<Rightarrow> 'a list \<Rightarrow> nat \<Rightarrow> nat \<Rightarrow> 'a \<Rightarrow> 'a list \<times> nat" where
  "sift_down cmp xs hole_index len v =
     (let child = 2 * hole_index + 1
      in if child < len then
           (let child = (if child + 1 < len \<and> cmp (xs ! child) (xs ! (child + 1))
                         then child + 1 else child)
            in if \<not> cmp v (xs ! child) then (xs, hole_index)
               else sift_down cmp (xs[hole_index := xs ! child]) child len v)
         else (xs, hole_index))"
  by pat_completeness auto
termination
  by (relation "measure (\<lambda>(cmp, xs, hole_index, len, v). len - hole_index)")
     (auto simp: Let_def split: if_splits)

declare sift_down.simps [simp del]

definition adjust_heap :: "('a \<Rightarrow> 'a \<Rightarrow> bool) \<Rightarrow> 'a list \<Rightarrow> nat \<Rightarrow> nat \<Rightarrow> 'a \<Rightarrow> 'a list" where
  "adjust_heap cmp xs hole_index len v =
     (case sift_down cmp xs hole_index len v of
        (ys, h) \<Rightarrow> push_heap_aux cmp ys h hole_index v)"

definition pop_heap_aux :: "('a \<Rightarrow> 'a \<Rightarrow> bool) \<Rightarrow> 'a list \<Rightarrow> nat \<Rightarrow> nat \<Rightarrow> 'a \<Rightarrow> 'a list" where
  "pop_heap_aux cmp xs n result v = adjust_heap cmp (xs[result := xs ! 0]) 0 n v"

definition pop_heap :: "('a \<Rightarrow> 'a \<Rightarrow> bool) \<Rightarrow> 'a list \<Rightarrow> nat \<Rightarrow> 'a list" where
  "pop_heap cmp xs n =
     (if n < 2 then xs else pop_heap_aux cmp xs (n - 1) (n - 1) (xs ! (n - 1)))"

fun sort_heap :: "('a \<Rightarrow> 'a \<Rightarrow> bool) \<Rightarrow> 'a list \<Rightarrow> nat \<Rightarrow> 'a list" where
  "sort_heap cmp xs n =
     (if n > 1 then sort_heap cmp (pop_heap cmp xs n) (n - 1) else xs)"

declare sort_heap.simps [simp del]

fun make_heap_from :: "('a \<Rightarrow> 'a \<Rightarrow> bool) \<Rightarrow> 'a list \<Rightarrow> nat \<Rightarrow> nat \<Rightarrow> 'a list" where
  "make_heap_from cmp xs parent len =
     (let ys = adjust_heap cmp xs parent len (xs ! parent)
      in if parent = 0 then ys else make_heap_from cmp ys (parent - 1) len)"

declare make_heap_from.simps [simp del]

definition make_heap :: "('a \<Rightarrow> 'a \<Rightarrow> bool) \<Rightarrow> 'a list \<Rightarrow> nat \<Rightarrow> 'a list" where
  "make_heap cmp xs len = (if len < 2 then xs else make_heap_from cmp xs ((len - 2) div 2) len)"

subsection \<open>The heap property\<close>

text \<open>
  \<open>heap_from cmp xs m n\<close>: no element of the first \<open>n\<close> exceeds its parent, for the parents at
  index \<open>m\<close> and above. \<open>m = 0\<close> is the heap property; the general form is what
  \<open>make_heap\<close> establishes step by step.
\<close>

definition heap_from :: "('a \<Rightarrow> 'a \<Rightarrow> bool) \<Rightarrow> 'a list \<Rightarrow> nat \<Rightarrow> nat \<Rightarrow> bool" where
  "heap_from cmp xs m n \<longleftrightarrow>
     (\<forall>i<n. 0 < i \<longrightarrow> m \<le> parent_of i \<longrightarrow> \<not> cmp (xs ! parent_of i) (xs ! i))"

lemma heap_fromD:
  "heap_from cmp xs m n \<Longrightarrow> i < n \<Longrightarrow> 0 < i \<Longrightarrow> m \<le> parent_of i \<Longrightarrow>
     \<not> cmp (xs ! parent_of i) (xs ! i)"
  unfolding heap_from_def by blast

lemma heap_from_less_2 [simp]: "n < 2 \<Longrightarrow> heap_from cmp xs 0 n"
  by (auto simp: heap_from_def)

lemma heap_from_upper_half: "n \<le> 2 * m + 1 \<Longrightarrow> heap_from cmp xs m n"
  unfolding heap_from_def by auto

lemma heap_from_mono: "heap_from cmp xs m n \<Longrightarrow> m \<le> m' \<Longrightarrow> n' \<le> n \<Longrightarrow> heap_from cmp xs m' n'"
  unfolding heap_from_def by auto

lemma heap_from_cong:
  assumes "\<And>i. i < n \<Longrightarrow> xs ! i = ys ! i"
  shows "heap_from cmp xs m n = heap_from cmp ys m n"
proof -
  have "xs ! parent_of i = ys ! parent_of i" if "i < n" for i
    using assms [of "parent_of i"] that by (auto intro: assms)
  then show ?thesis using assms unfolding heap_from_def by simp
qed

lemma parent_less [simp]: "0 < i \<Longrightarrow> parent_of i < i"
  by auto

text \<open>The root of a heap is not below any other element.\<close>

lemma heap_root_max:
  assumes "strict_weak_order cmp" "heap_from cmp xs 0 n" "i < n"
  shows "\<not> cmp (xs ! 0) (xs ! i)"
  using assms(3)
proof (induction i rule: less_induct)
  case (less i)
  show ?case
  proof (cases "i = 0")
    case True
    then show ?thesis using assms(1) by (simp add: swo_irrefl)
  next
    case False
    then have "\<not> cmp (xs ! 0) (xs ! parent_of i)"
      using less by (intro less.IH) auto
    moreover have "\<not> cmp (xs ! parent_of i) (xs ! i)"
      using heap_fromD [OF assms(2) less.prems] False by simp
    ultimately show ?thesis by (rule swo_neg_trans [OF assms(1)])
  qed
qed

lemma is_heap_until_from_iff:
  "0 < child \<Longrightarrow> child \<le> n \<Longrightarrow>
   is_heap_until_from cmp xs child n = n \<longleftrightarrow>
     (\<forall>i<n. child \<le> i \<longrightarrow> \<not> cmp (xs ! parent_of i) (xs ! i))"
proof (induction cmp xs child n rule: is_heap_until_from.induct)
  case (1 cmp xs child n)
  show ?case
  proof (cases "child < n \<and> \<not> cmp (xs ! parent_of child) (xs ! child)")
    case True
    then have "is_heap_until_from cmp xs child n = n \<longleftrightarrow>
        (\<forall>i<n. child + 1 \<le> i \<longrightarrow> \<not> cmp (xs ! parent_of i) (xs ! i))"
      using 1 by (simp add: is_heap_until_from.simps [of cmp xs child n])
    with True show ?thesis by (simp add: all_from_Suc [of child n])
  next
    case False
    then show ?thesis
      using 1 by (auto simp: is_heap_until_from.simps [of cmp xs child n])
  qed
qed

lemma is_heap_iff: "is_heap cmp xs n \<longleftrightarrow> heap_from cmp xs 0 n"
proof (cases "n = 0")
  case True
  then show ?thesis
    by (simp add: is_heap_def is_heap_until_def is_heap_until_from.simps [of _ _ _ 0])
next
  case False
  then show ?thesis
    by (simp add: is_heap_def is_heap_until_def is_heap_until_from_iff heap_from_def
        Suc_le_eq)
qed

subsection \<open>Sifting up\<close>

text \<open>
  What holds while \<open>push_heap_aux\<close> moves its hole towards the root: the heap property away
  from the hole, the children of the hole not above the value that will fill it nor above
  the parent of the hole.
\<close>

definition up_inv :: "('a \<Rightarrow> 'a \<Rightarrow> bool) \<Rightarrow> 'a list \<Rightarrow> nat \<Rightarrow> nat \<Rightarrow> 'a \<Rightarrow> bool" where
  "up_inv cmp xs hole n v \<longleftrightarrow>
     (\<forall>i<n. 0 < i \<longrightarrow> parent_of i \<noteq> hole \<longrightarrow> i \<noteq> hole \<longrightarrow> \<not> cmp (xs ! parent_of i) (xs ! i)) \<and>
     (\<forall>i<n. 0 < i \<longrightarrow> parent_of i = hole \<longrightarrow> \<not> cmp v (xs ! i)) \<and>
     (0 < hole \<longrightarrow> (\<forall>i<n. 0 < i \<longrightarrow> parent_of i = hole \<longrightarrow> \<not> cmp (xs ! parent_of hole) (xs ! i)))"

lemma up_inv_stop:
  assumes "up_inv cmp xs hole n v" "n \<le> length xs" "hole < n"
    and "0 < hole \<longrightarrow> \<not> cmp (xs ! parent_of hole) v"
  shows "heap_from cmp (xs[hole := v]) 0 n"
  unfolding heap_from_def
proof (intro allI impI)
  fix i assume i: "i < n" "0 < i"
  have p: "parent_of i < i" using i by simp
  consider "i = hole" | "i \<noteq> hole" "parent_of i = hole" | "i \<noteq> hole" "parent_of i \<noteq> hole" by blast
  then show "\<not> cmp (xs[hole := v] ! parent_of i) (xs[hole := v] ! i)"
  proof cases
    case 1
    then show ?thesis using assms i p by (simp add: nth_list_update)
  next
    case 2
    then show ?thesis using assms i unfolding up_inv_def by (auto simp: nth_list_update)
  next
    case 3
    then show ?thesis using assms(1) i unfolding up_inv_def by simp
  qed
qed

lemma up_inv_step:
  assumes swo: "strict_weak_order cmp" and inv: "up_inv cmp xs hole n v"
    and len: "n \<le> length xs" "hole < n" "0 < hole"
    and gt: "cmp (xs ! parent_of hole) v"
  shows "up_inv cmp (xs[hole := xs ! parent_of hole]) (parent_of hole) n v"
proof -
  let ?p = "parent_of hole" and ?ys = "xs[hole := xs ! parent_of hole]"
  have ph: "?p < hole" using len by simp
  have away: "\<not> cmp (xs ! parent_of i) (xs ! i)"
    if "i < n" "0 < i" "parent_of i \<noteq> hole" "i \<noteq> hole" for i
    using inv that unfolding up_inv_def by blast
  have below: "\<not> cmp (xs ! ?p) (xs ! i)" if "i < n" "0 < i" "parent_of i = hole" for i
    using inv that len unfolding up_inv_def by blast
  have v_par: "\<not> cmp v (xs ! ?p)" using swo gt by (rule swo_asym)
  have sib: "\<not> cmp (xs ! ?p) (xs ! i)" if "i < n" "0 < i" "parent_of i = ?p" "i \<noteq> hole" for i
    using away [of i] that ph by auto
  have sib_v: "\<not> cmp v (xs ! i)" if "i < n" "0 < i" "parent_of i = ?p" "i \<noteq> hole" for i
    using sib [OF that] swo_trans [OF swo gt] by blast
  have grand: "\<not> cmp (xs ! parent_of ?p) (xs ! ?p)" if "0 < ?p"
    using away [of ?p] that ph len parent_less [OF that] by linarith
  have c1: "\<not> cmp (?ys ! parent_of i) (?ys ! i)"
    if i: "i < n" "0 < i" "parent_of i \<noteq> ?p" "i \<noteq> ?p" for i
  proof (cases "parent_of i = hole")
    case True
    then have "i \<noteq> hole" using parent_less [OF i(2)] by auto
    then show ?thesis using True below [of i] i len by simp
  next
    case False
    then show ?thesis using away [of i] i by (cases "i = hole") auto
  qed
  have c2: "\<not> cmp v (?ys ! i)" if i: "i < n" "0 < i" "parent_of i = ?p" for i
    using sib_v [of i] v_par i len by (cases "i = hole") auto
  have c3: "\<not> cmp (?ys ! parent_of ?p) (?ys ! i)"
    if z: "0 < ?p" and i: "i < n" "0 < i" "parent_of i = ?p" for i
  proof -
    have pp: "parent_of ?p \<noteq> hole" using parent_less [OF z] ph by linarith
    have "\<not> cmp (xs ! ?p) (?ys ! i)"
      using sib [of i] i len swo_irrefl [OF swo] by (cases "i = hole") auto
    with grand [OF z] have "\<not> cmp (xs ! parent_of ?p) (?ys ! i)"
      by (rule swo_neg_trans [OF swo])
    with pp show ?thesis by simp
  qed
  show ?thesis unfolding up_inv_def using c1 c2 c3 by blast
qed

lemma push_heap_aux_length [simp]: "length (push_heap_aux cmp xs hole top_index v) = length xs"
  by (induction cmp xs hole top_index v rule: push_heap_aux.induct)
     (subst push_heap_aux.simps, simp add: Let_def)

lemma push_heap_aux_mset:
  "hole < length xs \<Longrightarrow> mset (push_heap_aux cmp xs hole top_index v) = mset (xs[hole := v])"
proof (induction cmp xs hole top_index v rule: push_heap_aux.induct)
  case (1 cmp xs hole top_index v)
  show ?case
  proof (cases "hole > top_index \<and> cmp (xs ! parent_of hole) v")
    case True
    then have "parent_of hole < hole" by (intro parent_less) auto
    with True show ?thesis using 1
      by (simp add: push_heap_aux.simps [of cmp xs hole] Let_def mset_move_hole)
  next
    case False
    then show ?thesis by (subst push_heap_aux.simps) (auto simp: Let_def)
  qed
qed

lemma push_heap_aux_above:
  "i > hole \<Longrightarrow> push_heap_aux cmp xs hole top_index v ! i = xs ! i"
proof (induction cmp xs hole top_index v rule: push_heap_aux.induct)
  case (1 cmp xs hole top_index v)
  show ?case
  proof (cases "hole > top_index \<and> cmp (xs ! parent_of hole) v")
    case True
    then have "parent_of hole < hole" by (intro parent_less) auto
    then have "i > parent_of hole" using 1(2) by linarith
    with True 1 show ?thesis by (simp add: push_heap_aux.simps [of cmp xs hole] Let_def)
  next
    case False
    then show ?thesis using 1(2) by (subst push_heap_aux.simps) (auto simp: Let_def)
  qed
qed

lemma push_heap_aux_heap:
  "strict_weak_order cmp \<Longrightarrow> up_inv cmp xs hole n v \<Longrightarrow> n \<le> length xs \<Longrightarrow> hole < n \<Longrightarrow>
   heap_from cmp (push_heap_aux cmp xs hole 0 v) 0 n"
proof (induction cmp xs hole "0::nat" v rule: push_heap_aux.induct)
  case (1 cmp xs hole v)
  show ?case
  proof (cases "hole > 0 \<and> cmp (xs ! parent_of hole) v")
    case True
    then have "parent_of hole < n" using 1(5) by auto
    moreover have "up_inv cmp (xs[hole := xs ! parent_of hole]) (parent_of hole) n v"
      using True 1 by (intro up_inv_step) auto
    ultimately show ?thesis using True 1
      by (simp add: push_heap_aux.simps [of cmp xs hole] Let_def)
  next
    case False
    then have "heap_from cmp (xs[hole := v]) 0 n" using 1 by (intro up_inv_stop) auto
    with False show ?thesis by (subst push_heap_aux.simps) (auto simp: Let_def)
  qed
qed

subsection \<open>Sifting down\<close>

text \<open>
  What holds while \<open>adjust_heap\<close> moves its hole away from the root: the heap property from
  parent \<open>m\<close> on and away from the hole; where the hole has a parent at \<open>m\<close> or above, that
  parent is not below the value to be placed nor below the children of the hole.
\<close>

definition down_inv :: "('a \<Rightarrow> 'a \<Rightarrow> bool) \<Rightarrow> 'a list \<Rightarrow> nat \<Rightarrow> nat \<Rightarrow> nat \<Rightarrow> 'a \<Rightarrow> bool" where
  "down_inv cmp xs hole m n v \<longleftrightarrow>
     (\<forall>i<n. 0 < i \<longrightarrow> m \<le> parent_of i \<longrightarrow> parent_of i \<noteq> hole \<longrightarrow> i \<noteq> hole \<longrightarrow>
        \<not> cmp (xs ! parent_of i) (xs ! i)) \<and>
     (0 < hole \<longrightarrow> m \<le> parent_of hole \<longrightarrow>
        \<not> cmp (xs ! parent_of hole) v \<and>
        (\<forall>i<n. 0 < i \<longrightarrow> parent_of i = hole \<longrightarrow> \<not> cmp (xs ! parent_of hole) (xs ! i)))"

definition children_below :: "('a \<Rightarrow> 'a \<Rightarrow> bool) \<Rightarrow> 'a list \<Rightarrow> nat \<Rightarrow> nat \<Rightarrow> 'a \<Rightarrow> bool" where
  "children_below cmp xs hole n v \<longleftrightarrow>
     (\<forall>i<n. 0 < i \<longrightarrow> parent_of i = hole \<longrightarrow> \<not> cmp v (xs ! i))"

definition larger_child :: "('a \<Rightarrow> 'a \<Rightarrow> bool) \<Rightarrow> 'a list \<Rightarrow> nat \<Rightarrow> nat \<Rightarrow> nat" where
  "larger_child cmp xs hole n =
     (if 2 * hole + 2 < n \<and> cmp (xs ! (2 * hole + 1)) (xs ! (2 * hole + 2))
      then 2 * hole + 2 else 2 * hole + 1)"

lemma sift_down_unfold:
  "sift_down cmp xs hole n v =
     (let c = larger_child cmp xs hole n
      in if 2 * hole + 1 < n \<and> cmp v (xs ! c) then sift_down cmp (xs[hole := xs ! c]) c n v
         else (xs, hole))"
  by (subst sift_down.simps) (auto simp: Let_def larger_child_def)

lemma parent_cases: "0 < i \<Longrightarrow> parent_of i = h \<longleftrightarrow> i = 2 * h + 1 \<or> i = 2 * h + 2"
  by auto

lemma larger_child:
  assumes "2 * hole + 1 < n"
  shows "larger_child cmp xs hole n < n" "parent_of (larger_child cmp xs hole n) = hole"
    "hole < larger_child cmp xs hole n"
  using assms by (auto simp: larger_child_def)

lemma larger_child_max:
  assumes "strict_weak_order cmp" "i < n" "0 < i" "parent_of i = hole"
  shows "\<not> cmp (xs ! larger_child cmp xs hole n) (xs ! i)"
proof -
  have "i = 2 * hole + 1 \<or> i = 2 * hole + 2" using assms(3,4) by (simp only: parent_cases)
  then show ?thesis
    using assms(2) swo_irrefl [OF assms(1)] swo_asym [OF assms(1)]
    by (auto simp: larger_child_def)
qed

lemma children_below_leaf: "\<not> 2 * hole + 1 < n \<Longrightarrow> children_below cmp xs hole n v"
  by (auto simp: children_below_def)

lemma children_below_stop:
  assumes "strict_weak_order cmp" "\<not> cmp v (xs ! larger_child cmp xs hole n)"
  shows "children_below cmp xs hole n v"
  unfolding children_below_def
  using swo_neg_trans [OF assms(1) assms(2) larger_child_max [OF assms(1)]] by blast

lemma down_inv_stop:
  assumes "down_inv cmp xs hole m n v" "children_below cmp xs hole n v"
    and "n \<le> length xs" "hole < n"
  shows "heap_from cmp (xs[hole := v]) m n"
  unfolding heap_from_def
proof (intro allI impI)
  fix i assume i: "i < n" "0 < i" "m \<le> parent_of i"
  have p: "parent_of i < i" using i by simp
  consider "i = hole" | "i \<noteq> hole" "parent_of i = hole" | "i \<noteq> hole" "parent_of i \<noteq> hole" by blast
  then show "\<not> cmp (xs[hole := v] ! parent_of i) (xs[hole := v] ! i)"
  proof cases
    case 1
    then show ?thesis using assms i p unfolding down_inv_def by (simp add: nth_list_update)
  next
    case 2
    then show ?thesis using assms i unfolding children_below_def by (auto simp: nth_list_update)
  next
    case 3
    then show ?thesis using assms(1) i unfolding down_inv_def by simp
  qed
qed

lemma down_inv_step:
  assumes swo: "strict_weak_order cmp" and inv: "down_inv cmp xs hole m n v"
    and len: "n \<le> length xs" "2 * hole + 1 < n"
    and c: "c = larger_child cmp xs hole n" and gt: "cmp v (xs ! c)"
  shows "down_inv cmp (xs[hole := xs ! c]) c m n v"
proof -
  let ?ys = "xs[hole := xs ! c]"
  have cn: "c < n" "parent_of c = hole" "hole < c" using larger_child [OF len(2)] c by auto
  have away: "\<not> cmp (xs ! parent_of i) (xs ! i)"
    if "i < n" "0 < i" "m \<le> parent_of i" "parent_of i \<noteq> hole" "i \<noteq> hole" for i
    using inv that unfolding down_inv_def by blast
  have c1: "\<not> cmp (?ys ! parent_of i) (?ys ! i)"
    if i: "i < n" "0 < i" "m \<le> parent_of i" "parent_of i \<noteq> c" "i \<noteq> c" for i
  proof (cases "i = hole")
    case True
    have "parent_of hole \<noteq> hole" using parent_less [of hole] i True by auto
    moreover have "\<not> cmp (xs ! parent_of hole) (xs ! c)"
      using inv i True cn unfolding down_inv_def by auto
    ultimately show ?thesis using True len by simp
  next
    case False
    show ?thesis
    proof (cases "parent_of i = hole")
      case True
      then show ?thesis using larger_child_max [OF swo i(1,2)] False c len by simp
    next
      case noth: False
      then show ?thesis using away [OF i(1,2,3)] False by simp
    qed
  qed
  have c2: "\<not> cmp (?ys ! parent_of c) v"
    using swo_asym [OF swo gt] cn len by simp
  have c3: "\<not> cmp (?ys ! parent_of c) (?ys ! i)"
    if i: "i < n" "0 < i" "parent_of i = c" "m \<le> parent_of c" for i
  proof -
    have "i \<noteq> hole" using parent_less [OF i(2)] i(3) cn by linarith
    moreover have "\<not> cmp (xs ! c) (xs ! i)"
      using away [of i] i cn \<open>i \<noteq> hole\<close> by auto
    ultimately show ?thesis using cn len by simp
  qed
  show ?thesis unfolding down_inv_def using c1 c2 c3 by blast
qed

text \<open>The loop as a whole: its final range and hole.\<close>

lemma sift_down_spec:
  assumes "strict_weak_order cmp" "down_inv cmp xs hole m n v" "n \<le> length xs" "hole < n"
    and "sift_down cmp xs hole n v = (ys, h)"
  shows "down_inv cmp ys h m n v \<and> children_below cmp ys h n v \<and> h < n \<and>
    (h = hole \<or> 0 < h \<and> hole \<le> parent_of h) \<and> length ys = length xs \<and>
    mset (ys[h := v]) = mset (xs[hole := v]) \<and> (\<forall>i\<ge>n. ys ! i = xs ! i)"
  using assms(2-)
proof (induction "n - hole" arbitrary: xs hole ys h rule: less_induct)
  case (less hole xs)
  let ?c = "larger_child cmp xs hole n"
  show ?case
  proof (cases "2 * hole + 1 < n \<and> cmp v (xs ! ?c)")
    case False
    then have "ys = xs" "h = hole"
      using less.prems(4) by (auto simp: sift_down_unfold [of cmp xs] Let_def)
    moreover have "children_below cmp xs hole n v"
      using False
      by (cases "2 * hole + 1 < n") (auto intro: children_below_leaf children_below_stop [OF assms(1)])
    ultimately show ?thesis using less.prems by simp
  next
    case True
    note lc = larger_child [OF conjunct1 [OF True], of cmp xs]
    have rec: "sift_down cmp (xs[hole := xs ! ?c]) ?c n v = (ys, h)"
      using True less.prems(4) by (simp add: sift_down_unfold [of cmp xs hole] Let_def)
    have inv: "down_inv cmp (xs[hole := xs ! ?c]) ?c m n v"
      using True less.prems assms(1) by (intro down_inv_step) auto
    have r: "down_inv cmp ys h m n v \<and> children_below cmp ys h n v \<and> h < n \<and>
        (h = ?c \<or> 0 < h \<and> ?c \<le> parent_of h) \<and> length ys = length (xs[hole := xs ! ?c]) \<and>
        mset (ys[h := v]) = mset ((xs[hole := xs ! ?c])[?c := v]) \<and>
        (\<forall>i\<ge>n. ys ! i = (xs[hole := xs ! ?c]) ! i)"
    proof (rule less.hyps [OF _ inv _ _ rec])
      show "n - ?c < n - hole" using lc(1,3) less.prems(3) by linarith
      show "n \<le> length (xs[hole := xs ! ?c])" using less.prems(2) by simp
      show "?c < n" by (rule lc(1))
    qed
    have ms: "mset ((xs[hole := xs ! ?c])[?c := v]) = mset (xs[hole := v])"
      using lc less.prems by (intro mset_move_hole) simp_all
    have above: "(xs[hole := xs ! ?c]) ! i = xs ! i" if "n \<le> i" for i
      using that less.prems(3) by simp
    from r have "h = ?c \<or> 0 < h \<and> ?c \<le> parent_of h" by blast
    then have pos: "0 < h \<and> hole \<le> parent_of h"
    proof
      assume "h = ?c"
      with lc(2,3) show ?thesis by simp
    next
      assume "0 < h \<and> ?c \<le> parent_of h"
      with lc(3) show ?thesis by linarith
    qed
    show ?thesis
      using r pos by (intro conjI) (simp_all only: ms length_list_update, use above in simp_all)
  qed
qed

text \<open>
  After the loop the value belongs at the hole: the call of \<open>push_heap_aux\<close> that follows
  stores it there and moves nothing.
\<close>

lemma adjust_heap_spec:
  assumes "strict_weak_order cmp" "down_inv cmp xs hole hole n v" "n \<le> length xs" "hole < n"
  shows "heap_from cmp (adjust_heap cmp xs hole n v) hole n"
    and "mset (adjust_heap cmp xs hole n v) = mset (xs[hole := v])"
    and "length (adjust_heap cmp xs hole n v) = length xs"
    and "\<forall>i\<ge>n. adjust_heap cmp xs hole n v ! i = xs ! i"
proof -
  obtain ys h where sd: "sift_down cmp xs hole n v = (ys, h)" by fastforce
  note spec = sift_down_spec [OF assms sd]
  have "\<not> (hole < h \<and> cmp (ys ! parent_of h) v)"
    using spec unfolding down_inv_def by auto
  then have adj: "adjust_heap cmp xs hole n v = ys[h := v]"
    unfolding adjust_heap_def sd by (subst (1) prod.case, subst push_heap_aux.simps) (auto simp: Let_def)
  show "heap_from cmp (adjust_heap cmp xs hole n v) hole n"
    unfolding adj using spec assms(3) by (intro down_inv_stop) auto
  show "mset (adjust_heap cmp xs hole n v) = mset (xs[hole := v])"
    "length (adjust_heap cmp xs hole n v) = length xs"
    "\<forall>i\<ge>n. adjust_heap cmp xs hole n v ! i = xs ! i"
    unfolding adj using spec by auto
qed

lemma down_inv_initial:
  "heap_from cmp xs (Suc hole) n \<Longrightarrow> down_inv cmp xs hole hole n v"
  unfolding down_inv_def heap_from_def by auto

subsection \<open>What each operation guarantees\<close>

text \<open>No operation changes the length of the range, whatever it holds.\<close>

lemma sift_down_length: "sift_down cmp xs hole n v = (ys, h) \<Longrightarrow> length ys = length xs"
proof (induction "n - hole" arbitrary: xs hole rule: less_induct)
  case (less hole xs)
  let ?c = "larger_child cmp xs hole n"
  show ?case
  proof (cases "2 * hole + 1 < n \<and> cmp v (xs ! ?c)")
    case True
    then have "sift_down cmp (xs[hole := xs ! ?c]) ?c n v = (ys, h)"
      using less.prems by (simp add: sift_down_unfold [of cmp xs hole] Let_def)
    moreover have "n - ?c < n - hole" using larger_child [of hole n cmp xs] True by auto
    ultimately show ?thesis using less.hyps by fastforce
  next
    case False
    then show ?thesis using less.prems by (auto simp: sift_down_unfold [of cmp xs hole] Let_def)
  qed
qed

lemma length_adjust_heap [simp]: "length (adjust_heap cmp xs hole n v) = length xs"
  by (auto simp: adjust_heap_def sift_down_length split: prod.split)

lemma length_pop_heap [simp]: "length (pop_heap cmp xs n) = length xs"
  by (simp add: pop_heap_def pop_heap_aux_def)

lemma pop_heap_Nil_iff [simp]: "pop_heap cmp xs n = [] \<longleftrightarrow> xs = []"
  by (metis length_pop_heap length_0_conv)

lemma push_heap_length [simp]: "length (push_heap cmp xs n) = length xs"
  by (simp add: push_heap_def)

lemma push_heap_heap:
  assumes "strict_weak_order cmp" "heap_from cmp xs 0 (n - 1)" "n \<le> length xs"
  shows "heap_from cmp (push_heap cmp xs n) 0 n"
proof (cases "n < 2")
  case True
  then show ?thesis by (simp add: push_heap_def)
next
  case False
  have "up_inv cmp xs (n - 1) n (xs ! (n - 1))"
    unfolding up_inv_def
  proof (intro conjI allI impI)
    fix i assume "i < n" "0 < i" "parent_of i \<noteq> n - 1" "i \<noteq> n - 1"
    then show "\<not> cmp (xs ! parent_of i) (xs ! i)"
      by (intro heap_fromD [OF assms(2)]) auto
  qed (use parent_less in fastforce)+
  with False assms show ?thesis
    by (simp add: push_heap_def push_heap_aux_heap)
qed

lemma push_heap_mset: "n \<le> length xs \<Longrightarrow> mset (push_heap cmp xs n) = mset xs"
  by (auto simp: push_heap_def push_heap_aux_mset)

lemma pop_heap_eq:
  "\<not> n < 2 \<Longrightarrow> pop_heap cmp xs n = adjust_heap cmp (xs[n - 1 := xs ! 0]) 0 (n - 1) (xs ! (n - 1))"
  by (simp add: pop_heap_def pop_heap_aux_def)

lemma pop_heap_all:
  assumes "strict_weak_order cmp" "heap_from cmp xs 0 n" "n \<le> length xs"
  shows "heap_from cmp (pop_heap cmp xs n) 0 (n - 1) \<and> mset (pop_heap cmp xs n) = mset xs \<and>
    length (pop_heap cmp xs n) = length xs \<and> (0 < n \<longrightarrow> pop_heap cmp xs n ! (n - 1) = xs ! 0) \<and>
    (\<forall>i\<ge>n. pop_heap cmp xs n ! i = xs ! i)"
proof (cases "n < 2")
  case True
  then have "n = 0 \<or> n = 1" by auto
  then show ?thesis by (auto simp: pop_heap_def heap_from_def)
next
  case False
  let ?xs = "xs[n - 1 := xs ! 0]" and ?v = "xs ! (n - 1)"
  have "heap_from cmp ?xs 0 (n - 1)"
    using heap_from_mono [OF assms(2), of 0 "n - 1"]
    by (subst heap_from_cong [where ys = xs]) auto
  then have inv: "down_inv cmp ?xs 0 0 (n - 1) ?v"
    by (intro down_inv_initial) (auto elim: heap_from_mono)
  have n: "n - 1 \<le> length ?xs" "0 < n - 1" using False assms(3) by auto
  note spec = adjust_heap_spec [OF assms(1) inv n]
  have "n - 1 < length xs" "0 < length xs" using False assms(3) by auto
  from mset_swap [OF this] have "mset (?xs[0 := ?v]) = mset xs"
    using False by (simp add: list_update_swap)
  then show ?thesis using spec assms(3) False by (auto simp: pop_heap_eq)
qed

lemmas pop_heap_heap = pop_heap_all [THEN conjunct1]
lemmas pop_heap_mset = pop_heap_all [THEN conjunct2, THEN conjunct1]
lemmas pop_heap_length = pop_heap_all [THEN conjunct2, THEN conjunct2, THEN conjunct1]
lemmas pop_heap_last =
  pop_heap_all [THEN conjunct2, THEN conjunct2, THEN conjunct2, THEN conjunct1, THEN mp]
lemmas pop_heap_above =
  pop_heap_all [THEN conjunct2, THEN conjunct2, THEN conjunct2, THEN conjunct2, rule_format]

lemma make_heap_from_spec:
  assumes "strict_weak_order cmp" "heap_from cmp xs (Suc p) n" "n \<le> length xs" "p < n"
  shows "heap_from cmp (make_heap_from cmp xs p n) 0 n \<and>
    mset (make_heap_from cmp xs p n) = mset xs \<and>
    length (make_heap_from cmp xs p n) = length xs \<and>
    (\<forall>i\<ge>n. make_heap_from cmp xs p n ! i = xs ! i)"
  using assms(2-)
proof (induction p arbitrary: xs)
  case (0 xs)
  note spec = adjust_heap_spec [OF assms(1) down_inv_initial [OF 0(1)] 0(2,3), of "xs ! 0"]
  show ?case using spec 0 by (subst (1 2 3 4) make_heap_from.simps) (auto simp: Let_def)
next
  case (Suc p xs)
  let ?ys = "adjust_heap cmp xs (Suc p) n (xs ! Suc p)"
  note spec = adjust_heap_spec [OF assms(1) down_inv_initial [OF Suc.prems(1)] Suc.prems(2,3),
      of "xs ! Suc p"]
  have eq: "make_heap_from cmp xs (Suc p) n = make_heap_from cmp ?ys p n"
    by (subst make_heap_from.simps) (simp add: Let_def)
  have "n \<le> length ?ys" "p < n" using spec(3) Suc.prems by auto
  note ih = Suc.IH [OF spec(1) this]
  show ?case unfolding eq using ih spec Suc.prems by auto
qed

lemma make_heap_spec:
  assumes "strict_weak_order cmp" "n \<le> length xs"
  shows "heap_from cmp (make_heap cmp xs n) 0 n"
    and "mset (make_heap cmp xs n) = mset xs"
    and "length (make_heap cmp xs n) = length xs"
    and "\<forall>i\<ge>n. make_heap cmp xs n ! i = xs ! i"
proof -
  have "heap_from cmp xs (Suc ((n - 2) div 2)) n" if "\<not> n < 2"
    using that by (intro heap_from_upper_half) auto
  then show "heap_from cmp (make_heap cmp xs n) 0 n"
    and "mset (make_heap cmp xs n) = mset xs"
    and "length (make_heap cmp xs n) = length xs"
    and "\<forall>i\<ge>n. make_heap cmp xs n ! i = xs ! i"
    using make_heap_from_spec [OF assms(1) _ assms(2), of "(n - 2) div 2"]
    by (auto simp: make_heap_def)
qed

abbreviation ascending :: "('a \<Rightarrow> 'a \<Rightarrow> bool) \<Rightarrow> 'a list \<Rightarrow> bool" where
  "ascending cmp \<equiv> sorted_wrt (\<lambda>x y. \<not> cmp y x)"

lemma same_outside_set_take:
  assumes "mset xs = mset ys" "length xs = length ys" "\<forall>i\<ge>n. xs ! i = ys ! i"
  shows "set (take n xs) = set (take n ys)"
proof -
  have "drop n xs = drop n ys" using assms by (intro drop_eqI) auto
  with assms(1) have "mset (take n xs) = mset (take n ys)" by (rule mset_take_eqI)
  then show ?thesis by (metis set_mset_mset)
qed

lemma sort_heap_spec:
  assumes "strict_weak_order cmp" "heap_from cmp xs 0 n" "n \<le> length xs"
  shows "mset (sort_heap cmp xs n) = mset xs \<and> length (sort_heap cmp xs n) = length xs \<and>
    (\<forall>i\<ge>n. sort_heap cmp xs n ! i = xs ! i) \<and> ascending cmp (take n (sort_heap cmp xs n))"
  using assms(2,3)
proof (induction n arbitrary: xs)
  case 0
  then show ?case by (subst (1 2 3 4) sort_heap.simps) simp
next
  case (Suc n)
  show ?case
  proof (cases "n = 0")
    case True
    then show ?thesis
      by (subst (1 2 3 4) sort_heap.simps) (cases xs; simp)
  next
    case False
    let ?zs = "pop_heap cmp xs (Suc n)" and ?ys = "sort_heap cmp (pop_heap cmp xs (Suc n)) n"
    note pop = pop_heap_all [OF assms(1) Suc.prems]
    have eq: "sort_heap cmp xs (Suc n) = ?ys"
      using False by (subst sort_heap.simps) simp
    have ih: "mset ?ys = mset ?zs \<and> length ?ys = length ?zs \<and> (\<forall>i\<ge>n. ?ys ! i = ?zs ! i) \<and>
        ascending cmp (take n ?ys)"
      using pop Suc.prems by (intro Suc.IH) auto
    have top: "?ys ! n = xs ! 0" using ih pop by simp
    have "\<not> cmp (xs ! 0) x" if "x \<in> set (take n ?ys)" for x
    proof -
      have "x \<in> set (take n ?zs)" using that ih same_outside_set_take [of ?ys ?zs n] by simp
      then have "x \<in> set (take (Suc n) ?zs)" by (auto simp: in_set_conv_nth)
      then have "x \<in> set (take (Suc n) xs)"
        using pop same_outside_set_take [of ?zs xs "Suc n"] by simp
      then obtain i where "i < Suc n" "x = xs ! i" by (auto simp: in_set_conv_nth)
      then show ?thesis using heap_root_max [OF assms(1) Suc.prems(1)] by simp
    qed
    moreover have "take (Suc n) ?ys = take n ?ys @ [?ys ! n]"
      using ih pop Suc.prems by (intro take_Suc_conv_app_nth) auto
    ultimately have "ascending cmp (take (Suc n) ?ys)"
      using ih top by (simp add: sorted_wrt_append)
    then show ?thesis using ih pop unfolding eq by auto
  qed
qed

subsection \<open>The interface of a heap\<close>

text \<open>
  What \<open>priority_queue\<close> and \<open>heap_timer\<close> rely on when they keep a vector as a heap: \<open>push\<close>
  restores the property after an append, \<open>pop\<close> moves the root to the end and leaves a heap
  before it, \<open>make\<close> turns any vector into a heap.
\<close>

locale vector_heap =
  fixes less :: "'a \<Rightarrow> 'a \<Rightarrow> bool"
    and is_hp :: "'a list \<Rightarrow> bool"
    and push :: "'a list \<Rightarrow> 'a list"
    and pop :: "'a list \<Rightarrow> 'a list"
    and make :: "'a list \<Rightarrow> 'a list"
  assumes hp_nil: "is_hp []"
    and hp_root: "is_hp xs \<Longrightarrow> x \<in> set xs \<Longrightarrow> \<not> less (hd xs) x"
    and hp_push: "is_hp xs \<Longrightarrow> is_hp (push (xs @ [x]))"
    and mset_push: "mset (push xs) = mset xs"
    and hp_pop: "is_hp xs \<Longrightarrow> is_hp (butlast (pop xs))"
    and mset_pop: "is_hp xs \<Longrightarrow> mset (pop xs) = mset xs"
    and last_pop: "is_hp xs \<Longrightarrow> xs \<noteq> [] \<Longrightarrow> last (pop xs) = hd xs"
    and hp_make: "is_hp (make xs)"
    and mset_make: "mset (make xs) = mset xs"
begin

lemma length_push [simp]: "length (push xs) = length xs"
  using mset_push [of xs] by (metis size_mset)

lemma length_pop: "is_hp xs \<Longrightarrow> length (pop xs) = length xs"
  using mset_pop [of xs] by (metis size_mset)

lemma set_push [simp]: "set (push xs) = set xs"
  using mset_push [of xs] by (metis set_mset_mset)

lemma pop_nonempty: "is_hp xs \<Longrightarrow> xs \<noteq> [] \<Longrightarrow> pop xs \<noteq> []"
  using length_pop [of xs] by fastforce

lemma mset_after_pop:
  assumes "is_hp xs" "xs \<noteq> []"
  shows "mset xs = add_mset (hd xs) (mset (butlast (pop xs)))"
proof -
  have "pop xs = butlast (pop xs) @ [hd xs]"
    using pop_nonempty [OF assms] last_pop [OF assms] append_butlast_last_id by metis
  then have "mset (pop xs) = add_mset (hd xs) (mset (butlast (pop xs)))"
    by (metis add_mset_add_single mset.simps mset_append)
  then show ?thesis using mset_pop [OF assms(1)] by simp
qed

lemma length_after_pop: "is_hp xs \<Longrightarrow> length (butlast (pop xs)) = length xs - 1"
  by (simp add: length_pop)

lemma set_make [simp]: "set (make xs) = set xs"
  using mset_make [of xs] by (metis set_mset_mset)

end

abbreviation whole_heap :: "('a \<Rightarrow> 'a \<Rightarrow> bool) \<Rightarrow> 'a list \<Rightarrow> bool" where
  "whole_heap cmp xs \<equiv> heap_from cmp xs 0 (length xs)"

lemma vector_heap_code:
  assumes swo: "strict_weak_order cmp"
  shows "vector_heap cmp (whole_heap cmp) (\<lambda>xs. push_heap cmp xs (length xs))
    (\<lambda>xs. pop_heap cmp xs (length xs)) (\<lambda>xs. make_heap cmp xs (length xs))"
proof
  fix xs :: "'a list" and x
  show "whole_heap cmp []" by simp
  show "\<not> cmp (hd xs) x" if "whole_heap cmp xs" "x \<in> set xs"
    using that heap_root_max [OF swo that(1)]
    by (cases "xs = []") (auto simp: in_set_conv_nth hd_conv_nth)
  show "whole_heap cmp (push_heap cmp (xs @ [x]) (length (xs @ [x])))" if "whole_heap cmp xs"
  proof -
    have "heap_from cmp (xs @ [x]) 0 (length xs)"
      using that by (subst heap_from_cong [where ys = xs]) (auto simp: nth_append)
    then show ?thesis using swo by (simp add: push_heap_heap)
  qed
  show "mset (push_heap cmp xs (length xs)) = mset xs" by (simp add: push_heap_mset)
  show "whole_heap cmp (butlast (pop_heap cmp xs (length xs)))" if "whole_heap cmp xs"
    using pop_heap_heap [OF swo that] pop_heap_length [OF swo that]
    by (subst heap_from_cong [where ys = "pop_heap cmp xs (length xs)"]) (auto simp: nth_butlast)
  show "mset (pop_heap cmp xs (length xs)) = mset xs" if "whole_heap cmp xs"
    using pop_heap_mset [OF swo that] by simp
  show "last (pop_heap cmp xs (length xs)) = hd xs" if "whole_heap cmp xs" "xs \<noteq> []"
  proof -
    have "pop_heap cmp xs (length xs) \<noteq> []" using pop_heap_length [OF swo that(1)] that(2) by force
    then show ?thesis
      using pop_heap_last [OF swo that(1)] pop_heap_length [OF swo that(1)] that(2)
      by (simp add: last_conv_nth hd_conv_nth)
  qed
  show "whole_heap cmp (make_heap cmp xs (length xs))"
    using make_heap_spec [OF swo, of "length xs" xs] by simp
  show "mset (make_heap cmp xs (length xs)) = mset xs"
    using make_heap_spec [OF swo, of "length xs" xs] by simp
qed

interpretation max_heap: vector_heap "(<) :: 'a::linorder \<Rightarrow> 'a \<Rightarrow> bool" "whole_heap (<)"
  "\<lambda>xs. push_heap (<) xs (length xs)" "\<lambda>xs. pop_heap (<) xs (length xs)"
  "\<lambda>xs. make_heap (<) xs (length xs)"
  by (rule vector_heap_code) (rule swo_less)

subsection \<open>Properties\<close>

text \<open>
  C5 (pop_heap_correct): on a heap, \<open>pop_heap\<close> leaves a heap in the range without its last
  element, puts the former root there, permutes the range and touches nothing beyond it.
\<close>

theorem pop_heap_correct:
  assumes "strict_weak_order cmp" "is_heap cmp xs n" "0 < n" "n \<le> length xs"
  shows "is_heap cmp (pop_heap cmp xs n) (n - 1) \<and> pop_heap cmp xs n ! (n - 1) = xs ! 0 \<and>
    mset (pop_heap cmp xs n) = mset xs \<and> drop n (pop_heap cmp xs n) = drop n xs \<and>
    (\<forall>i<n. \<not> cmp (xs ! 0) (xs ! i))"
proof -
  have hp: "heap_from cmp xs 0 n" using assms(2) by (simp add: is_heap_iff)
  have "drop n (pop_heap cmp xs n) = drop n xs"
    using pop_heap_above [OF assms(1) hp assms(4)] by (intro drop_eqI) auto
  then show ?thesis
    using pop_heap_all [OF assms(1) hp assms(4)] heap_root_max [OF assms(1) hp] assms(3)
    by (simp add: is_heap_iff)
qed

theorem pop_heap_correct_witness:
  "is_heap (<) [5, 3, 4, 1 :: nat] 4 \<and> is_heap (<) (pop_heap (<) [5, 3, 4, 1 :: nat] 4) 3"
proof -
  have h: "is_heap (<) [5, 3, 4, 1 :: nat] 4" by code_simp
  with pop_heap_correct [OF swo_less h] show ?thesis by simp
qed

text \<open>
  C11 (heapsort_correct): \<open>make_heap\<close> followed by \<open>sort_heap\<close> permutes any vector into ascending
  order of the comparator.
\<close>

theorem heapsort_correct:
  assumes "strict_weak_order cmp"
  shows "ascending cmp (sort_heap cmp (make_heap cmp xs (length xs)) (length xs)) \<and>
    mset (sort_heap cmp (make_heap cmp xs (length xs)) (length xs)) = mset xs"
proof -
  note make = make_heap_spec [OF assms order_refl, of xs]
  have "length xs \<le> length (make_heap cmp xs (length xs))" using make by simp
  note sort = sort_heap_spec [OF assms make(1) this]
  show ?thesis using sort make by (metis order_refl take_all)
qed

theorem heapsort_correct_witness:
  "ascending (<) (sort_heap (<) (make_heap (<) [3, 1, 2 :: nat] 3) 3) \<and>
   sort_heap (<) (make_heap (<) [3, 1, 2 :: nat] 3) 3 = [1, 2, 3]"
proof -
  have "sort_heap (<) (make_heap (<) [3, 1, 2 :: nat] 3) 3 = [1, 2, 3]" by code_simp
  then show ?thesis using heapsort_correct [OF swo_less, of "[3, 1, 2 :: nat]"] by simp
qed

end
