(* ===== verification/PriorityQueue.thy ===== *)
theory PriorityQueue
  imports HeapAlgo
begin

section \<open>priority_queue\<close>

text \<open>
  \<open>include/NeForce/core/container/priority_queue.hpp\<close>: a comparator and a sequence that the
  heap algorithms keep as a heap. \<open>top\<close> and \<open>pop\<close> of an empty queue are the failed debug
  assertion of the vector, here None.
\<close>

record 'a priority_queue =
  pq_comp :: "'a \<Rightarrow> 'a \<Rightarrow> bool"
  pq_seq :: "'a list"

definition pq_make_heap_inside :: "'a priority_queue \<Rightarrow> 'a priority_queue" where
  "pq_make_heap_inside q = q\<lparr>pq_seq := make_heap (pq_comp q) (pq_seq q) (length (pq_seq q))\<rparr>"

definition pq_of_comp :: "('a \<Rightarrow> 'a \<Rightarrow> bool) \<Rightarrow> 'a priority_queue" where
  "pq_of_comp cmp = \<lparr>pq_comp = cmp, pq_seq = []\<rparr>"

definition pq_of_seq :: "('a \<Rightarrow> 'a \<Rightarrow> bool) \<Rightarrow> 'a list \<Rightarrow> 'a priority_queue" where
  "pq_of_seq cmp xs = pq_make_heap_inside \<lparr>pq_comp = cmp, pq_seq = xs\<rparr>"

definition pq_of_range :: "'a list \<Rightarrow> ('a \<Rightarrow> 'a \<Rightarrow> bool) \<Rightarrow> 'a list \<Rightarrow> 'a priority_queue" where
  "pq_of_range ys cmp xs = pq_make_heap_inside \<lparr>pq_comp = cmp, pq_seq = xs @ ys\<rparr>"

definition pq_empty :: "'a priority_queue \<Rightarrow> bool" where
  "pq_empty q \<longleftrightarrow> pq_seq q = []"

definition pq_size :: "'a priority_queue \<Rightarrow> nat" where
  "pq_size q = length (pq_seq q)"

definition pq_top :: "'a priority_queue \<Rightarrow> 'a option" where
  "pq_top q = (case pq_seq q of [] \<Rightarrow> None | x # _ \<Rightarrow> Some x)"

definition pq_push :: "'a \<Rightarrow> 'a priority_queue \<Rightarrow> 'a priority_queue" where
  "pq_push x q =
     (let seq = pq_seq q @ [x] in q\<lparr>pq_seq := push_heap (pq_comp q) seq (length seq)\<rparr>)"

definition pq_pop :: "'a priority_queue \<Rightarrow> 'a priority_queue option" where
  "pq_pop q =
     (let seq = pop_heap (pq_comp q) (pq_seq q) (length (pq_seq q))
      in if seq = [] then None else Some (q\<lparr>pq_seq := butlast seq\<rparr>))"

definition pq_equal_to :: "'a priority_queue \<Rightarrow> 'a priority_queue \<Rightarrow> bool" where
  "pq_equal_to q r \<longleftrightarrow> pq_seq q = pq_seq r"

subsection \<open>Invariant and contents\<close>

definition pq_inv :: "'a priority_queue \<Rightarrow> bool" where
  "pq_inv q \<longleftrightarrow> whole_heap (pq_comp q) (pq_seq q)"

definition pq_contents :: "'a priority_queue \<Rightarrow> 'a multiset" where
  "pq_contents q = mset (pq_seq q)"

lemmas pq_defs = pq_make_heap_inside_def pq_of_comp_def pq_of_seq_def pq_of_range_def
  pq_empty_def pq_size_def pq_top_def pq_push_def pq_pop_def pq_inv_def pq_contents_def

lemma pq_of_seq_ok:
  assumes "strict_weak_order cmp"
  shows "pq_inv (pq_of_seq cmp xs)" "pq_contents (pq_of_seq cmp xs) = mset xs"
    "pq_comp (pq_of_seq cmp xs) = cmp"
  using make_heap_spec [OF assms, of "length xs" xs] by (simp_all add: pq_defs)

lemma pq_push_ok:
  assumes "strict_weak_order (pq_comp q)" "pq_inv q"
  shows "pq_inv (pq_push x q)" "pq_contents (pq_push x q) = add_mset x (pq_contents q)"
    "pq_comp (pq_push x q) = pq_comp q"
  using vector_heap.hp_push [OF vector_heap_code [OF assms(1)], of "pq_seq q" x] assms(2)
  by (simp_all add: pq_defs Let_def push_heap_mset)

lemma pq_top_ok:
  assumes "strict_weak_order (pq_comp q)" "pq_inv q" "pq_top q = Some x"
  shows "x \<in># pq_contents q" "y \<in># pq_contents q \<Longrightarrow> \<not> pq_comp q x y"
  using vector_heap.hp_root [OF vector_heap_code [OF assms(1)], of "pq_seq q" y] assms(2,3)
  by (auto simp: pq_defs split: list.splits)

lemma pq_pop_ok:
  assumes "strict_weak_order (pq_comp q)" "pq_inv q" "pq_pop q = Some r"
  shows "\<exists>x. pq_top q = Some x \<and> pq_contents q = add_mset x (pq_contents r)"
    "pq_inv r" "pq_comp r = pq_comp q" "pq_size r < pq_size q"
proof -
  have ne: "pq_seq q \<noteq> []" using assms(3) by (auto simp: pq_defs Let_def split: if_splits)
  have r: "r = q\<lparr>pq_seq := butlast (pop_heap (pq_comp q) (pq_seq q) (length (pq_seq q)))\<rparr>"
    using assms(3) by (auto simp: pq_defs Let_def split: if_splits)
  note code = vector_heap_code [OF assms(1)]
  have hp: "whole_heap (pq_comp q) (pq_seq q)" using assms(2) by (simp add: pq_inv_def)
  show "\<exists>x. pq_top q = Some x \<and> pq_contents q = add_mset x (pq_contents r)"
    using vector_heap.mset_after_pop [OF code hp ne] ne
    by (cases "pq_seq q") (auto simp: pq_defs r)
  show "pq_inv r" using vector_heap.hp_pop [OF code hp] by (simp add: pq_inv_def r)
  show "pq_comp r = pq_comp q" by (simp add: r)
  show "pq_size r < pq_size q" using ne by (simp add: r pq_defs)
qed

lemma pq_pop_None [simp]: "pq_pop q = None \<longleftrightarrow> pq_seq q = []"
  by (simp add: pq_defs Let_def)

text \<open>A client that empties the queue: the values of \<open>top\<close> before each \<open>pop\<close>.\<close>

function pq_drain :: "'a priority_queue \<Rightarrow> 'a list" where
  "pq_drain q = (case (pq_top q, pq_pop q) of (Some x, Some r) \<Rightarrow> x # pq_drain r | _ \<Rightarrow> [])"
  by pat_completeness auto
termination
  by (relation "measure pq_size") (auto simp: pq_defs Let_def split: if_splits)

declare pq_drain.simps [simp del]

lemma pq_drain_ok:
  "strict_weak_order (pq_comp q) \<Longrightarrow> pq_inv q \<Longrightarrow>
   mset (pq_drain q) = pq_contents q \<and> sorted_wrt (\<lambda>x y. \<not> pq_comp q x y) (pq_drain q)"
proof (induction q rule: pq_drain.induct)
  case (1 q)
  show ?case
  proof (cases "pq_pop q")
    case None
    then have "pq_seq q = []" by simp
    with None show ?thesis by (subst (1 2) pq_drain.simps) (simp add: pq_top_def pq_contents_def)
  next
    case (Some r)
    note pop = pq_pop_ok [OF 1(2,3) Some]
    obtain x where x: "pq_top q = Some x" "pq_contents q = add_mset x (pq_contents r)"
      using pop(1) by blast
    have eq: "pq_drain q = x # pq_drain r" by (subst pq_drain.simps) (simp add: x Some)
    have ih: "mset (pq_drain r) = pq_contents r \<and> sorted_wrt (\<lambda>x y. \<not> pq_comp q x y) (pq_drain r)"
      using 1(1) [OF refl x(1) Some] 1(2) pop by simp
    then have "y \<in> set (pq_drain r) \<Longrightarrow> y \<in># pq_contents q" for y
      using x by (metis set_mset_mset union_single_eq_member insert_iff set_mset_add_mset_insert)
    then show ?thesis using ih x eq pq_top_ok(2) [OF 1(2,3) x(1)] by simp
  qed
qed

subsection \<open>Properties\<close>

text \<open>
  C12 (priority_queue_sorts): a queue built from a sequence and then given more elements one by one
  keeps exactly those elements, and popping it until it is empty yields them in an order in
  which no element is below a later one: \<open>top\<close> is always a greatest element.
\<close>

theorem priority_queue_sorts:
  assumes "strict_weak_order cmp"
  shows "mset (pq_drain (fold pq_push ys (pq_of_seq cmp xs))) = mset xs + mset ys \<and>
    sorted_wrt (\<lambda>x y. \<not> cmp x y) (pq_drain (fold pq_push ys (pq_of_seq cmp xs)))"
proof -
  have "pq_comp (fold pq_push ys q) = cmp \<and> pq_inv (fold pq_push ys q) \<and>
      pq_contents (fold pq_push ys q) = pq_contents q + mset ys"
    if "pq_comp q = cmp" "pq_inv q" for q
    using that
  proof (induction ys arbitrary: q)
    case (Cons y ys)
    then show ?case using pq_push_ok [of q y] assms by simp
  qed simp
  from this [of "pq_of_seq cmp xs"] pq_of_seq_ok [OF assms, of xs]
  show ?thesis using pq_drain_ok [of "fold pq_push ys (pq_of_seq cmp xs)"] assms by simp
qed

theorem priority_queue_sorts_witness:
  "pq_drain (fold pq_push [4, 1] (pq_of_seq (<) [2, 3 :: nat])) = [4, 3, 2, 1] \<and>
   sorted_wrt (\<lambda>x y. \<not> x < y) (pq_drain (fold pq_push [4, 1] (pq_of_seq (<) [2, 3 :: nat])))"
  using priority_queue_sorts [OF swo_less, of "[4, 1]" "[2, 3 :: nat]"]
  by (intro conjI) (code_simp, simp)

end
