(* ===== verification/HeapTimer.thy ===== *)
theory HeapTimer
  imports HeapAlgo
begin

section \<open>heap_timer\<close>

text \<open>
  \<open>src/core/async/heap_timer.cpp\<close> and its header: a min-heap of deadlines with lazy
  cancellation. \<open>heap_\<close> holds the entries, \<open>states_\<close> maps a token to 0 (waiting) or 1
  (cancelled), \<open>live_\<close> counts the waiting entries in a \<open>size_t\<close> that wraps, and
  \<open>next_deadline_ns_\<close> is the lock-free hint (0: nothing waits). Every public operation runs
  under the mutex, so an operation is one step of the state. A deadline is the count of
  nanoseconds of its time point, an integer without the bounds of \<open>int64_t\<close>: the timer only compares
  deadlines and stores them.
\<close>

record timer_entry =
  te_deadline :: int
  te_id :: u64
  te_payload :: u64

record heap_timer =
  ht_heap :: "timer_entry list"
  ht_states :: "(u64 \<times> byte) list"
  ht_hint :: int
  ht_next_id :: u64
  ht_live :: u64

definition heap_timer_init :: heap_timer where
  "heap_timer_init = \<lparr>ht_heap = [], ht_states = [], ht_hint = 0, ht_next_id = 1, ht_live = 0\<rparr>"

definition later :: "timer_entry \<Rightarrow> timer_entry \<Rightarrow> bool" where
  "later lhs rhs \<longleftrightarrow>
     (if te_deadline lhs \<noteq> te_deadline rhs then te_deadline lhs > te_deadline rhs
      else te_id lhs > te_id rhs)"

subsection \<open>Removing cancelled entries\<close>

text \<open>The first loop of \<open>drop_cancelled_locked\<close>: pop cancelled entries off the top.\<close>

function drop_cancelled_tops :: "heap_timer \<Rightarrow> heap_timer" where
  "drop_cancelled_tops t =
     (case ht_heap t of
        [] \<Rightarrow> t
      | e # _ \<Rightarrow>
          (case map_of (ht_states t) (te_id e) of
             None \<Rightarrow> t
           | Some st \<Rightarrow>
               if st = 0 then t
               else
                 (let h = pop_heap later (ht_heap t) (length (ht_heap t))
                  in drop_cancelled_tops
                       (t\<lparr>ht_states := AList.delete (te_id (last h)) (ht_states t),
                          ht_heap := butlast h\<rparr>))))"
  by pat_completeness auto
termination
  by (relation "measure (\<lambda>t. length (ht_heap t))") (auto simp: Let_def)

declare drop_cancelled_tops.simps [simp del]

text \<open>The second loop: move the waiting entries to the front, in place.\<close>

function compact_from ::
  "timer_entry list \<Rightarrow> (u64 \<times> byte) list \<Rightarrow> nat \<Rightarrow> nat \<Rightarrow> timer_entry list \<times> (u64 \<times> byte) list \<times> nat"
where
  "compact_from h states i write =
     (if i < length h then
        (if map_of states (te_id (h ! i)) = Some 0
         then compact_from (if write \<noteq> i then h[write := h ! i] else h) states (i + 1) (write + 1)
         else compact_from h (AList.delete (te_id (h ! i)) states) (i + 1) write)
      else (h, states, write))"
  by pat_completeness auto
termination
  by (relation "measure (\<lambda>(h, states, i, write). length h - i)") auto

declare compact_from.simps [simp del]

definition drop_cancelled_locked :: "heap_timer \<Rightarrow> heap_timer" where
  "drop_cancelled_locked t =
     (let t = drop_cancelled_tops t
      in if (of_nat (length (ht_heap t)) :: u64) \<le> ht_live t * 2 + 64 then t
         else (case compact_from (ht_heap t) (ht_states t) 0 0 of
                 (h, states, write) \<Rightarrow>
                   t\<lparr>ht_heap := make_heap later (take write h) (length (take write h)),
                      ht_states := states\<rparr>))"

definition refresh_hint_locked :: "heap_timer \<Rightarrow> heap_timer" where
  "refresh_hint_locked t =
     (let t = drop_cancelled_locked t
      in t\<lparr>ht_hint := (case ht_heap t of [] \<Rightarrow> 0 | e # _ \<Rightarrow> te_deadline e)\<rparr>)"

subsection \<open>The public operations\<close>

definition timer_insert :: "int \<Rightarrow> u64 \<Rightarrow> heap_timer \<Rightarrow> heap_timer \<times> u64" where
  "timer_insert deadline payload t =
     (let i = ht_next_id t;
          h = ht_heap t @ [\<lparr>te_deadline = deadline, te_id = i, te_payload = payload\<rparr>]
      in (t\<lparr>ht_next_id := i + 1,
             ht_heap := push_heap later h (length h),
             ht_states := map_emplace i 0 (ht_states t),
             ht_live := ht_live t + 1,
             ht_hint := (if ht_hint t = 0 \<or> deadline < ht_hint t then deadline else ht_hint t)\<rparr>,
          i))"

definition timer_cancel :: "u64 \<Rightarrow> heap_timer \<Rightarrow> heap_timer \<times> bool" where
  "timer_cancel i t =
     (case map_of (ht_states t) i of
        None \<Rightarrow> (t, False)
      | Some st \<Rightarrow>
          if st \<noteq> 0 then (t, False)
          else
            (let t = t\<lparr>ht_states := AList.update i 1 (ht_states t), ht_live := ht_live t - 1\<rparr>
             in if ht_live t = 0 then (t\<lparr>ht_hint := 0\<rparr>, True)
                else if (of_nat (length (ht_heap t)) :: u64) > ht_live t * 2 + 64
                then (refresh_hint_locked (drop_cancelled_locked t), True)
                else (t, True)))"

definition timer_next_deadline :: "heap_timer \<Rightarrow> heap_timer \<times> int option" where
  "timer_next_deadline t =
     (let t = refresh_hint_locked t
      in (t, case ht_heap t of [] \<Rightarrow> None | e # _ \<Rightarrow> Some (te_deadline e)))"

text \<open>The loop of \<open>drain_expired\<close>; the list is what has been written to \<open>out\<close>.\<close>

function drain_loop ::
  "int \<Rightarrow> nat \<Rightarrow> heap_timer \<Rightarrow> (u64 \<times> u64) list \<Rightarrow> heap_timer \<times> (u64 \<times> u64) list" where
  "drain_loop now max_count t out =
     (if length out < max_count \<and> ht_heap t \<noteq> [] \<and> te_deadline (hd (ht_heap t)) \<le> now
      then (let h = pop_heap later (ht_heap t) (length (ht_heap t)); e = last h
            in drain_loop now max_count
                 (t\<lparr>ht_heap := butlast h, ht_states := AList.delete (te_id e) (ht_states t),
                    ht_live := ht_live t - 1\<rparr>)
                 (out @ [(te_id e, te_payload e)]))
      else (t, out))"
  by pat_completeness auto
termination
  by (relation "measure (\<lambda>(now, max_count, t, out). length (ht_heap t))") (auto simp: Let_def)

declare drain_loop.simps [simp del]

definition timer_drain_expired ::
  "int \<Rightarrow> bool \<Rightarrow> nat \<Rightarrow> heap_timer \<Rightarrow> heap_timer \<times> (u64 \<times> u64) list" where
  "timer_drain_expired now out_null max_count t =
     (if out_null \<or> max_count = 0 then (t, [])
      else (case drain_loop now max_count (drop_cancelled_locked t) [] of
              (t, out) \<Rightarrow> (refresh_hint_locked t, out)))"

definition timer_contains :: "u64 \<Rightarrow> heap_timer \<Rightarrow> bool" where
  "timer_contains i t \<longleftrightarrow> map_of (ht_states t) i = Some 0"

definition timer_size :: "heap_timer \<Rightarrow> u64" where
  "timer_size t = ht_live t"

definition timer_empty :: "heap_timer \<Rightarrow> bool" where
  "timer_empty t \<longleftrightarrow> ht_live t = 0"

definition timer_clear :: "heap_timer \<Rightarrow> heap_timer" where
  "timer_clear t = t\<lparr>ht_heap := [], ht_states := [], ht_live := 0, ht_hint := 0\<rparr>"

subsection \<open>The heap of entries\<close>

lemma swo_later: "strict_weak_order later"
  by (auto simp: strict_weak_order_def later_def split: if_splits)

interpretation timer_heap: vector_heap later "whole_heap later"
  "\<lambda>xs. push_heap later xs (length xs)" "\<lambda>xs. pop_heap later xs (length xs)"
  "\<lambda>xs. make_heap later xs (length xs)"
  by (rule vector_heap_code) (rule swo_later)

lemma not_later_deadline: "\<not> later a b \<Longrightarrow> te_deadline a \<le> te_deadline b"
  by (auto simp: later_def split: if_splits)

text \<open>
  The structural invariant: the entries form a heap, tokens are distinct and below the
  counter, and the state table has exactly one entry for each token in the heap.
\<close>

definition timer_struct :: "heap_timer \<Rightarrow> bool" where
  "timer_struct t \<longleftrightarrow>
     whole_heap later (ht_heap t) \<and> distinct (map te_id (ht_heap t)) \<and>
     distinct (map fst (ht_states t)) \<and>
     fst ` set (ht_states t) = te_id ` set (ht_heap t) \<and>
     (\<forall>e \<in> set (ht_heap t). te_id e < ht_next_id t)"

text \<open>The entries that still wait, and the accounting of \<open>live_\<close> and the hint.\<close>

definition waiting :: "heap_timer \<Rightarrow> timer_entry \<Rightarrow> bool" where
  "waiting t e \<longleftrightarrow> map_of (ht_states t) (te_id e) = Some 0"

definition pending :: "heap_timer \<Rightarrow> timer_entry set" where
  "pending t = {e \<in> set (ht_heap t). waiting t e}"

definition timer_live_ok :: "heap_timer \<Rightarrow> bool" where
  "timer_live_ok t \<longleftrightarrow> ht_live t = of_nat (card (pending t))"

definition timer_hint_ok :: "heap_timer \<Rightarrow> bool" where
  "timer_hint_ok t \<longleftrightarrow>
     (pending t = {} \<longrightarrow> ht_hint t = 0) \<and>
     (\<forall>e \<in> pending t. 0 < ht_hint t \<and> ht_hint t \<le> te_deadline e)"

lemma timer_structD:
  assumes "timer_struct t"
  shows "whole_heap later (ht_heap t)" "distinct (map te_id (ht_heap t))"
    "distinct (map fst (ht_states t))" "fst ` set (ht_states t) = te_id ` set (ht_heap t)"
    "e \<in> set (ht_heap t) \<Longrightarrow> te_id e < ht_next_id t"
  using assms by (auto simp: timer_struct_def)

lemma pending_subset: "pending t \<subseteq> set (ht_heap t)"
  by (auto simp: pending_def)

lemma finite_pending [simp]: "finite (pending t)"
  by (rule finite_subset [OF pending_subset]) simp

lemma same_id_same_entry:
  "timer_struct t \<Longrightarrow> e \<in> set (ht_heap t) \<Longrightarrow> e' \<in> set (ht_heap t) \<Longrightarrow> te_id e = te_id e' \<Longrightarrow> e = e'"
  using timer_structD(2) [of t] by (auto simp: distinct_map inj_on_def)

text \<open>Popping the top and forgetting its token.\<close>

definition pop_top :: "heap_timer \<Rightarrow> heap_timer" where
  "pop_top t =
     (let h = pop_heap later (ht_heap t) (length (ht_heap t))
      in t\<lparr>ht_states := AList.delete (te_id (last h)) (ht_states t), ht_heap := butlast h\<rparr>)"

lemma pop_top_frame [simp]:
  "ht_live (pop_top t) = ht_live t" "ht_hint (pop_top t) = ht_hint t"
  "ht_next_id (pop_top t) = ht_next_id t"
  by (simp_all add: pop_top_def Let_def)

lemma pop_top_ok:
  assumes st: "timer_struct t" and ne: "ht_heap t \<noteq> []"
  defines "e \<equiv> hd (ht_heap t)"
  shows "last (pop_heap later (ht_heap t) (length (ht_heap t))) = e"
    and "mset (ht_heap t) = add_mset e (mset (ht_heap (pop_top t)))"
    and "set (ht_heap (pop_top t)) = set (ht_heap t) - {e}"
    and "timer_struct (pop_top t)"
    and "map_of (ht_states (pop_top t)) = (map_of (ht_states t))(te_id e := None)"
    and "pending (pop_top t) = pending t - {e}"
proof -
  note hp = timer_structD(1) [OF st]
  show l: "last (pop_heap later (ht_heap t) (length (ht_heap t))) = e"
    unfolding e_def using timer_heap.last_pop [OF hp ne] .
  show ms: "mset (ht_heap t) = add_mset e (mset (ht_heap (pop_top t)))"
    using timer_heap.mset_after_pop [OF hp ne] by (simp add: pop_top_def Let_def e_def)
  then have ms': "mset (ht_heap t) = mset (e # ht_heap (pop_top t))" by simp
  from ms' have "mset (map te_id (ht_heap t)) = mset (map te_id (e # ht_heap (pop_top t)))"
    by simp
  from mset_eq_imp_distinct_iff [OF this]
  have ids: "distinct (map te_id (e # ht_heap (pop_top t)))"
    using timer_structD(2) [OF st] by simp
  have ins: "set (ht_heap t) = insert e (set (ht_heap (pop_top t)))"
    using mset_eq_setD [OF ms'] by simp
  then show rest: "set (ht_heap (pop_top t)) = set (ht_heap t) - {e}" using ids by auto
  show mo: "map_of (ht_states (pop_top t)) = (map_of (ht_states t))(te_id e := None)"
    by (simp add: pop_top_def Let_def l)
  have "fst ` set (ht_states (pop_top t)) = fst ` set (ht_states t) - {te_id e}"
    by (simp add: pop_top_def Let_def l delete_keys image_set flip: set_map)
  also have "\<dots> = te_id ` set (ht_heap (pop_top t))"
    using timer_structD(4) [OF st] ids ins by auto
  finally have dom: "fst ` set (ht_states (pop_top t)) = te_id ` set (ht_heap (pop_top t))" .
  have "whole_heap later (ht_heap (pop_top t))"
    using timer_heap.hp_pop [OF hp] by (simp add: pop_top_def Let_def)
  moreover have "distinct (map fst (ht_states (pop_top t)))"
    using timer_structD(3) [OF st] by (simp add: pop_top_def Let_def distinct_delete)
  moreover have "te_id x < ht_next_id (pop_top t)" if "x \<in> set (ht_heap (pop_top t))" for x
    using that ins timer_structD(5) [OF st] by simp
  ultimately show "timer_struct (pop_top t)"
    using ids dom by (simp add: timer_struct_def)
  have "te_id x \<noteq> te_id e" if "x \<in> set (ht_heap t)" "x \<noteq> e" for x
    using same_id_same_entry [OF st that(1)] that(2) ne unfolding e_def by auto
  then show "pending (pop_top t) = pending t - {e}"
    by (auto simp: pending_def waiting_def rest mo)
qed

lemma drop_tops_stop:
  "ht_heap t = [] \<or> map_of (ht_states t) (te_id (hd (ht_heap t))) \<in> {None, Some 0} \<Longrightarrow>
   drop_cancelled_tops t = t"
  by (subst drop_cancelled_tops.simps) (auto split: list.splits)

lemma drop_tops_step:
  "ht_heap t \<noteq> [] \<Longrightarrow> map_of (ht_states t) (te_id (hd (ht_heap t))) = Some st \<Longrightarrow> st \<noteq> 0 \<Longrightarrow>
   drop_cancelled_tops t = drop_cancelled_tops (pop_top t)"
  by (subst drop_cancelled_tops.simps) (auto simp: pop_top_def Let_def split: list.splits)

text \<open>
  What a clean-up of the heap guarantees: only cancelled entries go, the accounting fields
  stay, and the new state keeps the structural invariant.
\<close>

definition cleaned :: "heap_timer \<Rightarrow> heap_timer \<Rightarrow> bool" where
  "cleaned t t' \<longleftrightarrow>
     timer_struct t' \<and> pending t' = pending t \<and> set (ht_heap t') \<subseteq> set (ht_heap t) \<and>
     ht_live t' = ht_live t \<and> ht_hint t' = ht_hint t \<and> ht_next_id t' = ht_next_id t"

lemma cleaned_trans: "cleaned t t' \<Longrightarrow> cleaned t' t'' \<Longrightarrow> cleaned t t''"
  by (auto simp: cleaned_def)

lemma heap_id_in_states:
  "timer_struct t \<Longrightarrow> e \<in> set (ht_heap t) \<Longrightarrow> \<exists>st. map_of (ht_states t) (te_id e) = Some st"
  using timer_structD(4) [of t] by (metis domD dom_map_of_conv_image_fst image_eqI)

lemma drop_tops_ok:
  "timer_struct t \<Longrightarrow>
   cleaned t (drop_cancelled_tops t) \<and>
   (ht_heap (drop_cancelled_tops t) = [] \<or> waiting (drop_cancelled_tops t) (hd (ht_heap (drop_cancelled_tops t))))"
proof (induction "length (ht_heap t)" arbitrary: t rule: less_induct)
  case less
  show ?case
  proof (cases "ht_heap t = [] \<or> waiting t (hd (ht_heap t))")
    case True
    then show ?thesis
      using less.prems drop_tops_stop [of t] by (auto simp: cleaned_def waiting_def)
  next
    case False
    obtain st where st: "map_of (ht_states t) (te_id (hd (ht_heap t))) = Some st"
      using heap_id_in_states [OF less.prems, of "hd (ht_heap t)"] False by auto
    have eq: "drop_cancelled_tops t = drop_cancelled_tops (pop_top t)"
      using False st by (intro drop_tops_step [OF _ st]) (auto simp: waiting_def)
    have ne: "ht_heap t \<noteq> []" using False by simp
    note pop = pop_top_ok [OF less.prems ne]
    have "length (ht_heap (pop_top t)) < length (ht_heap t)"
      using pop(2) by (metis size_mset size_add_mset lessI)
    note ih = less.hyps [OF this pop(4)]
    have "hd (ht_heap t) \<notin> pending t" using False by (simp add: pending_def)
    then have "cleaned t (pop_top t)" using pop by (auto simp: cleaned_def)
    then show ?thesis using ih eq cleaned_trans by metis
  qed
qed

text \<open>The in-place compaction is a filter of the entries and of the state table.\<close>

abbreviation is_waiting_in :: "(u64 \<times> byte) list \<Rightarrow> timer_entry \<Rightarrow> bool" where
  "is_waiting_in states e \<equiv> map_of states (te_id e) = Some 0"

lemma waiting_after_delete:
  "\<not> is_waiting_in states e \<Longrightarrow> is_waiting_in (AList.delete (te_id e) states) x = is_waiting_in states x"
  by auto

lemma compact_from_ok:
  "w \<le> i \<Longrightarrow> i \<le> length h \<Longrightarrow> compact_from h states i w = (h', states', w') \<Longrightarrow>
   take w' h' = take w h @ filter (is_waiting_in states) (drop i h) \<and>
   states' = fold AList.delete (map te_id (filter (\<lambda>e. \<not> is_waiting_in states e) (drop i h))) states"
proof (induction h states i w arbitrary: h' states' w' rule: compact_from.induct)
  case (1 h states i w)
  show ?case
  proof (cases "i < length h")
    case False
    then have "h' = h" "states' = states" "w' = w"
      using 1(5) by (simp_all add: compact_from.simps [of h states i w])
    with False show ?thesis by simp
  next
    case True
    then have d: "drop i h = h ! i # drop (i + 1) h" by (simp add: Cons_nth_drop_Suc)
    show ?thesis
    proof (cases "is_waiting_in states (h ! i)")
      case w: True
      let ?h = "if w \<noteq> i then h[w := h ! i] else h"
      have "take (w + 1) ?h = take w h @ [h ! i]"
        using True 1(3) by (auto simp: take_Suc_conv_app_nth)
      moreover have "drop (i + 1) ?h = drop (i + 1) h" using 1(3) by auto
      moreover have "compact_from ?h states (i + 1) (w + 1) = (h', states', w')"
        using 1(5) True w by (simp add: compact_from.simps [of h states i w])
      ultimately show ?thesis
        using 1(1) [OF True w, of h' states' w'] True 1(3) w d by simp
    next
      case nw: False
      then have "compact_from h (AList.delete (te_id (h ! i)) states) (i + 1) w = (h', states', w')"
        using 1(5) True by (simp add: compact_from.simps [of h states i w])
      then show ?thesis
        using 1(2) [OF True nw, of h' states' w'] True 1(3) nw d waiting_after_delete [OF nw] by simp
    qed
  qed
qed

lemma map_of_fold_delete:
  "map_of (fold AList.delete ks al) k = (if k \<in> set ks then None else map_of al k)"
  by (induction ks arbitrary: al) auto

lemma distinct_fold_delete:
  "distinct (map fst al) \<Longrightarrow> distinct (map fst (fold AList.delete ks al))"
  by (induction ks arbitrary: al) (auto simp: distinct_delete)

lemma keys_delete: "fst ` set (AList.delete k al) = fst ` set al - {k}"
  by (simp add: delete_keys image_set flip: set_map)

lemma keys_fold_delete: "fst ` set (fold AList.delete ks al) = fst ` set al - set ks"
  by (induction ks arbitrary: al) (auto simp: keys_delete)

definition compacted :: "heap_timer \<Rightarrow> heap_timer" where
  "compacted t =
     (let keep = filter (waiting t) (ht_heap t);
          gone = filter (\<lambda>e. \<not> waiting t e) (ht_heap t)
      in t\<lparr>ht_heap := make_heap later keep (length keep),
            ht_states := fold AList.delete (map te_id gone) (ht_states t)\<rparr>)"

lemma drop_cancelled_eq:
  "drop_cancelled_locked t =
     (let t' = drop_cancelled_tops t
      in if (of_nat (length (ht_heap t')) :: u64) \<le> ht_live t' * 2 + 64 then t' else compacted t')"
proof -
  let ?t = "drop_cancelled_tops t"
  obtain h' states' w' where c: "compact_from (ht_heap ?t) (ht_states ?t) 0 0 = (h', states', w')"
    by (metis prod_cases3)
  from compact_from_ok [OF _ _ c]
  show ?thesis
    by (simp add: drop_cancelled_locked_def Let_def c compacted_def waiting_def [abs_def] del: length_take)
qed

lemma compacted_ok:
  assumes "timer_struct t"
  shows "cleaned t (compacted t)" "set (ht_heap (compacted t)) = pending t"
    "e \<in> set (ht_heap (compacted t)) \<Longrightarrow> waiting (compacted t) e"
proof -
  let ?keep = "filter (waiting t) (ht_heap t)" and ?gone = "filter (\<lambda>e. \<not> waiting t e) (ht_heap t)"
  have ids: "distinct (map te_id (ht_heap t))" by (rule timer_structD(2) [OF assms])
  have heap: "ht_heap (compacted t) = make_heap later ?keep (length ?keep)"
    by (simp add: compacted_def Let_def)
  have set: "set (ht_heap (compacted t)) = pending t"
    by (auto simp: heap timer_heap.set_make pending_def)
  have disj: "te_id ` set ?keep \<inter> te_id ` set ?gone = {}"
    using same_id_same_entry [OF assms] by auto
  have un: "te_id ` set (ht_heap t) = te_id ` set ?keep \<union> te_id ` set ?gone" by auto
  have mo: "map_of (ht_states (compacted t)) k =
      (if k \<in> te_id ` set ?gone then None else map_of (ht_states t) k)" for k
    by (simp add: compacted_def Let_def map_of_fold_delete)
  have wait: "waiting (compacted t) e" if "e \<in> pending t" for e
    using that disj by (auto simp: waiting_def mo pending_def)
  have "mset (map te_id (ht_heap (compacted t))) = mset (map te_id ?keep)"
    using timer_heap.mset_make [of ?keep] by (simp add: heap)
  from mset_eq_imp_distinct_iff [OF this]
  have dist: "distinct (map te_id (ht_heap (compacted t)))"
    using ids by (simp add: distinct_map_filter)
  have "fst ` set (ht_states (compacted t)) = fst ` set (ht_states t) - te_id ` set ?gone"
    by (simp add: compacted_def Let_def keys_fold_delete)
  also have "\<dots> = te_id ` set ?keep" using timer_structD(4) [OF assms] un disj by auto
  finally have dom: "fst ` set (ht_states (compacted t)) = te_id ` set (ht_heap (compacted t))"
    by (simp add: set pending_def)
  have "distinct (map fst (ht_states (compacted t)))"
    using timer_structD(3) [OF assms] by (simp add: compacted_def Let_def distinct_fold_delete)
  moreover have "whole_heap later (ht_heap (compacted t))"
    unfolding heap by (rule timer_heap.hp_make)
  moreover have "\<forall>e \<in> set (ht_heap (compacted t)). te_id e < ht_next_id (compacted t)"
    using timer_structD(5) [OF assms] by (auto simp: set pending_def compacted_def Let_def)
  ultimately have "timer_struct (compacted t)" using dist dom by (simp add: timer_struct_def)
  moreover have "pending (compacted t) = pending t" using wait set by (auto simp: pending_def)
  ultimately show "cleaned t (compacted t)"
    using set pending_subset by (simp add: cleaned_def compacted_def Let_def)
  show "set (ht_heap (compacted t)) = pending t" by (rule set)
  show "e \<in> set (ht_heap (compacted t)) \<Longrightarrow> waiting (compacted t) e" using wait set by simp
qed

lemma drop_cancelled_ok:
  assumes "timer_struct t"
  defines "t' \<equiv> drop_cancelled_locked t"
  shows "cleaned t t'" "ht_heap t' = [] \<or> waiting t' (hd (ht_heap t'))"
proof -
  note tops = drop_tops_ok [OF assms(1)]
  then have st: "timer_struct (drop_cancelled_tops t)" by (simp add: cleaned_def)
  show "cleaned t t'"
    using tops compacted_ok(1) [OF st] by (auto simp: t'_def drop_cancelled_eq Let_def intro: cleaned_trans)
  show "ht_heap t' = [] \<or> waiting t' (hd (ht_heap t'))"
    using tops compacted_ok(3) [OF st] hd_in_set
    by (auto simp: t'_def drop_cancelled_eq Let_def)
qed

subsection \<open>What the operations guarantee\<close>

lemma front_is_earliest:
  assumes "timer_struct t" "ht_heap t = [] \<or> waiting t (hd (ht_heap t))"
  shows "ht_heap t = [] \<longleftrightarrow> pending t = {}"
    and "ht_heap t \<noteq> [] \<Longrightarrow> hd (ht_heap t) \<in> pending t"
    and "ht_heap t \<noteq> [] \<Longrightarrow> te_deadline (hd (ht_heap t)) = Min (te_deadline ` pending t)"
proof -
  show mem: "hd (ht_heap t) \<in> pending t" if "ht_heap t \<noteq> []"
    using assms(2) that by (auto simp: pending_def)
  show "ht_heap t = [] \<longleftrightarrow> pending t = {}" using mem pending_subset by fastforce
  show "te_deadline (hd (ht_heap t)) = Min (te_deadline ` pending t)" if "ht_heap t \<noteq> []"
  proof (rule Min_eqI [symmetric])
    show "finite (te_deadline ` pending t)" by simp
    show "te_deadline (hd (ht_heap t)) \<le> d" if "d \<in> te_deadline ` pending t" for d
      using that timer_heap.hp_root [OF timer_structD(1) [OF assms(1)]] pending_subset [of t]
      by (auto intro!: not_later_deadline)
    show "te_deadline (hd (ht_heap t)) \<in> te_deadline ` pending t" using mem [OF that] by simp
  qed
qed

lemma refresh_hint_ok:
  assumes "timer_struct t"
  defines "t' \<equiv> refresh_hint_locked t"
  shows "timer_struct t'" "pending t' = pending t" "ht_live t' = ht_live t"
    "ht_next_id t' = ht_next_id t"
    "ht_heap t' = [] \<longleftrightarrow> pending t = {}"
    "ht_hint t' = (if pending t = {} then 0 else Min (te_deadline ` pending t))"
    "pending t \<noteq> {} \<Longrightarrow> te_deadline (hd (ht_heap t')) = Min (te_deadline ` pending t)"
proof -
  let ?d = "drop_cancelled_locked t"
  note ok = drop_cancelled_ok [OF assms(1)]
  then have st: "timer_struct ?d" and pd: "pending ?d = pending t"
    and lv: "ht_live ?d = ht_live t" "ht_next_id ?d = ht_next_id t" by (simp_all add: cleaned_def)
  note front = front_is_earliest [OF st ok(2)]
  have eq: "t' = ?d\<lparr>ht_hint := (case ht_heap ?d of [] \<Rightarrow> 0 | e # _ \<Rightarrow> te_deadline e)\<rparr>"
    by (simp add: t'_def refresh_hint_locked_def Let_def)
  show "timer_struct t'" using st by (simp add: eq timer_struct_def)
  show "pending t' = pending t" using pd by (simp add: eq pending_def waiting_def)
  show "ht_live t' = ht_live t" "ht_next_id t' = ht_next_id t" using lv by (simp_all add: eq)
  show h: "ht_heap t' = [] \<longleftrightarrow> pending t = {}" using front(1) pd by (simp add: eq)
  show "pending t \<noteq> {} \<Longrightarrow> te_deadline (hd (ht_heap t')) = Min (te_deadline ` pending t)"
    using front(1,3) pd by (simp add: eq)
  show "ht_hint t' = (if pending t = {} then 0 else Min (te_deadline ` pending t))"
    using front(1,3) pd by (cases "ht_heap ?d") (auto simp: eq)
qed

definition timer_ok :: "heap_timer \<Rightarrow> bool" where
  "timer_ok t \<longleftrightarrow> timer_struct t \<and> timer_live_ok t \<and> timer_hint_ok t"

lemma timer_okI:
  assumes "timer_struct t" "timer_live_ok t" "timer_hint_ok t"
  shows "timer_ok t"
  using assms by (simp add: timer_ok_def)

lemma refresh_hint_timer_ok:
  assumes "timer_struct t" "timer_live_ok t" "\<forall>e \<in> pending t. 0 < te_deadline e"
  shows "timer_ok (refresh_hint_locked t)"
proof -
  note r = refresh_hint_ok [OF assms(1)]
  have "0 < Min (te_deadline ` pending t)" if "pending t \<noteq> {}" using that assms(3) by simp
  then have "timer_hint_ok (refresh_hint_locked t)"
    using r(2,6) by (auto simp: timer_hint_ok_def)
  then show ?thesis using r assms(2) by (simp add: timer_ok_def timer_live_ok_def)
qed

lemma pending_positive: "timer_ok t \<Longrightarrow> e \<in> pending t \<Longrightarrow> 0 < te_deadline e"
  by (auto simp: timer_ok_def timer_hint_ok_def)

lemma timer_init_ok [simp]: "timer_ok heap_timer_init" "pending heap_timer_init = {}"
  by (auto simp: timer_ok_def timer_struct_def timer_live_ok_def timer_hint_ok_def pending_def
      heap_timer_init_def)

lemma timer_clear_ok: "timer_ok (timer_clear t)" "pending (timer_clear t) = {}"
  by (auto simp: timer_ok_def timer_struct_def timer_live_ok_def timer_hint_ok_def pending_def
      timer_clear_def)

lemma timer_insert_ok:
  assumes ok: "timer_ok t" and pos: "0 < deadline" and room: "ht_next_id t < ht_next_id t + 1"
    and ins: "timer_insert deadline payload t = (t', i)"
  defines "e \<equiv> \<lparr>te_deadline = deadline, te_id = i, te_payload = payload\<rparr>"
  shows "timer_ok t'" "pending t' = insert e (pending t)" "e \<notin> pending t"
    "\<forall>x \<in> set (ht_heap t). te_id x \<noteq> i"
proof -
  have st: "timer_struct t" and lv: "timer_live_ok t" and hint: "timer_hint_ok t"
    using ok by (simp_all add: timer_ok_def)
  have i: "i = ht_next_id t" using ins by (simp add: timer_insert_def Let_def)
  have heap: "ht_heap t' = push_heap later (ht_heap t @ [e]) (length (ht_heap t @ [e]))"
    and states: "ht_states t' = map_emplace i 0 (ht_states t)"
    and live: "ht_live t' = ht_live t + 1" and next_id: "ht_next_id t' = ht_next_id t + 1"
    and hint': "ht_hint t' = (if ht_hint t = 0 \<or> deadline < ht_hint t then deadline else ht_hint t)"
    using ins by (auto simp: timer_insert_def Let_def e_def i)
  show fresh: "\<forall>x \<in> set (ht_heap t). te_id x \<noteq> i" using timer_structD(5) [OF st] i by fastforce
  then have nokey: "i \<notin> fst ` set (ht_states t)" using timer_structD(4) [OF st] by force
  then have none: "map_of (ht_states t) i = None" by (simp add: map_of_eq_None_iff)
  have set: "set (ht_heap t') = insert e (set (ht_heap t))"
    using timer_heap.set_push [of "ht_heap t @ [e]"] by (simp add: heap)
  show pend: "pending t' = insert e (pending t)"
    using fresh by (auto simp: pending_def waiting_def set states map_of_emplace none e_def)
  show notin: "e \<notin> pending t" using fresh by (auto simp: pending_def e_def)
  have "mset (map te_id (ht_heap t')) = mset (map te_id (ht_heap t @ [e]))"
    using timer_heap.mset_push [of "ht_heap t @ [e]"] by (simp add: heap)
  from mset_eq_imp_distinct_iff [OF this] have "distinct (map te_id (ht_heap t'))"
    using timer_structD(2) [OF st] fresh by (auto simp: e_def)
  moreover have "whole_heap later (ht_heap t')"
    using timer_heap.hp_push [OF timer_structD(1) [OF st], of e] by (simp add: heap)
  moreover have "fst ` set (ht_states t') = te_id ` set (ht_heap t')"
    using timer_structD(4) [OF st] none by (simp add: set states map_emplace_def e_def)
  moreover have "distinct (map fst (ht_states t'))"
    using distinct_map_emplace [OF timer_structD(3) [OF st]] by (simp add: states)
  moreover have "\<forall>x \<in> set (ht_heap t'). te_id x < ht_next_id t'"
    using timer_structD(5) [OF st] room by (auto simp: set next_id e_def i intro: order.strict_trans)
  ultimately have "timer_struct t'" by (simp add: timer_struct_def)
  moreover have "timer_live_ok t'"
    using lv notin by (simp add: timer_live_ok_def live pend add.commute)
  moreover have "timer_hint_ok t'"
    using hint pos by (auto simp: timer_hint_ok_def hint' pend e_def)
  ultimately show "timer_ok t'" by (rule timer_okI)
qed
lemma card_pending_bound: "timer_struct t \<Longrightarrow> card (pending t) \<le> 2 ^ 64"
proof -
  assume st: "timer_struct t"
  have "inj_on te_id (pending t)"
    using timer_structD(2) [OF st] pending_subset by (auto simp: distinct_map intro: inj_on_subset)
  then have "card (pending t) = card (te_id ` pending t)" by (simp add: card_image)
  also have "\<dots> \<le> card (UNIV :: u64 set)" by (rule card_mono) auto
  also have "\<dots> = 2 ^ 64" by (simp add: card_word)
  finally show ?thesis .
qed

lemma of_nat_u64_eq_0: "n < 2 ^ 64 \<Longrightarrow> (of_nat n :: u64) = 0 \<longleftrightarrow> n = 0"
  by (auto simp: word_of_nat_eq_0_iff dest: dvd_imp_le)

lemma waiting_iff_pending:
  assumes "timer_struct t"
  shows "map_of (ht_states t) i = Some 0 \<longleftrightarrow> (\<exists>e \<in> pending t. te_id e = i)"
proof
  assume m: "map_of (ht_states t) i = Some 0"
  then have "i \<in> fst ` set (ht_states t)" by (force dest: map_of_SomeD)
  then obtain e where "e \<in> set (ht_heap t)" "te_id e = i" using timer_structD(4) [OF assms] by auto
  then show "\<exists>e \<in> pending t. te_id e = i" using m by (auto simp: pending_def waiting_def)
qed (auto simp: pending_def waiting_def)

text \<open>The state after \<open>cancel\<close> has set the mark and before it decides to compact.\<close>

definition marked :: "u64 \<Rightarrow> heap_timer \<Rightarrow> heap_timer" where
  "marked i t = t\<lparr>ht_states := AList.update i 1 (ht_states t), ht_live := ht_live t - 1\<rparr>"

lemma marked_ok:
  assumes ok: "timer_ok t" and e: "e \<in> pending t" "te_id e = i"
  shows "timer_struct (marked i t)" "pending (marked i t) = pending t - {e}"
    "ht_live (marked i t) = of_nat (card (pending t - {e}))"
    "(of_nat (card (pending t - {e})) :: u64) = 0 \<longleftrightarrow> pending t - {e} = {}"
proof -
  have st: "timer_struct t" and lv: "timer_live_ok t" using ok by (simp_all add: timer_ok_def)
  have heap: "e \<in> set (ht_heap t)" using e pending_subset by blast
  have key: "i \<in> fst ` set (ht_states t)" using timer_structD(4) [OF st] heap e(2) by blast
  have "fst ` set (AList.update i 1 (ht_states t)) = fst ` set (ht_states t)"
    using key by (simp add: dom_update insert_absorb)
  moreover have "distinct (map fst (AList.update i 1 (ht_states t)))"
    using timer_structD(3) [OF st] by (rule distinct_update)
  ultimately show "timer_struct (marked i t)"
    using st by (simp add: timer_struct_def marked_def)
  have "te_id x = i \<longleftrightarrow> x = e" if "x \<in> set (ht_heap t)" for x
    using same_id_same_entry [OF st that heap] e(2) by auto
  then show "pending (marked i t) = pending t - {e}"
    using e(2) by (auto simp: pending_def waiting_def marked_def)
  have c: "card (pending t) = card (pending t - {e}) + 1"
    using card.remove [OF finite_pending e(1)] by simp
  then show "ht_live (marked i t) = of_nat (card (pending t - {e}))"
    using lv by (simp add: timer_live_ok_def marked_def)
  show "(of_nat (card (pending t - {e})) :: u64) = 0 \<longleftrightarrow> pending t - {e} = {}"
    using card_pending_bound [OF st] c by (subst of_nat_u64_eq_0) auto
qed

lemma timer_cancel_ok:
  assumes ok: "timer_ok t" and can: "timer_cancel i t = (t', r)"
  shows "timer_ok t'" "pending t' = {e \<in> pending t. te_id e \<noteq> i}"
    "r \<longleftrightarrow> (\<exists>e \<in> pending t. te_id e = i)"
proof -
  have st: "timer_struct t" and hint: "timer_hint_ok t" using ok by (simp_all add: timer_ok_def)
  have "timer_ok t' \<and> pending t' = {e \<in> pending t. te_id e \<noteq> i} \<and>
      (r \<longleftrightarrow> (\<exists>e \<in> pending t. te_id e = i))"
  proof (cases "map_of (ht_states t) i = Some 0")
    case False
    then have "t' = t" "\<not> r" using can by (auto simp: timer_cancel_def split: option.splits if_splits)
    moreover have "\<not> (\<exists>e \<in> pending t. te_id e = i)" using waiting_iff_pending [OF st] False by blast
    ultimately show ?thesis using ok by auto
  next
    case True
    then obtain e where e: "e \<in> pending t" "te_id e = i" using waiting_iff_pending [OF st] by blast
    note m = marked_ok [OF ok e]
    have rest: "pending t - {e} = {x \<in> pending t. te_id x \<noteq> i}"
      using same_id_same_entry [OF st] e pending_subset by blast
    have lv: "timer_live_ok (marked i t)" using m by (simp add: timer_live_ok_def)
    have pos: "\<forall>x \<in> pending (marked i t). 0 < te_deadline x"
      using pending_positive [OF ok] m(2) by auto
    have r: "r" and t': "t' = (if ht_live (marked i t) = 0 then (marked i t)\<lparr>ht_hint := 0\<rparr>
        else if (of_nat (length (ht_heap (marked i t))) :: u64) > ht_live (marked i t) * 2 + 64
        then refresh_hint_locked (drop_cancelled_locked (marked i t)) else marked i t)"
      using can True by (auto simp: timer_cancel_def marked_def Let_def split: if_splits)
    have zero: "ht_live (marked i t) = 0 \<longleftrightarrow> pending (marked i t) = {}" using m by simp
    have p0: "pending ((marked i t)\<lparr>ht_hint := 0\<rparr>) = pending (marked i t)"
      by (simp add: pending_def waiting_def)
    have hint_mono: "pending (marked i t) \<noteq> {} \<Longrightarrow> timer_hint_ok (marked i t)"
      using hint m(2) by (auto simp: timer_hint_ok_def marked_def)
    have d: "timer_struct (drop_cancelled_locked (marked i t))"
        "pending (drop_cancelled_locked (marked i t)) = pending (marked i t)"
        "timer_live_ok (drop_cancelled_locked (marked i t))"
      using drop_cancelled_ok(1) [OF m(1)] lv by (auto simp: cleaned_def timer_live_ok_def)
    have "timer_ok t' \<and> pending t' = pending (marked i t)"
    proof (cases "ht_live (marked i t) = 0")
      case True
      have "timer_struct ((marked i t)\<lparr>ht_hint := 0\<rparr>)" using m(1) by (simp add: timer_struct_def)
      moreover have "timer_live_ok ((marked i t)\<lparr>ht_hint := 0\<rparr>)"
        using lv p0 by (simp add: timer_live_ok_def)
      moreover have "timer_hint_ok ((marked i t)\<lparr>ht_hint := 0\<rparr>)"
        using True zero p0 by (simp add: timer_hint_ok_def)
      ultimately show ?thesis using True t' p0 by (simp add: timer_ok_def)
    next
      case False
      then have "timer_ok (marked i t)" using m(1) lv hint_mono zero by (simp add: timer_ok_def)
      moreover have "timer_ok (refresh_hint_locked (drop_cancelled_locked (marked i t)))"
        using refresh_hint_timer_ok [OF d(1) d(3)] pos d(2) by simp
      ultimately show ?thesis
        using False t' refresh_hint_ok(2) [OF d(1)] d(2) by simp
    qed
    then show ?thesis using m(2) rest r e by auto
  qed
  then show "timer_ok t'" "pending t' = {e \<in> pending t. te_id e \<noteq> i}"
    "r \<longleftrightarrow> (\<exists>e \<in> pending t. te_id e = i)" by blast+
qed

lemma timer_next_deadline_ok:
  assumes ok: "timer_ok t" and nd: "timer_next_deadline t = (t', r)"
  shows "timer_ok t'" "pending t' = pending t"
    "r = (if pending t = {} then None else Some (Min (te_deadline ` pending t)))"
proof -
  have st: "timer_struct t" "timer_live_ok t" using ok by (simp_all add: timer_ok_def)
  note r = refresh_hint_ok [OF st(1)]
  have t': "t' = refresh_hint_locked t"
    and res: "r = (case ht_heap t' of [] \<Rightarrow> None | e # _ \<Rightarrow> Some (te_deadline e))"
    using nd by (auto simp: timer_next_deadline_def Let_def)
  show "timer_ok t'" unfolding t' using st pending_positive [OF ok] by (intro refresh_hint_timer_ok) auto
  show "pending t' = pending t" using r by (simp add: t')
  show "r = (if pending t = {} then None else Some (Min (te_deadline ` pending t)))"
    using r(5,7) unfolding res t' by (cases "ht_heap (refresh_hint_locked t)") auto
qed

subsection \<open>drain_expired\<close>

text \<open>
  \<open>drained t t' es\<close>: from \<open>t\<close> to \<open>t'\<close> the entries \<open>es\<close> left the heap, in this order, and the
  counter went down by one for each of them.
\<close>

definition drained :: "heap_timer \<Rightarrow> heap_timer \<Rightarrow> timer_entry list \<Rightarrow> bool" where
  "drained t t' es \<longleftrightarrow>
     timer_struct t' \<and> distinct es \<and> set es \<subseteq> set (ht_heap t) \<and>
     set (ht_heap t') = set (ht_heap t) - set es \<and> pending t' = pending t - set es \<and>
     ht_live t' = ht_live t - of_nat (length es) \<and>
     sorted_wrt (\<lambda>a b. \<not> later a b) es \<and>
     (\<forall>a \<in> set es. \<forall>b \<in> set (ht_heap t'). \<not> later a b)"

definition token_of :: "timer_entry \<Rightarrow> u64 \<times> u64" where
  "token_of e = (te_id e, te_payload e)"

lemma drained_Nil: "timer_struct t \<Longrightarrow> drained t t []"
  by (simp add: drained_def)

lemma drained_Cons:
  assumes st: "timer_struct t" and ne: "ht_heap t \<noteq> []"
    and rest: "drained (pop_top t\<lparr>ht_live := ht_live t - 1\<rparr>) t' es"
  shows "drained t t' (hd (ht_heap t) # es)"
proof -
  note pop = pop_top_ok [OF st ne]
  let ?u = "pop_top t\<lparr>ht_live := ht_live t - 1\<rparr>"
  have u: "ht_heap ?u = ht_heap (pop_top t)" "pending ?u = pending (pop_top t)"
    by (simp_all add: pending_def waiting_def)
  have root: "\<not> later (hd (ht_heap t)) x" if "x \<in> set (ht_heap t)" for x
    using timer_heap.hp_root [OF timer_structD(1) [OF st] that] .
  have mem: "hd (ht_heap t) \<in> set (ht_heap t)" using ne by simp
  show ?thesis
    using rest pop(3,6) root mem unfolding drained_def u
    by (auto simp: algebra_simps)
qed

lemma heap_states_update_swap:
  "t\<lparr>ht_heap := h, ht_states := s\<rparr> = t\<lparr>ht_states := s, ht_heap := h\<rparr>" for t :: heap_timer
  by (cases t) simp

lemma drain_loop_ok:
  "timer_struct t \<Longrightarrow> drain_loop now max_count t out = (t', out') \<Longrightarrow> length out \<le> max_count \<Longrightarrow>
   \<exists>es. out' = out @ map token_of es \<and> drained t t' es \<and> (\<forall>e \<in> set es. te_deadline e \<le> now) \<and>
     length out' \<le> max_count \<and>
     (length out' = max_count \<or> (\<forall>e \<in> set (ht_heap t'). now < te_deadline e))"
proof (induction "length (ht_heap t)" arbitrary: t out rule: less_induct)
  case (less t out)
  let ?go = "length out < max_count \<and> ht_heap t \<noteq> [] \<and> te_deadline (hd (ht_heap t)) \<le> now"
  show ?case
  proof (cases ?go)
    case False
    then have "t' = t" "out' = out"
      using less.prems(2) by (auto simp: drain_loop.simps [of now max_count t out])
    moreover have "now < te_deadline e"
      if "length out \<noteq> max_count" "e \<in> set (ht_heap t)" for e
    proof -
      have "te_deadline (hd (ht_heap t)) \<le> te_deadline e"
        using timer_heap.hp_root [OF timer_structD(1) [OF less.prems(1)] that(2)]
        by (rule not_later_deadline)
      then show ?thesis using False that less.prems(3) by (cases "ht_heap t") auto
    qed
    ultimately show ?thesis
      using less.prems by (intro exI [of _ "[]"]) (auto intro: drained_Nil)
  next
    case True
    then have ne: "ht_heap t \<noteq> []" by simp
    note pop = pop_top_ok [OF less.prems(1) ne]
    let ?u = "pop_top t\<lparr>ht_live := ht_live t - 1\<rparr>" and ?e = "hd (ht_heap t)"
    have "drain_loop now max_count t out = drain_loop now max_count ?u (out @ [token_of ?e])"
      using True pop(1)
      by (simp add: drain_loop.simps [of now max_count t out] Let_def pop_top_def token_of_def
          heap_states_update_swap)
    then have rec: "drain_loop now max_count ?u (out @ [token_of ?e]) = (t', out')"
      using less.prems(2) by simp
    have "length (ht_heap ?u) < length (ht_heap t)"
      using arg_cong [OF pop(2), of size] by simp
    moreover have "timer_struct ?u" using pop(4) by (simp add: timer_struct_def)
    ultimately obtain es where es: "out' = (out @ [token_of ?e]) @ map token_of es" "drained ?u t' es"
        "\<forall>e \<in> set es. te_deadline e \<le> now" "length out' \<le> max_count"
        "length out' = max_count \<or> (\<forall>e \<in> set (ht_heap t'). now < te_deadline e)"
      using less.hyps [OF _ _ rec] True by auto
    then show ?thesis
      using drained_Cons [OF less.prems(1) ne es(2)] True by (intro exI [of _ "?e # es"]) auto
  qed
qed

lemma drain_loop_next:
  "drain_loop now max_count t out = (t', out') \<Longrightarrow> ht_next_id t' = ht_next_id t"
proof (induction now max_count t out rule: drain_loop.induct)
  case (1 now max_count t out)
  then show ?case
    by (cases "length out < max_count \<and> ht_heap t \<noteq> [] \<and> te_deadline (hd (ht_heap t)) \<le> now")
      (auto simp: drain_loop.simps [of now max_count t out] Let_def)
qed

text \<open>
  The entries that a drain is to hand out: the earliest waiting ones that are due, one after the
  other. The code does so unless a cancelled entry is due behind a waiting one, which it takes
  for a due timer.
\<close>

definition first_of :: "timer_entry set \<Rightarrow> timer_entry" where
  "first_of S = the_elem {e \<in> S. \<forall>x \<in> S. \<not> later e x}"

primrec first_due :: "int \<Rightarrow> nat \<Rightarrow> timer_entry set \<Rightarrow> timer_entry list" where
  "first_due now 0 S = []"
| "first_due now (Suc k) S =
     (if \<exists>e \<in> S. te_deadline e \<le> now then first_of S # first_due now k (S - {first_of S}) else [])"

definition cancelled_before :: "int \<Rightarrow> timer_entry set \<Rightarrow> timer_entry set \<Rightarrow> bool" where
  "cancelled_before now C S \<longleftrightarrow> (\<forall>c \<in> C. te_deadline c \<le> now \<longrightarrow> (\<forall>e \<in> S. later e c))"

lemma later_total: "\<not> later a b \<Longrightarrow> \<not> later b a \<Longrightarrow> te_id a = te_id b"
  by (auto simp: later_def split: if_splits)

lemma first_of_eq:
  assumes "inj_on te_id S" "e \<in> S" "\<forall>x \<in> S. \<not> later e x"
  shows "first_of S = e"
proof -
  have "{e \<in> S. \<forall>x \<in> S. \<not> later e x} = {e}"
    using assms later_total by (auto simp: inj_on_def)
  then show ?thesis by (simp add: first_of_def)
qed

lemma first_of_single: "first_of {e} = e"
  by (rule first_of_eq) (simp_all add: later_def)

lemma first_due_unique:
  assumes "inj_on te_id S" "distinct es" "set es \<subseteq> S" "sorted_wrt (\<lambda>a b. \<not> later a b) es"
    "\<forall>e \<in> set es. te_deadline e \<le> now" "\<forall>a \<in> set es. \<forall>b \<in> S - set es. \<not> later a b"
    "length es \<le> k" "length es = k \<or> (\<forall>e \<in> S - set es. now < te_deadline e)"
  shows "es = first_due now k S"
  using assms
proof (induction es arbitrary: S k)
  case Nil
  then show ?case by (cases k) fastforce+
next
  case (Cons e es)
  then obtain k' where k: "k = Suc k'" by (cases k) auto
  have irr: "\<not> later e e" by (simp add: later_def)
  have f: "first_of S = e"
    using Cons.prems(1,3,4,6) irr by (intro first_of_eq) auto
  have "S - {e} - set es = S - set (e # es)" by auto
  then have "es = first_due now k' (S - {e})"
    using Cons.prems k by (intro Cons.IH) (auto intro: inj_on_subset)
  moreover have "\<exists>e \<in> S. te_deadline e \<le> now" using Cons.prems(3,5) by auto
  ultimately show ?case by (simp add: k f)
qed

lemma inj_pending: "timer_struct t \<Longrightarrow> inj_on te_id (pending t)"
  using timer_structD(2) [of t] pending_subset [of t] by (auto simp: distinct_map intro: inj_on_subset)

lemma timer_drain_ok:
  assumes st: "timer_struct t" and run: "timer_drain_expired now False max_count t = (t', out)"
    and pos: "0 < max_count"
  shows "\<exists>es. out = map token_of es \<and> distinct es \<and> set es \<subseteq> set (ht_heap t) \<and>
    sorted_wrt (\<lambda>a b. \<not> later a b) es \<and> (\<forall>e \<in> set es. te_deadline e \<le> now) \<and>
    timer_struct t' \<and> pending t' = pending t - set es \<and>
    ht_live t' = ht_live t - of_nat (length es) \<and> length out \<le> max_count \<and>
    (length out = max_count \<or> (\<forall>e \<in> pending t'. now < te_deadline e)) \<and>
    (\<forall>a \<in> set es. \<forall>b \<in> pending t'. \<not> later a b) \<and>
    (ht_heap t' = [] \<longleftrightarrow> pending t' = {}) \<and>
    ht_hint t' = (if pending t' = {} then 0 else Min (te_deadline ` pending t')) \<and>
    (es \<noteq> [] \<longrightarrow> hd es \<in> pending t) \<and> ht_next_id t' = ht_next_id t \<and> set (ht_heap t') \<subseteq> set (ht_heap t) - set es \<and>
    (cancelled_before now (set (ht_heap t) - pending t) (pending t) \<longrightarrow>
      set es \<subseteq> pending t \<and> es = first_due now max_count (pending t))"
proof -
  let ?d = "drop_cancelled_locked t"
  note d = drop_cancelled_ok [OF st]
  then have dst: "timer_struct ?d" and pd: "pending ?d = pending t" and sub: "set (ht_heap ?d) \<subseteq> set (ht_heap t)"
    by (simp_all add: cleaned_def)
  obtain u where u: "drain_loop now max_count ?d [] = (u, out)" and t': "t' = refresh_hint_locked u"
    using run pos by (auto simp: timer_drain_expired_def split: prod.splits)
  obtain es where es: "out = map token_of es" "drained ?d u es" "\<forall>e \<in> set es. te_deadline e \<le> now"
      "length out \<le> max_count"
      "length out = max_count \<or> (\<forall>e \<in> set (ht_heap u). now < te_deadline e)"
    using drain_loop_ok [OF dst u] by auto
  have ust: "timer_struct u" using es(2) by (simp add: drained_def)
  note r = refresh_hint_ok [OF ust]
  have pu: "pending u \<subseteq> set (ht_heap u)" by (rule pending_subset)
  have front: "hd (ht_heap ?d) \<in> pending t" if "e \<in> set es" for e
    using that es(2) front_is_earliest(2) [OF dst d(2)] pd by (cases "ht_heap ?d") (auto simp: drained_def)
  have root: "\<not> later (hd (ht_heap ?d)) x" if "x \<in> set (ht_heap ?d)" for x
    using timer_heap.hp_root [OF timer_structD(1) [OF dst] that] .
  have irr: "\<not> later e e" for e by (simp add: later_def)
  have head: "hd es \<in> pending t" if "es \<noteq> []"
  proof -
    let ?h = "hd (ht_heap ?d)"
    have m: "hd es \<in> set es" using that by simp
    have "?h \<in> set (ht_heap ?d)" using es(2) m by (cases "ht_heap ?d") (auto simp: drained_def)
    then have "?h \<in> set es \<or> ?h \<in> set (ht_heap u)" using es(2) by (auto simp: drained_def)
    then have "\<not> later (hd es) ?h"
      using es(2) that irr by (cases es) (auto simp: drained_def)
    moreover have "\<not> later ?h (hd es)" using root m es(2) by (auto simp: drained_def)
    ultimately have "te_id (hd es) = te_id ?h" by (rule later_total)
    then have "hd es = ?h"
      using same_id_same_entry [OF dst] m es(2) \<open>?h \<in> set (ht_heap ?d)\<close> by (auto simp: drained_def)
    then show ?thesis using front [OF m] by simp
  qed
  have prompt: "set es \<subseteq> pending t" if c: "cancelled_before now (set (ht_heap t) - pending t) (pending t)"
  proof
    fix e assume e: "e \<in> set es"
    then have h: "e \<in> set (ht_heap ?d)" using es(2) by (auto simp: drained_def)
    show "e \<in> pending t"
    proof (rule ccontr)
      assume "e \<notin> pending t"
      then have "later (hd (ht_heap ?d)) e"
        using c h sub es(3) e front [OF e] unfolding cancelled_before_def by blast
      then show False using root [OF h] by simp
    qed
  qed
  have ends: "\<forall>a \<in> set es. \<forall>b \<in> pending t'. \<not> later a b"
    using es(2) r(2) pu unfolding t' drained_def by blast
  have full: "length out = max_count \<or> (\<forall>e \<in> pending t'. now < te_deadline e)"
    using es(5) r(2) pu unfolding t' by blast
  have pt: "pending t' = pending t - set es" using es(2) r(2) pd by (simp add: t' drained_def)
  have first: "es = first_due now max_count (pending t)"
    if "cancelled_before now (set (ht_heap t) - pending t) (pending t)"
    using inj_pending [OF st] es prompt [OF that] ends full unfolding pt
    by (intro first_due_unique) (auto simp: drained_def)
  have rh: "set (ht_heap t') \<subseteq> set (ht_heap u)" "ht_next_id t' = ht_next_id u"
    using drop_cancelled_ok(1) [OF ust] by (simp_all add: t' refresh_hint_locked_def Let_def cleaned_def)
  have un: "ht_next_id u = ht_next_id ?d" using drain_loop_next [OF u] .
  show ?thesis
  proof (intro exI [of _ es] conjI impI)
    show "ht_heap t' = [] \<longleftrightarrow> pending t' = {}"
      and "ht_hint t' = (if pending t' = {} then 0 else Min (te_deadline ` pending t'))"
      using r by (simp_all add: t')
    show "set (ht_heap t') \<subseteq> set (ht_heap t) - set es" using rh(1) es(2) sub by (auto simp: drained_def)
    show "ht_next_id t' = ht_next_id t" using rh(2) un d(1) by (simp add: cleaned_def)
  qed (use es r d sub ends full pt head prompt first in \<open>auto simp: t' drained_def cleaned_def\<close>)
qed

text \<open>Where no cancelled timer is due behind a waiting one, draining keeps the accounting right.\<close>

lemma timer_drain_timer_ok:
  assumes ok: "timer_ok t" and prompt: "cancelled_before now (set (ht_heap t) - pending t) (pending t)"
    and run: "timer_drain_expired now False max_count t = (t', out)" and pos: "0 < max_count"
  shows "timer_ok t'"
proof -
  have st: "timer_struct t" and lv: "timer_live_ok t" using ok by (simp_all add: timer_ok_def)
  obtain es where es: "distinct es" "set es \<subseteq> pending t" "timer_struct t'"
      "pending t' = pending t - set es" "ht_live t' = ht_live t - of_nat (length es)"
      "ht_hint t' = (if pending t' = {} then 0 else Min (te_deadline ` pending t'))"
    using timer_drain_ok [OF st run pos] prompt by blast
  have "card (pending t) = card (pending t') + length es"
    using es(1,2,4) by (simp add: card_Diff_subset distinct_card card_mono)
      (metis card_mono distinct_card finite_pending le_add_diff_inverse2)
  then have "timer_live_ok t'" using es(5) lv by (simp add: timer_live_ok_def)
  moreover have "0 < Min (te_deadline ` pending t')" if "pending t' \<noteq> {}"
    using that pending_positive [OF ok] es(4) by simp
  then have "timer_hint_ok t'" using es(6) by (auto simp: timer_hint_ok_def)
  ultimately show ?thesis using es(3) by (simp add: timer_ok_def)
qed

subsection \<open>Runs, and the abstract timer they refine\<close>

text \<open>
  A client of the timer is a list of calls; a run gives the list of their results. The
  abstract timer is the set of waiting entries, the set of cancelled ones and the next token: no
  heap, no state table, no counter.
\<close>

datatype timer_op =
    OpInsert int u64
  | OpCancel u64
  | OpNextDeadline
  | OpDrain int bool nat
  | OpContains u64
  | OpSize
  | OpEmpty
  | OpClear

datatype timer_out =
    OutToken u64
  | OutBool bool
  | OutDeadline "int option"
  | OutExpired "(u64 \<times> u64) list"
  | OutSize u64
  | OutUnit

fun timer_step :: "heap_timer \<Rightarrow> timer_op \<Rightarrow> heap_timer \<times> timer_out" where
  "timer_step t (OpInsert d p) = (case timer_insert d p t of (t', i) \<Rightarrow> (t', OutToken i))"
| "timer_step t (OpCancel i) = (case timer_cancel i t of (t', b) \<Rightarrow> (t', OutBool b))"
| "timer_step t OpNextDeadline =
     (case timer_next_deadline t of (t', d) \<Rightarrow> (t', OutDeadline d))"
| "timer_step t (OpDrain now out_null max_count) =
     (case timer_drain_expired now out_null max_count t of (t', es) \<Rightarrow> (t', OutExpired es))"
| "timer_step t (OpContains i) = (t, OutBool (timer_contains i t))"
| "timer_step t OpSize = (t, OutSize (timer_size t))"
| "timer_step t OpEmpty = (t, OutBool (timer_empty t))"
| "timer_step t OpClear = (timer_clear t, OutUnit)"

fun timer_run :: "heap_timer \<Rightarrow> timer_op list \<Rightarrow> heap_timer \<times> timer_out list" where
  "timer_run t [] = (t, [])"
| "timer_run t (op # ops) =
     (case timer_step t op of (t, out) \<Rightarrow> (case timer_run t ops of (t, outs) \<Rightarrow> (t, out # outs)))"

type_synonym spec_timer = "timer_entry set \<times> timer_entry set \<times> u64"

fun spec_step :: "spec_timer \<Rightarrow> timer_op \<Rightarrow> spec_timer \<times> timer_out" where
  "spec_step (S, C, n) (OpInsert d p) =
     ((insert \<lparr>te_deadline = d, te_id = n, te_payload = p\<rparr> S, C, n + 1), OutToken n)"
| "spec_step (S, C, n) (OpCancel i) =
     (({e \<in> S. te_id e \<noteq> i}, C \<union> {e \<in> S. te_id e = i}, n), OutBool (\<exists>e \<in> S. te_id e = i))"
| "spec_step (S, C, n) OpNextDeadline =
     ((S, C, n), OutDeadline (if S = {} then None else Some (Min (te_deadline ` S))))"
| "spec_step (S, C, n) (OpDrain now out_null max_count) =
     (let es = (if out_null then [] else first_due now max_count S)
      in ((S - set es, C, n), OutExpired (map token_of es)))"
| "spec_step (S, C, n) (OpContains i) = ((S, C, n), OutBool (\<exists>e \<in> S. te_id e = i))"
| "spec_step (S, C, n) OpSize = ((S, C, n), OutSize (of_nat (card S)))"
| "spec_step (S, C, n) OpEmpty = ((S, C, n), OutBool (S = {}))"
| "spec_step (S, C, n) OpClear = (({}, {}, n), OutUnit)"

fun spec_run :: "spec_timer \<Rightarrow> timer_op list \<Rightarrow> spec_timer \<times> timer_out list" where
  "spec_run s [] = (s, [])"
| "spec_run s (op # ops) =
     (case spec_step s op of (s, out) \<Rightarrow> (case spec_run s ops of (s, outs) \<Rightarrow> (s, out # outs)))"

text \<open>What the caller has to keep: deadlines are positive, and \<open>drain_expired\<close> is not called when a
  timer cancelled earlier is due at that time but not before every waiting one.\<close>

fun call_allowed :: "spec_timer \<Rightarrow> timer_op \<Rightarrow> bool" where
  "call_allowed (S, C, n) (OpInsert d p) = (0 < d)"
| "call_allowed (S, C, n) (OpDrain now out_null max_count) = cancelled_before now C S"
| "call_allowed _ _ = True"

fun calls_allowed :: "spec_timer \<Rightarrow> timer_op list \<Rightarrow> bool" where
  "calls_allowed s [] = True"
| "calls_allowed s (op # ops) = (call_allowed s op \<and> calls_allowed (fst (spec_step s op)) ops)"

lemma marked_struct:
  assumes st: "timer_struct t" and w: "map_of (ht_states t) i = Some 0"
  shows "timer_struct (marked i t)"
proof -
  have "fst ` set (AList.update i 1 (ht_states t)) = fst ` set (ht_states t)"
    using w by (force simp: dom_update dest: map_of_SomeD)
  moreover have "distinct (map fst (AList.update i 1 (ht_states t)))"
    using timer_structD(3) [OF st] by (rule distinct_update)
  ultimately show ?thesis using st by (simp add: timer_struct_def marked_def)
qed

lemma next_id_frames:
  "timer_struct t \<Longrightarrow> ht_next_id (fst (timer_cancel i t)) = ht_next_id t"
  "timer_struct t \<Longrightarrow> ht_next_id (fst (timer_next_deadline t)) = ht_next_id t"
proof -
  show "ht_next_id (fst (timer_next_deadline t)) = ht_next_id t" if "timer_struct t"
    using refresh_hint_ok(4) [OF that] by (simp add: timer_next_deadline_def Let_def)
  show "ht_next_id (fst (timer_cancel i t)) = ht_next_id t" if st: "timer_struct t"
  proof (cases "map_of (ht_states t) i = Some 0")
    case False
    then show ?thesis by (auto simp: timer_cancel_def split: option.splits)
  next
    case True
    note m = marked_struct [OF st True]
    have "timer_struct (drop_cancelled_locked (marked i t))"
      "ht_next_id (drop_cancelled_locked (marked i t)) = ht_next_id t"
      using drop_cancelled_ok(1) [OF m] by (simp_all add: cleaned_def marked_def)
    moreover have "ht_next_id (marked i t) = ht_next_id t" by (simp add: marked_def)
    ultimately show ?thesis
      using True refresh_hint_ok(4) by (simp add: timer_cancel_def Let_def flip: marked_def)
  qed
qed

lemma unat_next: "unat (n :: u64) + 1 < 2 ^ 64 \<Longrightarrow> n < n + 1 \<and> unat (n + 1) = unat n + 1"
  by (simp add: word_less_nat_alt unat_word_ariths)

lemma card_pending_less: "timer_struct t \<Longrightarrow> card (pending t) < 2 ^ 64"
proof -
  assume st: "timer_struct t"
  have "te_id ` pending t \<subseteq> {..<ht_next_id t}"
    using timer_structD(5) [OF st] pending_subset [of t] by auto
  then have "unat ` te_id ` pending t \<subseteq> {..<unat (ht_next_id t)}"
    by (auto simp: word_less_nat_alt)
  then have "card (unat ` te_id ` pending t) \<le> unat (ht_next_id t)"
    using card_mono [of "{..<unat (ht_next_id t)}"] by simp
  moreover have "card (unat ` te_id ` pending t) = card (pending t)"
  proof -
    have "inj_on (\<lambda>e. unat (te_id e)) (pending t)" using inj_pending [OF st] by (auto simp: inj_on_def word_unat_eq_iff)
    then show ?thesis by (simp add: card_image image_image)
  qed
  moreover have "unat (ht_next_id t) < 2 ^ 64" using unsigned_less [of "ht_next_id t"] by simp
  ultimately show ?thesis by linarith
qed

definition timer_rel :: "heap_timer \<Rightarrow> spec_timer \<Rightarrow> bool" where
  "timer_rel t s \<longleftrightarrow> timer_ok t \<and> (case s of (S, C, n) \<Rightarrow>
     pending t = S \<and> set (ht_heap t) \<subseteq> S \<union> C \<and> ht_next_id t = n)"

lemma timer_heap_smaller:
  assumes st: "timer_struct t"
  shows "set (ht_heap (fst (timer_cancel i t))) \<subseteq> set (ht_heap t)"
    "set (ht_heap (fst (timer_next_deadline t))) \<subseteq> set (ht_heap t)"
proof -
  have refresh: "set (ht_heap (refresh_hint_locked u)) \<subseteq> set (ht_heap u)" if "timer_struct u" for u
    using drop_cancelled_ok(1) [OF that] by (simp add: refresh_hint_locked_def Let_def cleaned_def)
  then show "set (ht_heap (fst (timer_next_deadline t))) \<subseteq> set (ht_heap t)"
    using st by (simp add: timer_next_deadline_def Let_def)
  show "set (ht_heap (fst (timer_cancel i t))) \<subseteq> set (ht_heap t)"
  proof (cases "map_of (ht_states t) i = Some 0")
    case False
    then show ?thesis by (auto simp: timer_cancel_def split: option.splits)
  next
    case True
    let ?m = "marked i t"
    have d: "cleaned ?m (drop_cancelled_locked ?m)"
      by (rule drop_cancelled_ok(1) [OF marked_struct [OF st True]])
    then have "set (ht_heap (refresh_hint_locked (drop_cancelled_locked ?m))) \<subseteq> set (ht_heap ?m)"
      using refresh [of "drop_cancelled_locked ?m"] by (auto simp: cleaned_def)
    moreover have "ht_heap ?m = ht_heap t" by (simp add: marked_def)
    ultimately show ?thesis
      using True by (simp add: timer_cancel_def Let_def flip: marked_def)
  qed
qed

lemma timer_step_refines:
  assumes rel: "timer_rel t s" and allowed: "call_allowed s op" and room: "unat (ht_next_id t) + 1 < 2 ^ 64"
    and step: "timer_step t op = (t', out)"
  shows "\<exists>s'. spec_step s op = (s', out) \<and> timer_rel t' s' \<and> unat (ht_next_id t') \<le> unat (ht_next_id t) + 1"
proof -
  obtain S C n where s: "s = (S, C, n)" by (cases s) auto
  have ok: "timer_ok t" and S: "pending t = S" and C: "set (ht_heap t) \<subseteq> S \<union> C" and n: "ht_next_id t = n"
    using rel by (simp_all add: timer_rel_def s)
  then have st: "timer_struct t" and lv: "timer_live_ok t" by (simp_all add: timer_ok_def)
  show ?thesis
  proof (cases op)
    case (OpInsert d p)
    obtain i where i: "timer_insert d p t = (t', i)" "out = OutToken i"
      using step OpInsert by (auto split: prod.splits)
    let ?e = "\<lparr>te_deadline = d, te_id = i, te_payload = p\<rparr>"
    have f: "i = n" "ht_next_id t' = n + 1"
      and "ht_heap t' = push_heap later (ht_heap t @ [?e]) (length (ht_heap t @ [?e]))"
      using i n by (auto simp: timer_insert_def Let_def)
    then have h: "set (ht_heap t') = insert ?e (set (ht_heap t))"
      using timer_heap.set_push [of "ht_heap t @ [?e]"] by simp
    show ?thesis
      using timer_insert_ok [OF ok _ _ i(1)] unat_next [OF room] allowed OpInsert i(2) f h S C n
      by (auto simp: s timer_rel_def)
  next
    case (OpCancel i)
    then obtain b where b: "timer_cancel i t = (t', b)" "out = OutBool b"
      using step by (auto split: prod.splits)
    show ?thesis
      using timer_cancel_ok [OF ok b(1)] next_id_frames(1) [OF st, of i] timer_heap_smaller(1) [OF st, of i]
        b OpCancel S C n by (auto simp: s timer_rel_def)
  next
    case OpNextDeadline
    then obtain d where d: "timer_next_deadline t = (t', d)" "out = OutDeadline d"
      using step by (auto split: prod.splits)
    show ?thesis
      using timer_next_deadline_ok [OF ok d(1)] next_id_frames(2) [OF st] timer_heap_smaller(2) [OF st]
        d OpNextDeadline S C n by (auto simp: s timer_rel_def)
  next
    case (OpDrain now out_null max_count)
    then obtain es where d: "timer_drain_expired now out_null max_count t = (t', es)" "out = OutExpired es"
      using step by (auto split: prod.splits)
    show ?thesis
    proof (cases "out_null \<or> max_count = 0")
      case True
      then have "t' = t" "es = []" using d by (auto simp: timer_drain_expired_def)
      then show ?thesis using True OpDrain d(2) rel by (auto simp: s)
    next
      case False
      then have run: "timer_drain_expired now False max_count t = (t', es)" and pos: "0 < max_count"
        using d by auto
      have "cancelled_before now C S" using allowed OpDrain by (simp add: s)
      then have prompt: "cancelled_before now (set (ht_heap t) - pending t) (pending t)"
        using C S unfolding cancelled_before_def by blast
      note ok' = timer_drain_timer_ok [OF ok prompt run pos]
      obtain fs where fs: "es = map token_of fs" "pending t' = pending t - set fs"
        "fs = first_due now max_count (pending t)" "ht_next_id t' = ht_next_id t"
        "set (ht_heap t') \<subseteq> set (ht_heap t) - set fs"
        using timer_drain_ok [OF st run pos] prompt by blast
      then show ?thesis using ok' fs d(2) False OpDrain S C n by (auto simp: s timer_rel_def Let_def)
    qed
  next
    case (OpContains i)
    then show ?thesis
      using step rel S waiting_iff_pending [OF st, of i] by (auto simp: timer_contains_def s)
  next
    case OpSize
    then show ?thesis using step rel S lv by (auto simp: timer_size_def timer_live_ok_def s)
  next
    case OpEmpty
    then show ?thesis
      using step rel S lv card_pending_less [OF st]
      by (auto simp: timer_empty_def timer_live_ok_def s of_nat_u64_eq_0)
  next
    case OpClear
    then show ?thesis using step timer_clear_ok [of t] n by (auto simp: timer_clear_def s timer_rel_def)
  qed
qed

lemma timer_run_refines:
  "timer_rel t s \<Longrightarrow> calls_allowed s ops \<Longrightarrow> unat (ht_next_id t) + length ops < 2 ^ 64 \<Longrightarrow>
   snd (timer_run t ops) = snd (spec_run s ops) \<and> timer_rel (fst (timer_run t ops)) (fst (spec_run s ops))"
proof (induction ops arbitrary: t s)
  case (Cons op ops)
  obtain t' out where step: "timer_step t op = (t', out)" by fastforce
  have "call_allowed s op" "unat (ht_next_id t) + 1 < 2 ^ 64" using Cons.prems by auto
  from timer_step_refines [OF Cons.prems(1) this step] obtain s' where s': "spec_step s op = (s', out)"
    "timer_rel t' s'" "unat (ht_next_id t') \<le> unat (ht_next_id t) + 1" by blast
  have "calls_allowed s' ops" "unat (ht_next_id t') + length ops < 2 ^ 64" using Cons.prems s' by auto
  from Cons.IH [OF s'(2) this] show ?case using step s'(1) by (simp add: case_prod_beta)
qed simp

text \<open>
  C2 (timer_refines_spec): any sequence of calls (\<open>insert\<close>, \<open>cancel\<close>, \<open>next_deadline\<close>, \<open>drain_expired\<close>,
  \<open>contains\<close>, \<open>size\<close>, \<open>empty\<close>, \<open>clear\<close>) with positive deadlines, in which no timer cancelled earlier
  is due at a \<open>drain_expired\<close> unless it comes before every waiting one, answers exactly what the
  abstract set of waiting entries answers: lazy deletion, compaction, the state table and the
  wrapping counter are not observable. The lock-free hint is 0 when nothing waits and never later than
  the earliest deadline otherwise. (A drain outside that condition is the defect of
  \<open>drain_returns_cancelled\<close>.)
\<close>

theorem timer_refines_spec:
  assumes "calls_allowed ({}, {}, 1) ops" and "length ops < 2 ^ 64 - 1"
    and "spec_run ({}, {}, 1) ops = ((S, C, n), outs)"
  shows "\<exists>t. timer_run heap_timer_init ops = (t, outs) \<and> pending t = S \<and>
    (if S = {} then ht_hint t = 0 else 0 < ht_hint t \<and> ht_hint t \<le> Min (te_deadline ` S))"
proof -
  have rel: "timer_rel heap_timer_init ({}, {}, 1)" by (simp add: timer_rel_def) (simp add: heap_timer_init_def)
  have "unat (ht_next_id heap_timer_init) + length ops < 2 ^ 64"
    using assms(2) by (simp add: heap_timer_init_def)
  from timer_run_refines [OF rel assms(1) this] obtain t where
    t: "timer_run heap_timer_init ops = (t, outs)" "timer_rel t (S, C, n)"
    using assms(3) by (cases "timer_run heap_timer_init ops") auto
  then have "timer_hint_ok t" "pending t = S" by (simp_all add: timer_rel_def timer_ok_def)
  moreover have "finite S" using calculation(2) finite_pending [of t] by simp
  ultimately show ?thesis using t(1)
    by (intro exI [of _ t]) (auto simp: timer_hint_ok_def)
qed

theorem timer_refines_spec_witness:
  "\<exists>t. timer_run heap_timer_init [OpInsert 20 1, OpInsert 10 2, OpCancel 2, OpDrain 15 False 4, OpNextDeadline,
      OpDrain 25 False 4, OpEmpty] =
    (t, [OutToken 1, OutToken 2, OutBool True, OutExpired [], OutDeadline (Some 20), OutExpired [(1, 1)], OutBool True]) \<and>
    pending t = {} \<and> ht_hint t = 0"
proof -
  let ?ops = "[OpInsert 20 1, OpInsert 10 2, OpCancel 2, OpDrain 15 False 4, OpNextDeadline, OpDrain 25 False 4, OpEmpty]"
  let ?a = "\<lparr>te_deadline = 20, te_id = 1, te_payload = 1\<rparr>" and ?b = "\<lparr>te_deadline = 10, te_id = 2, te_payload = 2\<rparr>"
  have f: "first_due 15 4 {?a} = []" "first_due 25 4 {?a} = [?a]"
    by (simp_all add: numeral_eq_Suc first_of_single)
  have u: "{e. (e = ?b \<or> e = ?a) \<and> te_id e \<noteq> 2} = {?a}" "{e. (e = ?b \<or> e = ?a) \<and> te_id e = 2} = {?b}" by auto
  have a: "calls_allowed ({}, {}, 1) ?ops"
    by (simp add: f u cancelled_before_def later_def)
  have r: "spec_run ({}, {}, 1) ?ops = (({}, {?b}, 3),
      [OutToken 1, OutToken 2, OutBool True, OutExpired [], OutDeadline (Some 20), OutExpired [(1, 1)], OutBool True])"
    by (simp add: f u token_of_def)
  from timer_refines_spec [OF a _ r] show ?thesis by simp
qed

text \<open>
  C13 (timer_drain_expired_correct): \<open>drain_expired\<close> with a place to write to keeps the structural
  invariant, writes at most \<open>max_count\<close> entries, all due and in order of deadline and token, none later
  than a timer that still waits and the first of them a waiting one; it removes them from the
  waiting set, takes their number from the live count, leaves no due waiting entry behind unless
  the output is full, and refreshes the hint to the earliest remaining deadline (0 when nothing
  waits). When no cancelled entry of the heap is due behind a waiting one, the entries are exactly
  the first \<open>max_count\<close> due waiting ones, so cancelled timers are never returned.
\<close>

theorem timer_drain_expired_correct:
  assumes "timer_struct t" "0 < max_count"
    and "timer_drain_expired now False max_count t = (t', out)"
  shows "\<exists>es. out = map token_of es \<and> distinct es \<and> set es \<subseteq> set (ht_heap t) \<and>
    sorted_wrt (\<lambda>a b. \<not> later a b) es \<and> (\<forall>e \<in> set es. te_deadline e \<le> now) \<and>
    timer_struct t' \<and> pending t' = pending t - set es \<and> length out \<le> max_count \<and>
    (length out = max_count \<or> (\<forall>e \<in> pending t'. now < te_deadline e)) \<and>
    ht_hint t' = (if pending t' = {} then 0 else Min (te_deadline ` pending t')) \<and>
    ht_live t' = ht_live t - of_nat (length es) \<and>
    (\<forall>a \<in> set es. \<forall>b \<in> pending t'. \<not> later a b) \<and> (es \<noteq> [] \<longrightarrow> hd es \<in> pending t) \<and>
    (cancelled_before now (set (ht_heap t) - pending t) (pending t) \<longrightarrow> es = first_due now max_count (pending t))"
  using timer_drain_ok [OF assms(1,3,2)] by blast

definition timer_with_two :: heap_timer where
  "timer_with_two = fst (timer_insert 20 8 (fst (timer_insert 10 7 heap_timer_init)))"

lemma timer_with_two_ok: "timer_ok timer_with_two"
proof -
  let ?t1 = "fst (timer_insert 10 7 heap_timer_init)"
  have p1: "timer_insert 10 7 heap_timer_init = (?t1, 1)"
    by (simp add: timer_insert_def heap_timer_init_def Let_def)
  have t1: "timer_ok ?t1"
    by (rule timer_insert_ok(1) [OF timer_init_ok(1) _ _ p1]) (simp_all add: heap_timer_init_def)
  have p2: "timer_insert 20 8 ?t1 = (timer_with_two, 2)"
    by (simp add: timer_with_two_def timer_insert_def heap_timer_init_def Let_def)
  show ?thesis
    by (rule timer_insert_ok(1) [OF t1 _ _ p2])
      (simp_all add: timer_insert_def heap_timer_init_def Let_def)
qed

theorem timer_drain_expired_correct_witness:
  "snd (timer_drain_expired 15 False 4 timer_with_two) = [(1, 7)] \<and>
   (\<exists>es. snd (timer_drain_expired 15 False 4 timer_with_two) = map token_of es \<and>
      (\<forall>e \<in> set es. te_deadline e \<le> 15))"
proof -
  have st: "timer_struct timer_with_two" using timer_with_two_ok by (simp add: timer_ok_def)
  have "snd (timer_drain_expired 15 False 4 timer_with_two) = [(1, 7)]" by code_simp
  moreover have "\<exists>es. snd (timer_drain_expired 15 False 4 timer_with_two) = map token_of es \<and>
      (\<forall>e \<in> set es. te_deadline e \<le> 15)"
    using timer_drain_expired_correct [OF st, of 4 15 "fst (timer_drain_expired 15 False 4 timer_with_two)"
        "snd (timer_drain_expired 15 False 4 timer_with_two)"] by auto
  ultimately show ?thesis by blast
qed

text \<open>
  Fact (drain_returns_cancelled): \<open>drain_expired\<close> drops cancelled entries only before its loop, so a
  cancelled timer that comes to the top inside the loop is returned as expired, and
  \<open>live_\<close> is decremented for it a second time: after two inserts, a successful \<open>cancel\<close> of
  the second timer and a drain, both timers are in the output and \<open>size()\<close> is
  \<open>2^64 - 1\<close>.
\<close>

theorem drain_returns_cancelled:
  "let (t1, cancelled) = timer_cancel 2 timer_with_two;
       (t2, out) = timer_drain_expired 30 False 8 t1
   in cancelled \<and> \<not> timer_contains 2 t1 \<and> timer_size t1 = 1 \<and>
      out = [(1, 7), (2, 8)] \<and> timer_size t2 = 18446744073709551615"
  by code_simp

end
