(* ===== verification/LruCache.thy ===== *)
theory LruCache
  imports Prelude
begin

section \<open>lru_cache\<close>

text \<open>
  \<open>include/NeForce/core/container/lru_cache.hpp\<close>. The doubly linked list is a list of nodes,
  head first, each with the address at which it was allocated; the hash map \<open>map_\<close> leads from
  a key to the address of its node, so an iterator that survives a \<open>splice\<close> is an address
  that stays the same while the node moves. \<open>clock::now()\<close> is an argument of the operations
  that read the clock; time points and durations are counts of nanoseconds.
\<close>

record ('k, 'v) lru_node =
  ln_addr :: nat
  ln_key :: 'k
  ln_value :: 'v

record ('k, 'v) lru_cache =
  lru_capacity :: nat
  lru_list :: "('k, 'v) lru_node list"
  lru_map :: "('k \<times> nat) list"
  lru_times :: "('k \<times> int) list"
  lru_next :: nat

datatype cache_error = Capacity_must_be_positive

definition lru_new :: "nat \<Rightarrow> cache_error + ('k, 'v) lru_cache" where
  "lru_new capacity =
     (if capacity = 0 then Inl Capacity_must_be_positive
      else Inr \<lparr>lru_capacity = capacity, lru_list = [], lru_map = [], lru_times = [], lru_next = 0\<rparr>)"

text \<open>\<open>list::splice(begin, list, it)\<close> and the access through an iterator.\<close>

definition node_at :: "nat \<Rightarrow> ('k, 'v) lru_node list \<Rightarrow> ('k, 'v) lru_node option" where
  "node_at a l = List.find (\<lambda>n. ln_addr n = a) l"

definition unlink :: "nat \<Rightarrow> ('k, 'v) lru_node list \<Rightarrow> ('k, 'v) lru_node list" where
  "unlink a l = filter (\<lambda>n. ln_addr n \<noteq> a) l"

definition splice_front :: "nat \<Rightarrow> ('k, 'v) lru_node list \<Rightarrow> ('k, 'v) lru_node list" where
  "splice_front a l = (case node_at a l of None \<Rightarrow> l | Some n \<Rightarrow> n # unlink a l)"

definition store_value :: "nat \<Rightarrow> 'v \<Rightarrow> ('k, 'v) lru_node list \<Rightarrow> ('k, 'v) lru_node list" where
  "store_value a v l = map (\<lambda>n. if ln_addr n = a then n\<lparr>ln_value := v\<rparr> else n) l"

definition lru_evict_last :: "('k, 'v) lru_cache \<Rightarrow> ('k, 'v) lru_cache" where
  "lru_evict_last c =
     (let n = last (lru_list c)
      in c\<lparr>lru_map := AList.delete (ln_key n) (lru_map c),
            lru_times := AList.delete (ln_key n) (lru_times c),
            lru_list := butlast (lru_list c)\<rparr>)"

definition lru_push_front :: "'k \<Rightarrow> 'v \<Rightarrow> ('k, 'v) lru_cache \<Rightarrow> ('k, 'v) lru_cache" where
  "lru_push_front k v c =
     c\<lparr>lru_list := \<lparr>ln_addr = lru_next c, ln_key = k, ln_value = v\<rparr> # lru_list c,
        lru_map := AList.update k (lru_next c) (lru_map c),
        lru_next := lru_next c + 1\<rparr>"

definition lru_touch :: "int \<Rightarrow> 'k \<Rightarrow> ('k, 'v) lru_cache \<Rightarrow> ('k, 'v) lru_cache" where
  "lru_touch now k c = c\<lparr>lru_times := AList.update k now (lru_times c)\<rparr>"

definition lru_put :: "int \<Rightarrow> 'k \<Rightarrow> 'v \<Rightarrow> ('k, 'v) lru_cache \<Rightarrow> ('k, 'v) lru_cache" where
  "lru_put now k v c =
     (let c = (case map_of (lru_map c) k of
                 Some a \<Rightarrow> c\<lparr>lru_list := splice_front a (store_value a v (lru_list c))\<rparr>
               | None \<Rightarrow>
                   lru_push_front k v
                     (if length (lru_list c) \<ge> lru_capacity c then lru_evict_last c else c))
      in lru_touch now k c)"

definition lru_get :: "int \<Rightarrow> 'k \<Rightarrow> ('k, 'v) lru_cache \<Rightarrow> ('k, 'v) lru_cache \<times> 'v option" where
  "lru_get now k c =
     (case map_of (lru_map c) k of
        None \<Rightarrow> (c, None)
      | Some a \<Rightarrow>
          (let c = lru_touch now k (c\<lparr>lru_list := splice_front a (lru_list c)\<rparr>)
           in (c, map_option ln_value (node_at a (lru_list c)))))"

definition lru_peek :: "'k \<Rightarrow> ('k, 'v) lru_cache \<Rightarrow> 'v option" where
  "lru_peek k c =
     (case map_of (lru_map c) k of
        None \<Rightarrow> None
      | Some a \<Rightarrow> map_option ln_value (node_at a (lru_list c)))"

definition lru_erase :: "'k \<Rightarrow> ('k, 'v) lru_cache \<Rightarrow> ('k, 'v) lru_cache \<times> bool" where
  "lru_erase k c =
     (case map_of (lru_map c) k of
        None \<Rightarrow> (c, False)
      | Some a \<Rightarrow>
          (c\<lparr>lru_list := unlink a (lru_list c), lru_map := AList.delete k (lru_map c)\<rparr>, True))"

text \<open>\<open>remove_expired\<close>: the iteration over the access times.\<close>

fun lru_expire_from :: "int \<Rightarrow> int \<Rightarrow> ('k \<times> int) list \<Rightarrow> ('k, 'v) lru_cache \<Rightarrow> ('k, 'v) lru_cache" where
  "lru_expire_from now max_age [] c = c"
| "lru_expire_from now max_age ((k, accessed) # rest) c =
     (if now - accessed > max_age
      then (let c = fst (lru_erase k c)
            in lru_expire_from now max_age rest (c\<lparr>lru_times := AList.delete k (lru_times c)\<rparr>))
      else lru_expire_from now max_age rest c)"

definition lru_remove_expired :: "int \<Rightarrow> int \<Rightarrow> ('k, 'v) lru_cache \<Rightarrow> ('k, 'v) lru_cache" where
  "lru_remove_expired now max_age c = lru_expire_from now max_age (lru_times c) c"

definition lru_clear :: "('k, 'v) lru_cache \<Rightarrow> ('k, 'v) lru_cache" where
  "lru_clear c = c\<lparr>lru_list := [], lru_map := []\<rparr>"

definition lru_size :: "('k, 'v) lru_cache \<Rightarrow> nat" where
  "lru_size c = length (lru_list c)"

definition lru_contains :: "'k \<Rightarrow> ('k, 'v) lru_cache \<Rightarrow> bool" where
  "lru_contains k c \<longleftrightarrow> map_of (lru_map c) k \<noteq> None"

text \<open>\<open>remove_if\<close>: the iteration over the list, with the nodes that stay in front of it.\<close>

fun lru_remove_if_from ::
  "('k \<times> 'v \<Rightarrow> bool) \<Rightarrow> ('k, 'v) lru_node list \<Rightarrow> ('k, 'v) lru_cache \<Rightarrow> ('k, 'v) lru_cache" where
  "lru_remove_if_from p [] c = c"
| "lru_remove_if_from p (n # rest) c =
     (if p (ln_key n, ln_value n)
      then lru_remove_if_from p rest
             (c\<lparr>lru_map := AList.delete (ln_key n) (lru_map c),
                lru_list := unlink (ln_addr n) (lru_list c)\<rparr>)
      else lru_remove_if_from p rest c)"

definition lru_remove_if :: "('k \<times> 'v \<Rightarrow> bool) \<Rightarrow> ('k, 'v) lru_cache \<Rightarrow> ('k, 'v) lru_cache" where
  "lru_remove_if p c = lru_remove_if_from p (lru_list c) c"

subsection \<open>The invariant and the abstract recency list\<close>

definition index_of :: "('k, 'v) lru_node list \<Rightarrow> ('k \<times> nat) list" where
  "index_of l = map (\<lambda>n. (ln_key n, ln_addr n)) l"

definition lru_inv :: "('k, 'v) lru_cache \<Rightarrow> bool" where
  "lru_inv c \<longleftrightarrow>
     0 < lru_capacity c \<and> length (lru_list c) \<le> lru_capacity c \<and>
     distinct (map ln_addr (lru_list c)) \<and> distinct (map ln_key (lru_list c)) \<and>
     (\<forall>n \<in> set (lru_list c). ln_addr n < lru_next c) \<and>
     map_of (lru_map c) = map_of (index_of (lru_list c)) \<and>
     distinct (map fst (lru_times c)) \<and>
     ln_key ` set (lru_list c) \<subseteq> fst ` set (lru_times c)"

definition entry_of :: "('k, 'v) lru_node \<Rightarrow> 'k \<times> 'v" where
  "entry_of n = (ln_key n, ln_value n)"

definition lru_entries :: "('k, 'v) lru_cache \<Rightarrow> ('k \<times> 'v) list" where
  "lru_entries c = map entry_of (lru_list c)"

text \<open>The abstract cache: key-value pairs, the most recently used one first.\<close>

definition recency_without :: "'k \<Rightarrow> ('k \<times> 'v) list \<Rightarrow> ('k \<times> 'v) list" where
  "recency_without k es = filter (\<lambda>e. fst e \<noteq> k) es"

definition recency_put :: "nat \<Rightarrow> 'k \<Rightarrow> 'v \<Rightarrow> ('k \<times> 'v) list \<Rightarrow> ('k \<times> 'v) list" where
  "recency_put capacity k v es =
     (k, v) # (if k \<in> fst ` set es then recency_without k es
               else if length es \<ge> capacity then butlast es else es)"

definition recency_get :: "'k \<Rightarrow> ('k \<times> 'v) list \<Rightarrow> ('k \<times> 'v) list" where
  "recency_get k es = (case map_of es k of None \<Rightarrow> es | Some v \<Rightarrow> (k, v) # recency_without k es)"

subsection \<open>Nodes, keys and addresses\<close>

definition without_key :: "'k \<Rightarrow> ('k, 'v) lru_node list \<Rightarrow> ('k, 'v) lru_node list" where
  "without_key k l = filter (\<lambda>n. ln_key n \<noteq> k) l"

lemma map_of_index_without [simp]:
  "map_of (index_of (without_key k l)) = (map_of (index_of l))(k := None)"
  by (induction l) (auto simp: index_of_def without_key_def fun_eq_iff)

lemma entries_without_key: "map entry_of (without_key k l) = recency_without k (map entry_of l)"
  by (induction l) (auto simp: without_key_def recency_without_def entry_of_def)

lemma fst_index_of [simp]: "map fst (index_of l) = map ln_key l"
  by (simp add: index_of_def)

lemma fst_entries [simp]: "map fst (map entry_of l) = map ln_key l"
  by (simp add: entry_of_def)

lemma keys_of_entries: "fst ` set (map entry_of l) = ln_key ` set l"
  by (metis fst_entries set_map)

lemma map_of_index_Some:
  "distinct (map ln_key l) \<Longrightarrow>
   map_of (index_of l) k = Some a \<longleftrightarrow> (\<exists>n \<in> set l. ln_key n = k \<and> ln_addr n = a)"
  by (subst map_of_eq_Some_iff) (auto simp: index_of_def comp_def)

lemma map_of_index_None: "map_of (index_of l) k = None \<longleftrightarrow> k \<notin> ln_key ` set l"
  by (metis map_of_eq_None_iff fst_index_of set_map)

lemma map_of_entries:
  "distinct (map ln_key l) \<Longrightarrow> n \<in> set l \<Longrightarrow> map_of (map entry_of l) (ln_key n) = Some (ln_value n)"
  by (subst map_of_eq_Some_iff) (auto simp: entry_of_def comp_def)

lemma map_of_index_cong:
  assumes "set l = set l'" "distinct (map ln_key l)" "distinct (map ln_key l')"
  shows "map_of (index_of l) = map_of (index_of l')"
  using assms map_of_inject_set [of "index_of l" "index_of l'"] by (simp add: index_of_def comp_def)

text \<open>The node of a key: reached through its address, and the only one with that key.\<close>

lemma node_lookup:
  assumes "distinct (map ln_addr l)" "n \<in> set l"
  shows "node_at (ln_addr n) l = Some n"
  using assms by (induction l) (auto simp: node_at_def)

lemma unlink_is_without_key:
  assumes "distinct (map ln_addr l)" "distinct (map ln_key l)" "n \<in> set l"
  shows "unlink (ln_addr n) l = without_key (ln_key n) l"
proof -
  have "ln_addr m = ln_addr n \<longleftrightarrow> ln_key m = ln_key n" if "m \<in> set l" for m
    using assms that by (auto simp: distinct_map inj_on_def)
  then show ?thesis by (auto simp: unlink_def without_key_def intro: filter_cong)
qed

lemma splice_front_eq:
  assumes "distinct (map ln_addr l)" "distinct (map ln_key l)" "n \<in> set l"
  shows "splice_front (ln_addr n) l = n # without_key (ln_key n) l"
  using node_lookup [OF assms(1,3)] unlink_is_without_key [OF assms] by (simp add: splice_front_def)

lemma set_without_key: "set (without_key k l) = {n \<in> set l. ln_key n \<noteq> k}"
  by (auto simp: without_key_def)

lemma distinct_without_key:
  "distinct (map f l) \<Longrightarrow> distinct (map f (without_key k l))"
  by (auto simp: without_key_def distinct_map_filter)

lemma length_without_key:
  assumes "distinct (map ln_key l)" "n \<in> set l"
  shows "length (without_key (ln_key n) l) = length l - 1"
  using assms
proof (induction l)
  case (Cons m l)
  then show ?case
  proof (cases "n = m")
    case True
    then have "ln_key x \<noteq> ln_key n" if "x \<in> set l" for x
      using Cons.prems(1) imageI [OF that, of ln_key] by auto
    then have "without_key (ln_key n) l = l" by (simp add: without_key_def)
    with True show ?thesis by (simp add: without_key_def)
  next
    case False
    then have nl: "n \<in> set l" using Cons.prems(2) by simp
    have "ln_key m \<notin> ln_key ` set l" using Cons.prems(1) by simp
    then have "ln_key n \<noteq> ln_key m" using nl by (metis imageI)
    moreover have "length (without_key (ln_key n) l) = length l - 1" "l \<noteq> []"
      using Cons nl by auto
    ultimately show ?thesis by (cases l) (auto simp: without_key_def)
  qed
qed simp

lemma butlast_is_without_key:
  "distinct (map ln_key l) \<Longrightarrow> l \<noteq> [] \<Longrightarrow> butlast l = without_key (ln_key (last l)) l"
proof (induction l)
  case (Cons m l)
  show ?case
  proof (cases "l = []")
    case False
    then have "ln_key m \<noteq> ln_key (last l)" using Cons.prems(1) last_in_set [OF False] by force
    with False Cons show ?thesis by (simp add: without_key_def)
  qed (simp add: without_key_def)
qed simp

lemma store_value_simps [simp]:
  "map ln_addr (store_value a v l) = map ln_addr l"
  "map ln_key (store_value a v l) = map ln_key l"
  "index_of (store_value a v l) = index_of l"
  "length (store_value a v l) = length l"
  "without_key k (store_value a v l) = store_value a v (without_key k l)"
  by (induction l) (auto simp: store_value_def index_of_def without_key_def)

lemma store_value_other: "a \<notin> ln_addr ` set l \<Longrightarrow> store_value a v l = l"
  by (induction l) (auto simp: store_value_def)

lemma lru_invD:
  assumes "lru_inv c"
  shows "0 < lru_capacity c" "length (lru_list c) \<le> lru_capacity c"
    "distinct (map ln_addr (lru_list c))" "distinct (map ln_key (lru_list c))"
    "n \<in> set (lru_list c) \<Longrightarrow> ln_addr n < lru_next c"
    "map_of (lru_map c) = map_of (index_of (lru_list c))"
    "distinct (map fst (lru_times c))" "ln_key ` set (lru_list c) \<subseteq> fst ` set (lru_times c)"
  using assms by (auto simp: lru_inv_def)

lemma lru_lookup_Some:
  assumes "lru_inv c" "map_of (lru_map c) k = Some a"
  obtains n where "n \<in> set (lru_list c)" "ln_key n = k" "ln_addr n = a"
  using assms lru_invD(4,6) [OF assms(1)] map_of_index_Some by metis

lemma lru_lookup_None:
  "lru_inv c \<Longrightarrow> map_of (lru_map c) k = None \<longleftrightarrow> k \<notin> fst ` set (lru_entries c)"
  using lru_invD(6) [of c] map_of_index_None [of "lru_list c" k]
  by (simp add: lru_entries_def keys_of_entries del: set_map)

subsection \<open>Each operation keeps the invariant and acts on the recency list\<close>

lemma lru_unlink_inv:
  assumes inv: "lru_inv c" and n: "n \<in> set (lru_list c)" "ln_key n = k"
  shows "lru_inv (c\<lparr>lru_list := unlink (ln_addr n) (lru_list c), lru_map := AList.delete k (lru_map c)\<rparr>)"
    and "map entry_of (unlink (ln_addr n) (lru_list c)) = recency_without k (lru_entries c)"
proof -
  note d = lru_invD [OF inv]
  have u: "unlink (ln_addr n) (lru_list c) = without_key k (lru_list c)"
    using unlink_is_without_key [OF d(3,4) n(1)] n(2) by simp
  have "length (without_key k (lru_list c)) \<le> lru_capacity c"
    using d(2) by (simp add: without_key_def le_trans [OF length_filter_le])
  then show "lru_inv (c\<lparr>lru_list := unlink (ln_addr n) (lru_list c), lru_map := AList.delete k (lru_map c)\<rparr>)"
    using d by (auto simp: lru_inv_def u distinct_without_key set_without_key)
  show "map entry_of (unlink (ln_addr n) (lru_list c)) = recency_without k (lru_entries c)"
    by (simp add: u entries_without_key lru_entries_def)
qed

lemma lru_erase_ok:
  assumes inv: "lru_inv c" and run: "lru_erase k c = (c', b)"
  shows "lru_inv c'" "lru_entries c' = recency_without k (lru_entries c)"
    "b \<longleftrightarrow> k \<in> fst ` set (lru_entries c)" "lru_capacity c' = lru_capacity c"
    "lru_times c' = lru_times c"
proof -
  have none: "map_of (lru_map c) k = None \<longleftrightarrow> k \<notin> fst ` set (lru_entries c)"
    by (rule lru_lookup_None [OF inv])
  have "lru_inv c' \<and> lru_entries c' = recency_without k (lru_entries c) \<and>
      (b \<longleftrightarrow> k \<in> fst ` set (lru_entries c)) \<and> lru_capacity c' = lru_capacity c \<and>
      lru_times c' = lru_times c"
  proof (cases "map_of (lru_map c) k")
    case None
    then have "recency_without k (lru_entries c) = lru_entries c"
      using none by (auto simp: recency_without_def intro!: filter_True)
    then show ?thesis using None none run inv by (auto simp: lru_erase_def)
  next
    case (Some a)
    obtain n where n: "n \<in> set (lru_list c)" "ln_key n = k" "ln_addr n = a"
      by (rule lru_lookup_Some [OF inv Some])
    have eq: "c' = c\<lparr>lru_list := unlink a (lru_list c), lru_map := AList.delete k (lru_map c)\<rparr>" "b"
      using run Some by (simp_all add: lru_erase_def)
    show ?thesis
      using lru_unlink_inv [OF inv n(1,2)] n(3) none Some eq by (simp add: lru_entries_def)
  qed
  then show "lru_inv c'" "lru_entries c' = recency_without k (lru_entries c)"
    "b \<longleftrightarrow> k \<in> fst ` set (lru_entries c)" "lru_capacity c' = lru_capacity c"
    "lru_times c' = lru_times c" by blast+
qed

lemma lru_touch_ok:
  assumes "0 < lru_capacity c" "length (lru_list c) \<le> lru_capacity c"
    "distinct (map ln_addr (lru_list c))" "distinct (map ln_key (lru_list c))"
    "\<forall>n \<in> set (lru_list c). ln_addr n < lru_next c"
    "map_of (lru_map c) = map_of (index_of (lru_list c))"
    "distinct (map fst (lru_times c))" "ln_key ` set (lru_list c) \<subseteq> insert k (fst ` set (lru_times c))"
  shows "lru_inv (lru_touch now k c)"
  using assms by (auto simp: lru_inv_def lru_touch_def distinct_update dom_update)

lemma lru_touch_frame [simp]:
  "lru_list (lru_touch now k c) = lru_list c" "lru_capacity (lru_touch now k c) = lru_capacity c"
  "lru_map (lru_touch now k c) = lru_map c" "lru_entries (lru_touch now k c) = lru_entries c"
  by (simp_all add: lru_touch_def lru_entries_def)

lemma splice_touch_inv:
  assumes inv: "lru_inv c" and n: "n \<in> set (lru_list c)"
  shows "lru_inv (lru_touch now (ln_key n) (c\<lparr>lru_list := n # without_key (ln_key n) (lru_list c)\<rparr>))"
proof (rule lru_touch_ok)
  note d = lru_invD [OF inv]
  let ?l = "n # without_key (ln_key n) (lru_list c)"
  have addr: "ln_addr n \<notin> ln_addr ` set (without_key (ln_key n) (lru_list c))"
    using d(3,4) n by (auto simp: set_without_key distinct_map inj_on_def)
  have pos: "0 < length (lru_list c)" using n by (cases "lru_list c") auto
  have set: "set ?l = set (lru_list c)"
    using n d(4) by (auto simp: set_without_key distinct_map inj_on_def)
  show "length (lru_list (c\<lparr>lru_list := ?l\<rparr>)) \<le> lru_capacity (c\<lparr>lru_list := ?l\<rparr>)"
    using length_without_key [OF d(4) n] d(2) pos by simp
  show "distinct (map ln_addr (lru_list (c\<lparr>lru_list := ?l\<rparr>)))"
    using addr d(3) by (simp add: distinct_without_key)
  show keys: "distinct (map ln_key (lru_list (c\<lparr>lru_list := ?l\<rparr>)))"
    using d(4) by (auto simp: distinct_without_key set_without_key)
  show "map_of (lru_map (c\<lparr>lru_list := ?l\<rparr>)) = map_of (index_of (lru_list (c\<lparr>lru_list := ?l\<rparr>)))"
    using map_of_index_cong [OF set _ d(4)] keys d(6) by simp
  show "ln_key ` set (lru_list (c\<lparr>lru_list := ?l\<rparr>)) \<subseteq>
      insert (ln_key n) (fst ` set (lru_times (c\<lparr>lru_list := ?l\<rparr>)))"
    using d(8) set by auto
qed (use lru_invD [OF inv] n in \<open>auto simp: set_without_key\<close>)

lemma lru_get_ok:
  assumes inv: "lru_inv c" and run: "lru_get now k c = (c', r)"
  shows "lru_inv c'" "lru_entries c' = recency_get k (lru_entries c)"
    "r = map_of (lru_entries c) k" "lru_capacity c' = lru_capacity c"
proof -
  have "lru_inv c' \<and> lru_entries c' = recency_get k (lru_entries c) \<and>
      r = map_of (lru_entries c) k \<and> lru_capacity c' = lru_capacity c"
  proof (cases "map_of (lru_map c) k")
    case None
    then have "map_of (lru_entries c) k = None"
      using lru_lookup_None [OF inv] by (simp add: map_of_eq_None_iff)
    then show ?thesis using None run inv by (simp add: lru_get_def recency_get_def)
  next
    case (Some a)
    note d = lru_invD [OF inv]
    obtain n where n: "n \<in> set (lru_list c)" "ln_key n = k" "ln_addr n = a"
      by (rule lru_lookup_Some [OF inv Some])
    have sp: "splice_front a (lru_list c) = n # without_key k (lru_list c)"
      using splice_front_eq [OF d(3,4) n(1)] n by simp
    have eq: "c' = lru_touch now k (c\<lparr>lru_list := n # without_key k (lru_list c)\<rparr>)"
      "r = Some (ln_value n)"
      using run Some n(3) by (simp_all add: lru_get_def sp Let_def node_at_def)
    have "map_of (lru_entries c) k = Some (ln_value n)"
      using map_of_entries [OF d(4) n(1)] n(2) by (simp add: lru_entries_def)
    moreover have "lru_entries c' = (k, ln_value n) # recency_without k (lru_entries c)"
      using n(2) by (simp add: eq lru_entries_def entries_without_key entry_of_def)
    ultimately show ?thesis
      using splice_touch_inv [OF inv n(1), of now] n(2) eq by (simp add: recency_get_def)
  qed
  then show "lru_inv c'" "lru_entries c' = recency_get k (lru_entries c)"
    "r = map_of (lru_entries c) k" "lru_capacity c' = lru_capacity c" by blast+
qed

lemma lru_peek_ok:
  assumes inv: "lru_inv c"
  shows "lru_peek k c = map_of (lru_entries c) k"
proof (cases "map_of (lru_map c) k")
  case None
  then have "map_of (lru_entries c) k = None"
    using lru_lookup_None [OF inv] by (simp add: map_of_eq_None_iff)
  then show ?thesis using None by (simp add: lru_peek_def)
next
  case (Some a)
  note d = lru_invD [OF inv]
  obtain n where n: "n \<in> set (lru_list c)" "ln_key n = k" "ln_addr n = a"
    by (rule lru_lookup_Some [OF inv Some])
  then show ?thesis
    using Some node_lookup [OF d(3) n(1)] map_of_entries [OF d(4) n(1)]
    by (simp add: lru_peek_def lru_entries_def)
qed

lemma store_value_inv:
  assumes "lru_inv c"
  shows "lru_inv (c\<lparr>lru_list := store_value a v (lru_list c)\<rparr>)"
proof -
  have "ln_key ` set (store_value a v (lru_list c)) = ln_key ` set (lru_list c)"
    by (metis set_map store_value_simps(2))
  moreover have "\<forall>n \<in> set (store_value a v (lru_list c)). ln_addr n < lru_next c"
    using lru_invD(5) [OF assms] by (auto simp: store_value_def)
  ultimately show ?thesis using lru_invD [OF assms] by (simp add: lru_inv_def)
qed

lemma lru_evict_ok:
  assumes inv: "lru_inv c" and ne: "lru_list c \<noteq> []"
  shows "lru_inv (lru_evict_last c)" "lru_entries (lru_evict_last c) = butlast (lru_entries c)"
    "lru_capacity (lru_evict_last c) = lru_capacity c"
    "length (lru_list (lru_evict_last c)) = length (lru_list c) - 1"
proof -
  note d = lru_invD [OF inv]
  let ?n = "last (lru_list c)"
  have n: "?n \<in> set (lru_list c)" using ne by simp
  have u: "butlast (lru_list c) = without_key (ln_key ?n) (lru_list c)"
    by (rule butlast_is_without_key [OF d(4) ne])
  have "lru_inv (c\<lparr>lru_list := butlast (lru_list c), lru_map := AList.delete (ln_key ?n) (lru_map c)\<rparr>)"
    using lru_unlink_inv(1) [OF inv n refl] unlink_is_without_key [OF d(3,4) n] u by simp
  moreover have "ln_key ?n \<notin> ln_key ` set (butlast (lru_list c))"
    by (auto simp: u set_without_key)
  ultimately show "lru_inv (lru_evict_last c)"
    by (auto simp: lru_inv_def lru_evict_last_def Let_def delete_keys distinct_removeAll
        simp flip: set_map)
  show "lru_entries (lru_evict_last c) = butlast (lru_entries c)"
    by (simp add: lru_entries_def lru_evict_last_def Let_def map_butlast)
  show "lru_capacity (lru_evict_last c) = lru_capacity c"
    "length (lru_list (lru_evict_last c)) = length (lru_list c) - 1"
    by (simp_all add: lru_evict_last_def Let_def)
qed

lemma lru_push_ok:
  assumes inv: "lru_inv c" and room: "length (lru_list c) < lru_capacity c"
    and new: "k \<notin> fst ` set (lru_entries c)"
  shows "lru_inv (lru_touch now k (lru_push_front k v c))"
proof (rule lru_touch_ok)
  note d = lru_invD [OF inv]
  have key: "k \<notin> ln_key ` set (lru_list c)"
    using new by (simp add: lru_entries_def keys_of_entries del: set_map)
  have addr: "lru_next c \<notin> ln_addr ` set (lru_list c)" using d(5) by force
  show "distinct (map ln_addr (lru_list (lru_push_front k v c)))"
    using addr d(3) by (simp add: lru_push_front_def)
  show "distinct (map ln_key (lru_list (lru_push_front k v c)))"
    using key d(4) by (simp add: lru_push_front_def)
  show "\<forall>n \<in> set (lru_list (lru_push_front k v c)). ln_addr n < lru_next (lru_push_front k v c)"
    using d(5) by (auto simp: lru_push_front_def less_Suc_eq)
  show "map_of (lru_map (lru_push_front k v c)) = map_of (index_of (lru_list (lru_push_front k v c)))"
    using d(6) by (simp add: lru_push_front_def index_of_def)
  show "ln_key ` set (lru_list (lru_push_front k v c)) \<subseteq>
      insert k (fst ` set (lru_times (lru_push_front k v c)))"
    using d(8) by (auto simp: lru_push_front_def)
qed (use lru_invD [OF inv] room in \<open>auto simp: lru_push_front_def\<close>)

lemma lru_put_ok:
  assumes inv: "lru_inv c"
  shows "lru_inv (lru_put now k v c)"
    "lru_entries (lru_put now k v c) = recency_put (lru_capacity c) k v (lru_entries c)"
    "lru_capacity (lru_put now k v c) = lru_capacity c"
proof -
  note d = lru_invD [OF inv]
  have "lru_inv (lru_put now k v c) \<and>
    lru_entries (lru_put now k v c) = recency_put (lru_capacity c) k v (lru_entries c) \<and>
    lru_capacity (lru_put now k v c) = lru_capacity c"
  proof (cases "map_of (lru_map c) k")
    case (Some a)
    obtain n where n: "n \<in> set (lru_list c)" "ln_key n = k" "ln_addr n = a"
      by (rule lru_lookup_Some [OF inv Some])
    let ?n = "n\<lparr>ln_value := v\<rparr>" and ?c = "c\<lparr>lru_list := store_value a v (lru_list c)\<rparr>"
    have m: "?n \<in> set (lru_list ?c)" using n by (auto simp: store_value_def intro!: image_eqI)
    have inv': "lru_inv ?c" by (rule store_value_inv [OF inv])
    have "a \<notin> ln_addr ` set (without_key k (lru_list c))"
      using n d(3) by (auto simp: set_without_key distinct_map inj_on_def)
    then have w: "without_key k (lru_list ?c) = without_key k (lru_list c)"
      by (simp add: store_value_other)
    have "splice_front a (store_value a v (lru_list c)) = ?n # without_key k (lru_list c)"
      using splice_front_eq [OF lru_invD(3,4) [OF inv'] m] n w inv' by simp
    then have eq: "lru_put now k v c = lru_touch now k (?c\<lparr>lru_list := ?n # without_key k (lru_list ?c)\<rparr>)"
      using Some w by (simp add: lru_put_def)
    have "k \<in> fst ` set (lru_entries c)" using lru_lookup_None [OF inv, of k] Some by auto
    then have "lru_entries (lru_put now k v c) = recency_put (lru_capacity c) k v (lru_entries c)"
      using n(2) w unfolding eq
      by (simp add: recency_put_def lru_entries_def entries_without_key entry_of_def)
    then show ?thesis using splice_touch_inv [OF inv' m, of now] n(2) unfolding eq by simp
  next
    case None
    let ?c = "if length (lru_list c) \<ge> lru_capacity c then lru_evict_last c else c"
    have new: "k \<notin> fst ` set (lru_entries c)" using lru_lookup_None [OF inv] None by simp
    have full: "lru_list c \<noteq> []" if "length (lru_list c) \<ge> lru_capacity c" using that d(1) by auto
    have inv': "lru_inv ?c" using inv lru_evict_ok(1) [OF inv full] by auto
    have ent: "lru_entries ?c =
        (if length (lru_list c) \<ge> lru_capacity c then butlast (lru_entries c) else lru_entries c)"
      using lru_evict_ok(2) [OF inv full] by auto
    have cap: "lru_capacity ?c = lru_capacity c" using lru_evict_ok(3) [OF inv full] by auto
    have room: "length (lru_list ?c) < lru_capacity ?c"
      using lru_evict_ok(3,4) [OF inv full] d(1,2) by auto
    have "k \<notin> fst ` set (lru_entries ?c)" using new ent by (auto dest: in_set_butlastD split: if_splits)
    note push = lru_push_ok [OF inv' room this, of now v]
    have eq: "lru_put now k v c = lru_touch now k (lru_push_front k v ?c)"
      using None by (simp add: lru_put_def)
    have "lru_entries (lru_push_front k v ?c) = (k, v) # lru_entries ?c"
      by (simp add: lru_entries_def lru_push_front_def entry_of_def)
    then have "lru_entries (lru_put now k v c) = recency_put (lru_capacity c) k v (lru_entries c)"
      unfolding eq using new ent by (simp add: recency_put_def lru_entries_def)
    moreover have "lru_capacity (lru_put now k v c) = lru_capacity c"
      unfolding eq using cap by (simp add: lru_push_front_def)
    ultimately show ?thesis using push unfolding eq by simp
  qed
  then show "lru_inv (lru_put now k v c)"
    "lru_entries (lru_put now k v c) = recency_put (lru_capacity c) k v (lru_entries c)"
    "lru_capacity (lru_put now k v c) = lru_capacity c" by blast+
qed

lemma lru_new_ok:
  assumes "lru_new capacity = Inr c"
  shows "lru_inv c" "lru_entries c = []" "lru_capacity c = capacity"
  using assms by (auto simp: lru_new_def lru_inv_def lru_entries_def index_of_def split: if_splits)

lemma lru_clear_ok: "lru_inv c \<Longrightarrow> lru_inv (lru_clear c)" "lru_entries (lru_clear c) = []"
  by (auto simp: lru_inv_def lru_clear_def lru_entries_def index_of_def)

text \<open>\<open>remove_if\<close> and \<open>remove_expired\<close> filter the entries.\<close>

lemma lru_unlink_step:
  assumes inv: "lru_inv c" and n: "n \<in> set (lru_list c)"
  shows "c\<lparr>lru_map := AList.delete (ln_key n) (lru_map c), lru_list := unlink (ln_addr n) (lru_list c)\<rparr> =
    fst (lru_erase (ln_key n) c)"
proof -
  note d = lru_invD [OF inv]
  have "map_of (lru_map c) (ln_key n) = Some (ln_addr n)"
    using map_of_index_Some [OF d(4)] n d(6) by auto
  then show ?thesis by (cases c) (simp add: lru_erase_def)
qed

lemma recency_without_filter:
  assumes "distinct (map ln_key l)" "n \<in> set l"
  shows "recency_without (ln_key n) (map entry_of l) = filter (\<lambda>e. e \<noteq> entry_of n) (map entry_of l)"
  unfolding recency_without_def
  using assms by (intro filter_cong) (auto simp: entry_of_def distinct_map inj_on_def)

lemma lru_remove_if_from_ok:
  assumes "lru_inv c" "set l \<subseteq> set (lru_list c)" "distinct l"
  shows "lru_inv (lru_remove_if_from p l c) \<and>
    lru_entries (lru_remove_if_from p l c) =
      filter (\<lambda>e. e \<in> entry_of ` set l \<longrightarrow> \<not> p e) (lru_entries c) \<and>
    lru_capacity (lru_remove_if_from p l c) = lru_capacity c \<and>
    lru_times (lru_remove_if_from p l c) = lru_times c"
  using assms
proof (induction l arbitrary: c)
  case (Cons n l)
  show ?case
  proof (cases "p (entry_of n)")
    case False
    then have *: "lru_remove_if_from p (n # l) c = lru_remove_if_from p l c" by (simp add: entry_of_def)
    have "filter (\<lambda>e. e \<in> entry_of ` set (n # l) \<longrightarrow> \<not> p e) (lru_entries c) =
        filter (\<lambda>e. e \<in> entry_of ` set l \<longrightarrow> \<not> p e) (lru_entries c)"
      using False by (intro filter_cong) auto
    with Cons show ?thesis unfolding * by simp
  next
    case True
    note d = lru_invD [OF Cons.prems(1)]
    have n: "n \<in> set (lru_list c)" using Cons.prems by simp
    let ?c = "fst (lru_erase (ln_key n) c)"
    obtain b where "lru_erase (ln_key n) c = (?c, b)" by (metis prod.collapse)
    note e = lru_erase_ok [OF Cons.prems(1) this]
    have *: "lru_remove_if_from p (n # l) c = lru_remove_if_from p l ?c"
      using True lru_unlink_step [OF Cons.prems(1) n] by (simp add: entry_of_def)
    have ent: "lru_entries ?c = filter (\<lambda>e. e \<noteq> entry_of n) (lru_entries c)"
      using e(2) recency_without_filter [OF d(4) n] by (simp add: lru_entries_def)
    have lst: "lru_list ?c = unlink (ln_addr n) (lru_list c)"
      using lru_unlink_step [OF Cons.prems(1) n] by (metis lru_cache.select_convs(2) lru_cache.surjective lru_cache.update_convs(2))
    have "set l \<subseteq> set (lru_list ?c)"
    proof
      fix m assume "m \<in> set l"
      then have "m \<in> set (lru_list c)" "m \<noteq> n" using Cons.prems by auto
      moreover from this have "ln_addr m \<noteq> ln_addr n"
        using d(3) n by (auto simp: distinct_map inj_on_def)
      ultimately show "m \<in> set (lru_list ?c)" unfolding lst by (simp add: unlink_def)
    qed
    with Cons.IH [OF e(1)] Cons.prems(3) e(4,5) have IH: "lru_inv (lru_remove_if_from p l ?c) \<and>
      lru_entries (lru_remove_if_from p l ?c) =
        filter (\<lambda>e. e \<in> entry_of ` set l \<longrightarrow> \<not> p e) (lru_entries ?c) \<and>
      lru_capacity (lru_remove_if_from p l ?c) = lru_capacity c \<and>
      lru_times (lru_remove_if_from p l ?c) = lru_times c" by auto
    have "filter (\<lambda>e. e \<in> entry_of ` set l \<longrightarrow> \<not> p e) (lru_entries ?c) =
        filter (\<lambda>e. e \<in> entry_of ` set (n # l) \<longrightarrow> \<not> p e) (lru_entries c)"
      unfolding ent filter_filter using True by (intro filter_cong) auto
    with IH show ?thesis unfolding * by simp
  qed
qed simp

lemma lru_remove_if_ok:
  assumes inv: "lru_inv c"
  shows "lru_inv (lru_remove_if p c)"
    "lru_entries (lru_remove_if p c) = filter (\<lambda>e. \<not> p e) (lru_entries c)"
    "lru_capacity (lru_remove_if p c) = lru_capacity c"
    "lru_times (lru_remove_if p c) = lru_times c"
proof -
  have "distinct (lru_list c)" using lru_invD(3) [OF inv] by (simp add: distinct_map)
  note * = lru_remove_if_from_ok [OF inv subset_refl this, of p]
  show "lru_inv (lru_remove_if p c)" "lru_capacity (lru_remove_if p c) = lru_capacity c"
    "lru_times (lru_remove_if p c) = lru_times c"
    using * by (simp_all add: lru_remove_if_def)
  show "lru_entries (lru_remove_if p c) = filter (\<lambda>e. \<not> p e) (lru_entries c)"
    using * unfolding lru_remove_if_def
    by (simp add: lru_entries_def) (rule filter_cong, auto)
qed

lemma lru_forget_time:
  assumes "lru_inv c" "k \<notin> fst ` set (lru_entries c)"
  shows "lru_inv (c\<lparr>lru_times := AList.delete k (lru_times c)\<rparr>)"
proof -
  have "k \<notin> ln_key ` set (lru_list c)"
    using assms(2) by (simp add: lru_entries_def keys_of_entries del: set_map)
  then show ?thesis
    using lru_invD [OF assms(1)] delete_keys [of k "lru_times c"]
    by (auto simp: lru_inv_def delete_keys distinct_removeAll simp flip: set_map)
qed

lemma lru_expire_from_ok:
  assumes "lru_inv c"
  shows "lru_inv (lru_expire_from now max_age ts c) \<and>
    lru_entries (lru_expire_from now max_age ts c) =
      filter (\<lambda>e. \<forall>(k, accessed) \<in> set ts. now - accessed > max_age \<longrightarrow> fst e \<noteq> k) (lru_entries c) \<and>
    lru_capacity (lru_expire_from now max_age ts c) = lru_capacity c"
  using assms
proof (induction ts arbitrary: c)
  case (Cons t ts)
  obtain k a where t: "t = (k, a)" by (cases t)
  show ?case
  proof (cases "now - a > max_age")
    case False
    with Cons t show ?thesis by simp
  next
    case True
    obtain c1 b where er: "lru_erase k c = (c1, b)" by (cases "lru_erase k c")
    note e = lru_erase_ok [OF Cons.prems er]
    let ?c = "c1\<lparr>lru_times := AList.delete k (lru_times c1)\<rparr>"
    have "k \<notin> fst ` set (lru_entries c1)" using e(2) by (auto simp: recency_without_def)
    then have inv: "lru_inv ?c" by (rule lru_forget_time [OF e(1)])
    have ent: "lru_entries ?c = recency_without k (lru_entries c)"
      using e(2) by (simp add: lru_entries_def)
    have *: "lru_expire_from now max_age ((k, a) # ts) c = lru_expire_from now max_age ts ?c"
      using True er by simp
    show ?thesis
      using Cons.IH [OF inv] e(4) True unfolding t * ent
      by (auto simp: recency_without_def intro!: filter_cong)
  qed
qed simp

lemma lru_remove_expired_ok:
  assumes inv: "lru_inv c"
  shows "lru_inv (lru_remove_expired now max_age c)"
    "lru_entries (lru_remove_expired now max_age c) =
      filter (\<lambda>e. now - the (map_of (lru_times c) (fst e)) \<le> max_age) (lru_entries c)"
    "lru_capacity (lru_remove_expired now max_age c) = lru_capacity c"
proof -
  note * = lru_expire_from_ok [OF inv, of now max_age "lru_times c"]
  show "lru_inv (lru_remove_expired now max_age c)"
    "lru_capacity (lru_remove_expired now max_age c) = lru_capacity c"
    using * by (simp_all add: lru_remove_expired_def)
  have "(\<forall>(k, accessed) \<in> set (lru_times c). now - accessed > max_age \<longrightarrow> fst e \<noteq> k) \<longleftrightarrow>
      now - the (map_of (lru_times c) (fst e)) \<le> max_age" if "e \<in> set (lru_entries c)" for e
  proof -
    note d = lru_invD [OF inv]
    have "fst e \<in> fst ` set (lru_times c)"
      using that d(8) by (auto simp: lru_entries_def entry_of_def)
    then obtain a where a: "(fst e, a) \<in> set (lru_times c)" by auto
    then have m: "map_of (lru_times c) (fst e) = Some a" using d(7) by simp
    have "b = a" if "(fst e, b) \<in> set (lru_times c)" for b using that m d(7) by simp
    with a have "(\<forall>(k, accessed) \<in> set (lru_times c). now - accessed > max_age \<longrightarrow> fst e \<noteq> k) \<longleftrightarrow>
        \<not> now - a > max_age" by blast
    with m show ?thesis by (simp add: not_less)
  qed
  then show "lru_entries (lru_remove_expired now max_age c) =
      filter (\<lambda>e. now - the (map_of (lru_times c) (fst e)) \<le> max_age) (lru_entries c)"
    using * unfolding lru_remove_expired_def by (simp cong: filter_cong)
qed

subsection \<open>The contract of a recency cache\<close>

text \<open>
  What a cache built over \<open>lru_cache\<close> may rely on: the entries, most recent first, the bound on
  their number and the effect of each operation on them. The lemmas turn the list view into
  the view of a partial map.
\<close>

locale recency_cache =
  fixes inv :: "'c \<Rightarrow> bool"
    and entries :: "'c \<Rightarrow> ('k \<times> 'v) list"
    and capacity :: "'c \<Rightarrow> nat"
    and put :: "int \<Rightarrow> 'k \<Rightarrow> 'v \<Rightarrow> 'c \<Rightarrow> 'c"
    and get :: "int \<Rightarrow> 'k \<Rightarrow> 'c \<Rightarrow> 'c \<times> 'v option"
    and peek :: "'k \<Rightarrow> 'c \<Rightarrow> 'v option"
    and erase :: "'k \<Rightarrow> 'c \<Rightarrow> 'c \<times> bool"
    and remove_if :: "('k \<times> 'v \<Rightarrow> bool) \<Rightarrow> 'c \<Rightarrow> 'c"
  assumes distinct_keys: "inv c \<Longrightarrow> distinct (map fst (entries c))"
    and bounded: "inv c \<Longrightarrow> length (entries c) \<le> capacity c"
    and put_inv: "inv c \<Longrightarrow> inv (put now k v c)"
    and put_entries: "inv c \<Longrightarrow> entries (put now k v c) = recency_put (capacity c) k v (entries c)"
    and put_capacity: "inv c \<Longrightarrow> capacity (put now k v c) = capacity c"
    and get_inv: "inv c \<Longrightarrow> inv (fst (get now k c))"
    and get_entries: "inv c \<Longrightarrow> entries (fst (get now k c)) = recency_get k (entries c)"
    and get_result: "inv c \<Longrightarrow> snd (get now k c) = map_of (entries c) k"
    and get_capacity: "inv c \<Longrightarrow> capacity (fst (get now k c)) = capacity c"
    and peek_result: "inv c \<Longrightarrow> peek k c = map_of (entries c) k"
    and erase_inv: "inv c \<Longrightarrow> inv (fst (erase k c))"
    and erase_entries: "inv c \<Longrightarrow> entries (fst (erase k c)) = recency_without k (entries c)"
    and erase_result: "inv c \<Longrightarrow> snd (erase k c) \<longleftrightarrow> map_of (entries c) k \<noteq> None"
    and erase_capacity: "inv c \<Longrightarrow> capacity (fst (erase k c)) = capacity c"
    and remove_if_inv: "inv c \<Longrightarrow> inv (remove_if p c)"
    and remove_if_entries: "inv c \<Longrightarrow> entries (remove_if p c) = filter (\<lambda>e. \<not> p e) (entries c)"
    and remove_if_capacity: "inv c \<Longrightarrow> capacity (remove_if p c) = capacity c"
begin

lemma lookup_without: "map_of (recency_without k es) = (map_of es)(k := None)"
  by (induction es) (auto simp: recency_without_def fun_eq_iff)

lemma lookup_get:
  assumes "inv c"
  shows "map_of (entries (fst (get now k c))) = map_of (entries c)"
  using get_entries [OF assms, of now k]
  by (auto simp: recency_get_def lookup_without fun_eq_iff split: option.splits)

lemma lookup_erase:
  "inv c \<Longrightarrow> map_of (entries (fst (erase k c))) = (map_of (entries c))(k := None)"
  by (simp add: erase_entries lookup_without)

lemma lookup_put_same: "inv c \<Longrightarrow> map_of (entries (put now k v c)) k = Some v"
  by (simp add: put_entries recency_put_def)

lemma lookup_put_present:
  assumes "inv c" "map_of (entries c) k \<noteq> None"
  shows "map_of (entries (put now k v c)) = (map_of (entries c))(k \<mapsto> v)"
  using assms by (auto simp: put_entries recency_put_def lookup_without map_of_eq_None_iff)

lemma lookup_put_room:
  assumes "inv c" "length (entries c) < capacity c"
  shows "map_of (entries (put now k v c)) = (map_of (entries c))(k \<mapsto> v)"
  using assms by (auto simp: put_entries recency_put_def lookup_without)

lemma map_of_butlast:
  "distinct (map fst es) \<Longrightarrow> map_of (butlast es) k = (if es \<noteq> [] \<and> k = fst (last es) then None else map_of es k)"
proof (induction es)
  case (Cons e es)
  show ?case
  proof (cases "es = []")
    case False
    then have "fst e \<noteq> fst (last es)" using Cons.prems last_in_set [OF False] by force
    with False Cons show ?thesis by auto
  qed simp
qed simp

lemma lookup_put_full:
  assumes "inv c" "map_of (entries c) k = None" "length (entries c) = capacity c" "entries c \<noteq> []"
  shows "map_of (entries (put now k v c)) = (map_of (entries c))(fst (last (entries c)) := None, k \<mapsto> v)"
proof -
  have "entries (put now k v c) = (k, v) # butlast (entries c)"
    using assms by (auto simp: put_entries recency_put_def map_of_eq_None_iff)
  then show ?thesis
    using map_of_butlast [OF distinct_keys [OF assms(1)]] assms(4) by (auto simp: fun_eq_iff)
qed

text \<open>A put never changes what another key is bound to, though it may drop the binding.\<close>

lemma lookup_put_other:
  assumes "inv c" "k' \<noteq> k" "map_of (entries (put now k v c)) k' = Some w"
  shows "map_of (entries c) k' = Some w"
proof -
  have "map_of (butlast (entries c)) k' = Some w \<Longrightarrow> map_of (entries c) k' = Some w"
    using map_of_butlast [OF distinct_keys [OF assms(1)]] by (auto split: if_splits)
  then show ?thesis
    using assms by (auto simp: put_entries recency_put_def lookup_without split: if_splits)
qed

lemma map_of_filter:
  "distinct (map fst es) \<Longrightarrow>
   map_of (filter q es) k = (case map_of es k of None \<Rightarrow> None | Some v \<Rightarrow> if q (k, v) then Some v else None)"
proof (induction es)
  case (Cons e es)
  then show ?case
    by (cases e) (auto simp: map_of_eq_None_iff split: option.splits)
qed simp

lemma lookup_remove_if:
  assumes "inv c"
  shows "map_of (entries (remove_if p c)) k =
    (case map_of (entries c) k of None \<Rightarrow> None | Some v \<Rightarrow> if p (k, v) then None else Some v)"
  using assms map_of_filter [OF distinct_keys [OF assms], of "\<lambda>e. \<not> p e" k]
  by (auto simp: remove_if_entries split: option.splits)

end

interpretation lru: recency_cache lru_inv lru_entries lru_capacity lru_put lru_get lru_peek
  lru_erase lru_remove_if
proof unfold_locales
  fix c :: "('k, 'v) lru_cache" and now k v p
  assume inv: "lru_inv c"
  note d = lru_invD [OF inv]
  show "distinct (map fst (lru_entries c))" "length (lru_entries c) \<le> lru_capacity c"
    using d(2,4) by (simp_all only: lru_entries_def fst_entries length_map)
  show "lru_inv (lru_put now k v c)"
    "lru_entries (lru_put now k v c) = recency_put (lru_capacity c) k v (lru_entries c)"
    "lru_capacity (lru_put now k v c) = lru_capacity c"
    by (rule lru_put_ok [OF inv])+
  show "lru_inv (fst (lru_get now k c))" "lru_entries (fst (lru_get now k c)) = recency_get k (lru_entries c)"
    "snd (lru_get now k c) = map_of (lru_entries c) k" "lru_capacity (fst (lru_get now k c)) = lru_capacity c"
    by (rule lru_get_ok [OF inv prod.collapse [symmetric]])+
  show "lru_peek k c = map_of (lru_entries c) k" by (rule lru_peek_ok [OF inv])
  show "lru_inv (fst (lru_erase k c))" "lru_entries (fst (lru_erase k c)) = recency_without k (lru_entries c)"
    "lru_capacity (fst (lru_erase k c)) = lru_capacity c"
    by (rule lru_erase_ok [OF inv prod.collapse [symmetric]])+
  show "snd (lru_erase k c) \<longleftrightarrow> map_of (lru_entries c) k \<noteq> None"
    using lru_erase_ok(3) [OF inv prod.collapse [symmetric]] by (simp add: map_of_eq_None_iff)
  show "lru_inv (lru_remove_if p c)" "lru_entries (lru_remove_if p c) = filter (\<lambda>e. \<not> p e) (lru_entries c)"
    "lru_capacity (lru_remove_if p c) = lru_capacity c"
    by (rule lru_remove_if_ok [OF inv])+
qed

subsection \<open>Sequences of calls\<close>

datatype ('k, 'v) lru_op =
  Lru_put int 'k 'v
| Lru_get int 'k
| Lru_peek 'k
| Lru_contains 'k
| Lru_erase 'k
| Lru_remove_if "'k \<times> 'v \<Rightarrow> bool"
| Lru_clear

datatype 'v lru_answer = Lru_done | Lru_value "'v option" | Lru_bool bool

fun lru_step :: "('k, 'v) lru_op \<Rightarrow> ('k, 'v) lru_cache \<Rightarrow> ('k, 'v) lru_cache \<times> 'v lru_answer" where
  "lru_step (Lru_put now k v) c = (lru_put now k v c, Lru_done)"
| "lru_step (Lru_get now k) c = (let (c, r) = lru_get now k c in (c, Lru_value r))"
| "lru_step (Lru_peek k) c = (c, Lru_value (lru_peek k c))"
| "lru_step (Lru_contains k) c = (c, Lru_bool (lru_contains k c))"
| "lru_step (Lru_erase k) c = (let (c, b) = lru_erase k c in (c, Lru_bool b))"
| "lru_step (Lru_remove_if p) c = (lru_remove_if p c, Lru_done)"
| "lru_step Lru_clear c = (lru_clear c, Lru_done)"

text \<open>The same calls on the abstract cache, a list of pairs with a capacity.\<close>

fun recency_step ::
  "nat \<Rightarrow> ('k, 'v) lru_op \<Rightarrow> ('k \<times> 'v) list \<Rightarrow> ('k \<times> 'v) list \<times> 'v lru_answer" where
  "recency_step cap (Lru_put now k v) es = (recency_put cap k v es, Lru_done)"
| "recency_step cap (Lru_get now k) es = (recency_get k es, Lru_value (map_of es k))"
| "recency_step cap (Lru_peek k) es = (es, Lru_value (map_of es k))"
| "recency_step cap (Lru_contains k) es = (es, Lru_bool (map_of es k \<noteq> None))"
| "recency_step cap (Lru_erase k) es = (recency_without k es, Lru_bool (map_of es k \<noteq> None))"
| "recency_step cap (Lru_remove_if p) es = (filter (\<lambda>e. \<not> p e) es, Lru_done)"
| "recency_step cap Lru_clear es = ([], Lru_done)"

lemma lru_step_simulates:
  assumes "lru_inv c" "lru_step x c = (c', r)"
  shows "lru_inv c' \<and> lru_capacity c' = lru_capacity c \<and>
    recency_step (lru_capacity c) x (lru_entries c) = (lru_entries c', r)"
proof (cases x)
  case (Lru_contains k)
  then show ?thesis
    using assms lru_lookup_None [OF assms(1), of k] map_of_eq_None_iff [of "lru_entries c" k]
    by (auto simp: lru_contains_def simp del: map_of_eq_None_iff)
next
  case Lru_clear
  then have "c' = lru_clear c" "r = Lru_done" using assms by simp_all
  moreover have "lru_capacity (lru_clear c) = lru_capacity c" by (simp add: lru_clear_def)
  ultimately show ?thesis using Lru_clear lru_clear_ok(1) [OF assms(1)] lru_clear_ok(2) [of c] by simp
next
  case (Lru_get now k)
  then show ?thesis
    using assms lru.get_inv [of c now k] lru.get_entries [of c now k] lru.get_result [of c now k]
      lru.get_capacity [of c now k] by (auto split: prod.splits)
next
  case (Lru_erase k)
  then show ?thesis
    using assms lru.erase_inv [of c k] lru.erase_entries [of c k] lru.erase_result [of c k]
      lru.erase_capacity [of c k] by (auto split: prod.splits)
qed (use assms in \<open>auto simp: lru.put_inv lru.put_entries lru.put_capacity lru.peek_result
  lru.remove_if_inv lru.remove_if_entries lru.remove_if_capacity\<close>)

lemma lru_run_simulates:
  assumes "lru_inv c" "run_ops lru_step xs c = (c', rs)"
  shows "lru_inv c' \<and> lru_capacity c' = lru_capacity c \<and>
    run_ops (recency_step (lru_capacity c)) xs (lru_entries c) = (lru_entries c', rs)"
  using assms
proof (induction xs arbitrary: c rs)
  case (Cons x xs)
  obtain c1 r1 where s1: "lru_step x c = (c1, r1)" by (cases "lru_step x c")
  obtain c2 rs2 where s2: "run_ops lru_step xs c1 = (c2, rs2)" by (cases "run_ops lru_step xs c1")
  note a = lru_step_simulates [OF Cons.prems(1) s1]
  then show ?case using Cons.IH [of c1 rs2] s1 s2 Cons.prems(2) by auto
qed simp

text \<open>C3 (lru_refines_recency): a cache built with a positive capacity, put through any sequence
  of calls, returns the answers of the abstract recency list and holds its entries: a put or a
  hit moves the key to the front, a put beyond the capacity drops the least recently used
  entry; the list, the map and the access times stay consistent and the number of entries
  never exceeds the capacity.\<close>

theorem lru_refines_recency:
  assumes "lru_new capacity = Inr c" "run_ops lru_step xs c = (c', rs)"
  shows "run_ops (recency_step capacity) xs [] = (lru_entries c', rs) \<and>
    lru_inv c' \<and> lru_size c' \<le> capacity"
proof -
  note n = lru_new_ok [OF assms(1)]
  have *: "lru_inv c'" "lru_capacity c' = capacity" "run_ops (recency_step capacity) xs [] = (lru_entries c', rs)"
    using lru_run_simulates [OF n(1) assms(2)] n by simp_all
  then show ?thesis using lru.bounded [OF *(1)] by (simp add: lru_size_def lru_entries_def)
qed

theorem lru_refines_recency_witness:
  "let xs = [Lru_put 1 (1::nat) ''a'', Lru_put 2 2 ''b'', Lru_get 3 1, Lru_put 4 3 ''c'', Lru_get 5 2];
       c = projr (lru_new 2); (c', rs) = run_ops lru_step xs c
   in lru_entries c' = [(3, ''c''), (1, ''a'')] \<and>
      rs = [Lru_done, Lru_done, Lru_value (Some ''a''), Lru_done, Lru_value None] \<and>
      lru_inv c' \<and> lru_size c' \<le> 2"
proof -
  let ?xs = "[Lru_put 1 (1::nat) ''a'', Lru_put 2 2 ''b'', Lru_get 3 1, Lru_put 4 3 ''c'', Lru_get 5 2]"
  let ?c = "projr (lru_new 2) :: (nat, string) lru_cache"
  have c: "lru_new 2 = Inr ?c" by (simp add: lru_new_def)
  obtain c' rs where r: "run_ops lru_step ?xs ?c = (c', rs)" by (cases "run_ops lru_step ?xs ?c")
  have s: "run_ops (recency_step 2) ?xs [] = ([(3, ''c''), (1, ''a'')],
      [Lru_done, Lru_done, Lru_value (Some ''a''), Lru_done, Lru_value None])" by code_simp
  show ?thesis using lru_refines_recency [OF c r] r s by (simp add: Let_def)
qed

text \<open>C18 (lru_remove_expired_correct): \<open>remove_expired\<close> keeps exactly the entries whose last
  access is at most \<open>max_age\<close> ago, in their order, and forgets no access time of a kept entry.\<close>

theorem lru_remove_expired_correct:
  assumes "lru_inv c"
  shows "lru_inv (lru_remove_expired now max_age c) \<and>
    lru_entries (lru_remove_expired now max_age c) =
      filter (\<lambda>e. now - the (map_of (lru_times c) (fst e)) \<le> max_age) (lru_entries c)"
  using lru_remove_expired_ok [OF assms] by simp

theorem lru_remove_expired_correct_witness:
  "lru_entries (lru_remove_expired 10 4
     (lru_put 7 (2::nat) ''b'' (lru_put 1 1 ''a'' (projr (lru_new 3))))) = [(2, ''b'')]"
proof -
  let ?c = "lru_put 7 (2::nat) ''b'' (lru_put 1 1 ''a'' (projr (lru_new 3)))"
  have "lru_inv ?c" by (intro lru_put_ok(1) lru_new_ok(1) [of 3]) (simp add: lru_new_def)
  moreover have "lru_entries ?c = [(2, ''b''), (1, ''a'')]" by code_simp
  moreover have "map_of (lru_times ?c) 1 = Some 1" "map_of (lru_times ?c) 2 = Some 7" by code_simp+
  ultimately show ?thesis using lru_remove_expired_correct [of ?c 10 4] by simp
qed

text \<open>
  \<open>erase\<close>, \<open>clear\<close> and \<open>remove_if\<close> leave \<open>access_times_\<close> alone, so its size is not bounded
  by the capacity: every key that was put and erased stays there until \<open>remove_expired\<close> runs.
\<close>

definition churn :: "nat list \<Rightarrow> (nat, 'v) lru_cache \<Rightarrow> 'v \<Rightarrow> (nat, 'v) lru_cache" where
  "churn ks c v = fold (\<lambda>k c. fst (lru_erase k (lru_put (int k) k v c))) ks c"

lemma churn_step:
  assumes "lru_list c = []" "lru_map c = []"
  shows "fst (lru_erase k (lru_put now k v c)) = c\<lparr>lru_next := lru_next c + 1,
    lru_times := AList.update k now (lru_times (if lru_capacity c = 0 then lru_evict_last c else c))\<rparr>"
  using assms
  by (cases c) (auto simp: lru_put_def lru_erase_def lru_push_front_def lru_touch_def unlink_def
      lru_evict_last_def)

lemma churn_times:
  assumes "lru_list c = []" "lru_map c = []" "lru_capacity c = 1"
  shows "lru_list (churn ks c v) = [] \<and> lru_map (churn ks c v) = [] \<and>
    fst ` set (lru_times (churn ks c v)) = fst ` set (lru_times c) \<union> set ks"
  using assms
proof (induction ks arbitrary: c)
  case (Cons k ks)
  let ?c = "fst (lru_erase k (lru_put (int k) k v c))"
  have c: "?c = c\<lparr>lru_next := lru_next c + 1, lru_times := AList.update k (int k) (lru_times c)\<rparr>"
    using churn_step [OF Cons.prems(1,2)] Cons.prems(3) by simp
  have "churn (k # ks) c v = churn ks ?c v" by (simp add: churn_def)
  then show ?case using Cons.IH [of ?c] Cons.prems by (simp add: c dom_update)
qed (simp add: churn_def)

text \<open>Fact (lru_erase_leaks_access_times): a cache of capacity one that is put and erased for each
  of \<open>n\<close> different keys is empty at the end and still holds at least \<open>n\<close> access times.\<close>

theorem lru_erase_leaks_access_times:
  "lru_size (churn [0..<n] (projr (lru_new 1)) v) = 0 \<and>
   n \<le> length (lru_times (churn [0..<n] (projr (lru_new 1)) v))"
proof -
  let ?c = "churn [0..<n] (projr (lru_new 1)) v"
  have *: "lru_list ?c = [] \<and> fst ` set (lru_times ?c) = {0..<n}"
    using churn_times [of "projr (lru_new 1)" "[0..<n]" v] by (simp add: lru_new_def)
  then have "n = card (set (map fst (lru_times ?c)))" by simp
  also have "\<dots> \<le> length (lru_times ?c)" using card_length [of "map fst (lru_times ?c)"] by simp
  finally show ?thesis using * by (simp add: lru_size_def)
qed

end
