(* ===== verification/TtlCache.thy ===== *)
theory TtlCache
  imports LruCache
begin

section \<open>ttl_cache\<close>

text \<open>
  \<open>include/NeForce/core/container/ttl_cache.hpp\<close>: a client of \<open>lru_cache\<close> whose values carry
  the time point at which they expire. Each call of \<open>clock::now()\<close> is an argument, in the
  order in which the code reads the clock (\<open>t1\<close> is the reading of \<open>lru_cache\<close> itself in
  \<open>get\<close>). The clean-up thread is, for the contents of the cache, a caller of \<open>cleanup\<close>; its
  start and stop and the condition variable are not modelled. Time points are integers; their sums
  with a lifetime are taken to fit the clock's 64 bits.
\<close>

datatype refresh_policy = Never | On_access | Sliding_window

record 'v ttl_entry =
  te_value :: 'v
  te_expiry :: int

record ('k, 'v) ttl_cache =
  ttl_store :: "('k, 'v ttl_entry) lru_cache"
  ttl_default :: int
  ttl_policy :: refresh_policy

definition ttl_new :: "nat \<Rightarrow> int \<Rightarrow> cache_error + ('k, 'v) ttl_cache" where
  "ttl_new capacity default_ttl =
     (case lru_new capacity of
        Inl e \<Rightarrow> Inl e
      | Inr c \<Rightarrow> Inr \<lparr>ttl_store = c, ttl_default = default_ttl, ttl_policy = Never\<rparr>)"

definition ttl_set_refresh_policy ::
  "refresh_policy \<Rightarrow> ('k, 'v) ttl_cache \<Rightarrow> ('k, 'v) ttl_cache" where
  "ttl_set_refresh_policy policy c = c\<lparr>ttl_policy := policy\<rparr>"

definition ttl_put_for :: "int \<Rightarrow> int \<Rightarrow> 'k \<Rightarrow> 'v \<Rightarrow> int \<Rightarrow> ('k, 'v) ttl_cache \<Rightarrow> ('k, 'v) ttl_cache" where
  "ttl_put_for t1 t2 k v ttl c =
     (let expiry = t1 + ttl
      in c\<lparr>ttl_store := lru_put t2 k \<lparr>te_value = v, te_expiry = expiry\<rparr> (ttl_store c)\<rparr>)"

definition ttl_put :: "int \<Rightarrow> int \<Rightarrow> 'k \<Rightarrow> 'v \<Rightarrow> ('k, 'v) ttl_cache \<Rightarrow> ('k, 'v) ttl_cache" where
  "ttl_put t1 t2 k v c =
     (let expiry = t1 + ttl_default c
      in c\<lparr>ttl_store := lru_put t2 k \<lparr>te_value = v, te_expiry = expiry\<rparr> (ttl_store c)\<rparr>)"

definition ttl_get ::
  "int \<Rightarrow> int \<Rightarrow> int \<Rightarrow> int \<Rightarrow> 'k \<Rightarrow> ('k, 'v) ttl_cache \<Rightarrow> ('k, 'v) ttl_cache \<times> 'v option" where
  "ttl_get t1 t2 t3 t4 k c =
     (let (s, opt_entry) = lru_get t1 k (ttl_store c); c = c\<lparr>ttl_store := s\<rparr> in
      case opt_entry of
        None \<Rightarrow> (c, None)
      | Some e \<Rightarrow>
          (if te_expiry e < t2 then (c\<lparr>ttl_store := fst (lru_erase k (ttl_store c))\<rparr>, None)
           else if ttl_policy c = On_access \<or> ttl_policy c = Sliding_window
           then (c\<lparr>ttl_store := lru_put t4 k (e\<lparr>te_expiry := t3 + ttl_default c\<rparr>) (ttl_store c)\<rparr>,
                 Some (te_value e))
           else (c, Some (te_value e))))"

definition ttl_contains :: "int \<Rightarrow> 'k \<Rightarrow> ('k, 'v) ttl_cache \<Rightarrow> ('k, 'v) ttl_cache \<times> bool" where
  "ttl_contains t k c =
     (case lru_peek k (ttl_store c) of
        None \<Rightarrow> (c, False)
      | Some e \<Rightarrow>
          (if te_expiry e < t then (c\<lparr>ttl_store := fst (lru_erase k (ttl_store c))\<rparr>, False)
           else (c, True)))"

definition ttl_erase :: "'k \<Rightarrow> ('k, 'v) ttl_cache \<Rightarrow> ('k, 'v) ttl_cache \<times> bool" where
  "ttl_erase k c = (let (s, b) = lru_erase k (ttl_store c) in (c\<lparr>ttl_store := s\<rparr>, b))"

definition ttl_clear :: "('k, 'v) ttl_cache \<Rightarrow> ('k, 'v) ttl_cache" where
  "ttl_clear c = c\<lparr>ttl_store := lru_clear (ttl_store c)\<rparr>"

definition ttl_size :: "('k, 'v) ttl_cache \<Rightarrow> nat" where
  "ttl_size c = lru_size (ttl_store c)"

definition ttl_cleanup :: "int \<Rightarrow> ('k, 'v) ttl_cache \<Rightarrow> ('k, 'v) ttl_cache" where
  "ttl_cleanup now c =
     c\<lparr>ttl_store := lru_remove_if (\<lambda>pair. te_expiry (snd pair) < now) (ttl_store c)\<rparr>"

subsection \<open>Sequences of calls and the unbounded timed map\<close>

datatype ('k, 'v) ttl_op =
  Ttl_put int int 'k 'v
| Ttl_put_for int int 'k 'v int
| Ttl_get int int int int 'k
| Ttl_contains int 'k
| Ttl_erase 'k
| Ttl_clear
| Ttl_cleanup int
| Ttl_set_policy refresh_policy

datatype 'v ttl_answer = Ttl_done | Ttl_value "'v option" | Ttl_bool bool

fun ttl_step :: "('k, 'v) ttl_op \<Rightarrow> ('k, 'v) ttl_cache \<Rightarrow> ('k, 'v) ttl_cache \<times> 'v ttl_answer" where
  "ttl_step (Ttl_put t1 t2 k v) c = (ttl_put t1 t2 k v c, Ttl_done)"
| "ttl_step (Ttl_put_for t1 t2 k v ttl) c = (ttl_put_for t1 t2 k v ttl c, Ttl_done)"
| "ttl_step (Ttl_get t1 t2 t3 t4 k) c =
     (let (c, r) = ttl_get t1 t2 t3 t4 k c in (c, Ttl_value r))"
| "ttl_step (Ttl_contains t k) c = (let (c, b) = ttl_contains t k c in (c, Ttl_bool b))"
| "ttl_step (Ttl_erase k) c = (let (c, b) = ttl_erase k c in (c, Ttl_bool b))"
| "ttl_step Ttl_clear c = (ttl_clear c, Ttl_done)"
| "ttl_step (Ttl_cleanup t) c = (ttl_cleanup t c, Ttl_done)"
| "ttl_step (Ttl_set_policy p) c = (ttl_set_refresh_policy p c, Ttl_done)"

text \<open>
  The specification forgets nothing before its time: each key is bound to its last value and
  the time until which that value may be returned, with no bound on the number of keys.
\<close>

record ('k, 'v) timed_map =
  tm_map :: "'k \<rightharpoonup> 'v \<times> int"
  tm_default :: int
  tm_refresh :: bool

definition tm_live :: "int \<Rightarrow> 'k \<Rightarrow> ('k, 'v) timed_map \<Rightarrow> 'v option" where
  "tm_live now k m = (case tm_map m k of
     Some (v, till) \<Rightarrow> if till < now then None else Some v | None \<Rightarrow> None)"

fun tm_step :: "('k, 'v) ttl_op \<Rightarrow> ('k, 'v) timed_map \<Rightarrow> ('k, 'v) timed_map \<times> 'v ttl_answer" where
  "tm_step (Ttl_put t1 t2 k v) m =
     (m\<lparr>tm_map := (tm_map m)(k \<mapsto> (v, t1 + tm_default m))\<rparr>, Ttl_done)"
| "tm_step (Ttl_put_for t1 t2 k v ttl) m = (m\<lparr>tm_map := (tm_map m)(k \<mapsto> (v, t1 + ttl))\<rparr>, Ttl_done)"
| "tm_step (Ttl_get t1 t2 t3 t4 k) m =
     (case tm_live t2 k m of
        None \<Rightarrow> (m\<lparr>tm_map := (tm_map m)(k := None)\<rparr>, Ttl_value None)
      | Some v \<Rightarrow>
          (if tm_refresh m then m\<lparr>tm_map := (tm_map m)(k \<mapsto> (v, t3 + tm_default m))\<rparr> else m,
           Ttl_value (Some v)))"
| "tm_step (Ttl_contains t k) m =
     (case tm_live t k m of
        None \<Rightarrow> (m\<lparr>tm_map := (tm_map m)(k := None)\<rparr>, Ttl_bool False)
      | Some v \<Rightarrow> (m, Ttl_bool True))"
| "tm_step (Ttl_erase k) m =
     (m\<lparr>tm_map := (tm_map m)(k := None)\<rparr>, Ttl_bool (tm_map m k \<noteq> None))"
| "tm_step Ttl_clear m = (m\<lparr>tm_map := Map.empty\<rparr>, Ttl_done)"
| "tm_step (Ttl_cleanup t) m =
     (m\<lparr>tm_map := (\<lambda>k. case tm_map m k of None \<Rightarrow> None
                        | Some (v, till) \<Rightarrow> if till < t then None else Some (v, till))\<rparr>, Ttl_done)"
| "tm_step (Ttl_set_policy p) m = (m\<lparr>tm_refresh := (p \<noteq> Never)\<rparr>, Ttl_done)"

text \<open>An answer of the cache is that of the specification, or a miss where it has a hit.\<close>

fun answer_le :: "'v ttl_answer \<Rightarrow> 'v ttl_answer \<Rightarrow> bool" where
  "answer_le (Ttl_value r) s \<longleftrightarrow> s = Ttl_value r \<or> r = None \<and> (\<exists>v. s = Ttl_value v)"
| "answer_le (Ttl_bool b) s \<longleftrightarrow> s = Ttl_bool b \<or> \<not> b \<and> s = Ttl_bool True"
| "answer_le Ttl_done s \<longleftrightarrow> s = Ttl_done"

definition ttl_lookup :: "('k, 'v) ttl_cache \<Rightarrow> 'k \<rightharpoonup> 'v \<times> int" where
  "ttl_lookup c k = map_option (\<lambda>e. (te_value e, te_expiry e)) (map_of (lru_entries (ttl_store c)) k)"

definition ttl_inv :: "('k, 'v) ttl_cache \<Rightarrow> bool" where
  "ttl_inv c \<longleftrightarrow> lru_inv (ttl_store c)"

text \<open>The cache holds part of the timed map.\<close>

definition ttl_sim :: "('k, 'v) ttl_cache \<Rightarrow> ('k, 'v) timed_map \<Rightarrow> bool" where
  "ttl_sim c m \<longleftrightarrow> ttl_inv c \<and> ttl_lookup c \<subseteq>\<^sub>m tm_map m \<and> ttl_default c = tm_default m \<and>
     (ttl_policy c \<noteq> Never \<longleftrightarrow> tm_refresh m)"

lemma ttl_simI:
  assumes "lru_inv (ttl_store c)" "ttl_default c = tm_default m" "ttl_policy c \<noteq> Never \<longleftrightarrow> tm_refresh m"
    "\<And>k e. map_of (lru_entries (ttl_store c)) k = Some e \<Longrightarrow> tm_map m k = Some (te_value e, te_expiry e)"
  shows "ttl_sim c m"
  using assms by (auto simp: ttl_sim_def ttl_inv_def ttl_lookup_def map_le_def dom_def)

lemma ttl_simD:
  assumes "ttl_sim c m"
  shows "lru_inv (ttl_store c)" "ttl_default c = tm_default m" "ttl_policy c \<noteq> Never \<longleftrightarrow> tm_refresh m"
    "map_of (lru_entries (ttl_store c)) k = Some e \<Longrightarrow> tm_map m k = Some (te_value e, te_expiry e)"
proof -
  show "lru_inv (ttl_store c)" "ttl_default c = tm_default m" "ttl_policy c \<noteq> Never \<longleftrightarrow> tm_refresh m"
    using assms by (auto simp: ttl_sim_def ttl_inv_def)
  have le: "ttl_lookup c \<subseteq>\<^sub>m tm_map m" using assms by (simp add: ttl_sim_def)
  assume "map_of (lru_entries (ttl_store c)) k = Some e"
  then have "ttl_lookup c k = Some (te_value e, te_expiry e)" by (simp add: ttl_lookup_def)
  then show "tm_map m k = Some (te_value e, te_expiry e)"
    using le by (metis domI map_le_def)
qed

text \<open>A put of the store under the same binding in the map, the step shared by three calls.\<close>

lemma ttl_sim_put:
  assumes sim: "ttl_sim c m"
  shows "ttl_sim (c\<lparr>ttl_store := lru_put t k e (ttl_store c)\<rparr>)
    (m\<lparr>tm_map := (tm_map m)(k \<mapsto> (te_value e, te_expiry e))\<rparr>)"
proof (rule ttl_simI)
  note d = ttl_simD [OF sim]
  fix k' e' assume "map_of (lru_entries (ttl_store (c\<lparr>ttl_store := lru_put t k e (ttl_store c)\<rparr>))) k' = Some e'"
  then have l: "map_of (lru_entries (lru_put t k e (ttl_store c))) k' = Some e'" by simp
  show "tm_map (m\<lparr>tm_map := (tm_map m)(k \<mapsto> (te_value e, te_expiry e))\<rparr>) k' = Some (te_value e', te_expiry e')"
  proof (cases "k' = k")
    case True
    then show ?thesis using l lru.lookup_put_same [OF d(1)] by simp
  next
    case False
    then show ?thesis using d(4) [OF lru.lookup_put_other [OF d(1) False l]] by simp
  qed
qed (use ttl_simD [OF sim] in \<open>auto simp: lru.put_inv\<close>)

lemma ttl_sim_erase:
  assumes sim: "ttl_sim c m"
  shows "ttl_sim (c\<lparr>ttl_store := fst (lru_erase k (ttl_store c))\<rparr>) (m\<lparr>tm_map := (tm_map m)(k := None)\<rparr>)"
  using ttl_simD [OF sim]
  by (intro ttl_simI) (auto simp: lru.erase_inv lru.lookup_erase split: if_splits)

text \<open>Forgetting in the map what the cache does not hold.\<close>

lemma ttl_sim_miss:
  assumes "ttl_sim c m" "map_of (lru_entries (ttl_store c)) k = None"
  shows "ttl_sim c (m\<lparr>tm_map := (tm_map m)(k := x)\<rparr>)"
  using ttl_simD [OF assms(1)] assms(2) by (intro ttl_simI) auto

lemma ttl_sim_lru_get:
  assumes "ttl_sim c m"
  shows "ttl_sim (c\<lparr>ttl_store := fst (lru_get t k (ttl_store c))\<rparr>) m"
  using ttl_simD [OF assms] by (intro ttl_simI) (auto simp: lru.get_inv lru.lookup_get)

lemma ttl_get_simulates:
  assumes sim: "ttl_sim c m"
  shows "ttl_sim (fst (ttl_get t1 t2 t3 t4 k c)) (fst (tm_step (Ttl_get t1 t2 t3 t4 k) m)) \<and>
    answer_le (Ttl_value (snd (ttl_get t1 t2 t3 t4 k c))) (snd (tm_step (Ttl_get t1 t2 t3 t4 k) m))"
proof -
  note d = ttl_simD [OF sim]
  obtain s r where g: "lru_get t1 k (ttl_store c) = (s, r)" by (cases "lru_get t1 k (ttl_store c)")
  let ?c = "c\<lparr>ttl_store := s\<rparr>"
  have sim': "ttl_sim ?c m" using ttl_sim_lru_get [OF sim, of t1 k] g by simp
  have r: "r = map_of (lru_entries (ttl_store c)) k" using lru.get_result [OF d(1), of t1 k] g by simp
  have r': "map_of (lru_entries (ttl_store ?c)) k = r" using lru.lookup_get [OF d(1), of t1 k] g r by simp
  show ?thesis
  proof (cases r)
    case None
    have "ttl_get t1 t2 t3 t4 k c = (?c, None)" using g None by (simp add: ttl_get_def)
    then show ?thesis using ttl_sim_miss [OF sim' r' [unfolded None]] sim'
      by (auto split: option.splits)
  next
    case (Some e)
    have t: "tm_map m k = Some (te_value e, te_expiry e)" using d(4) r Some by simp
    show ?thesis
    proof (cases "te_expiry e < t2")
      case True
      then have "ttl_get t1 t2 t3 t4 k c = (?c\<lparr>ttl_store := fst (lru_erase k (ttl_store ?c))\<rparr>, None)"
        using g Some by (simp add: ttl_get_def)
      then show ?thesis using ttl_sim_erase [OF sim', of k] t True by (simp add: tm_live_def)
    next
      case False
      let ?e = "e\<lparr>te_expiry := t3 + ttl_default c\<rparr>"
      have pol: "ttl_policy c = On_access \<or> ttl_policy c = Sliding_window \<longleftrightarrow> tm_refresh m"
        using d(3) by (cases "ttl_policy c") auto
      have "ttl_get t1 t2 t3 t4 k c =
          (if tm_refresh m then ?c\<lparr>ttl_store := lru_put t4 k ?e (ttl_store ?c)\<rparr> else ?c, Some (te_value e))"
        using g Some False pol by (auto simp: ttl_get_def)
      then show ?thesis using ttl_sim_put [OF sim', of t4 k ?e] sim' t False d(2) by (simp add: tm_live_def)
    qed
  qed
qed

lemma ttl_contains_simulates:
  assumes sim: "ttl_sim c m"
  shows "ttl_sim (fst (ttl_contains t k c)) (fst (tm_step (Ttl_contains t k) m)) \<and>
    answer_le (Ttl_bool (snd (ttl_contains t k c))) (snd (tm_step (Ttl_contains t k) m))"
proof -
  note d = ttl_simD [OF sim]
  have r: "lru_peek k (ttl_store c) = map_of (lru_entries (ttl_store c)) k" by (rule lru.peek_result [OF d(1)])
  show ?thesis
  proof (cases "lru_peek k (ttl_store c)")
    case None
    then show ?thesis using ttl_sim_miss [OF sim] sim r
      by (auto simp: ttl_contains_def split: option.splits)
  next
    case (Some e)
    then have "tm_map m k = Some (te_value e, te_expiry e)" using d(4) r by simp
    then show ?thesis using ttl_sim_erase [OF sim] sim Some
      by (auto simp: ttl_contains_def tm_live_def)
  qed
qed

lemma ttl_cleanup_simulates:
  assumes sim: "ttl_sim c m"
  shows "ttl_sim (ttl_cleanup t c) (fst (tm_step (Ttl_cleanup t) m))"
  using ttl_simD [OF sim]
  by (intro ttl_simI) (auto simp: ttl_cleanup_def lru.remove_if_inv lru.lookup_remove_if
      split: option.splits if_splits)

lemma ttl_step_simulates:
  assumes sim: "ttl_sim c m"
  shows "ttl_sim (fst (ttl_step x c)) (fst (tm_step x m)) \<and>
    answer_le (snd (ttl_step x c)) (snd (tm_step x m))"
proof (cases x)
  case (Ttl_put t1 t2 k v)
  then show ?thesis
    using ttl_sim_put [OF sim, of t2 k "\<lparr>te_value = v, te_expiry = t1 + ttl_default c\<rparr>"]
      ttl_simD(2) [OF sim] by (simp add: ttl_put_def)
next
  case (Ttl_put_for t1 t2 k v ttl)
  then show ?thesis
    using ttl_sim_put [OF sim, of t2 k "\<lparr>te_value = v, te_expiry = t1 + ttl\<rparr>"] by (simp add: ttl_put_for_def)
next
  case (Ttl_get t1 t2 t3 t4 k)
  then show ?thesis using ttl_get_simulates [OF sim, of t1 t2 t3 t4 k] by (simp add: case_prod_beta Let_def)
next
  case (Ttl_contains t k)
  then show ?thesis using ttl_contains_simulates [OF sim, of t k] by (simp add: case_prod_beta Let_def)
next
  case (Ttl_erase k)
  have "answer_le (Ttl_bool (snd (lru_erase k (ttl_store c)))) (Ttl_bool (tm_map m k \<noteq> None))"
    using lru.erase_result [OF ttl_simD(1) [OF sim]] ttl_simD(4) [OF sim, of k] by fastforce
  then show ?thesis using Ttl_erase ttl_sim_erase [OF sim, of k] by (simp add: ttl_erase_def case_prod_beta Let_def)
next
  case Ttl_clear
  have "lru_entries (lru_clear (ttl_store c)) = []" "lru_inv (lru_clear (ttl_store c))"
    using lru_clear_ok ttl_simD(1) [OF sim] by blast+
  then have "ttl_sim (ttl_clear c) (m\<lparr>tm_map := Map.empty\<rparr>)"
    using ttl_simD(2,3) [OF sim] by (intro ttl_simI) (auto simp: ttl_clear_def)
  then show ?thesis using Ttl_clear by simp
next
  case (Ttl_cleanup t)
  then show ?thesis using ttl_cleanup_simulates [OF sim, of t] by simp
next
  case (Ttl_set_policy p)
  then show ?thesis using ttl_simD [OF sim] by (auto simp: ttl_set_refresh_policy_def intro: ttl_simI)
qed

lemma ttl_run_simulates:
  assumes "ttl_sim c m" "run_ops ttl_step xs c = (c', rs)" "run_ops tm_step xs m = (m', ss)"
  shows "ttl_sim c' m' \<and> list_all2 answer_le rs ss"
  using assms
proof (induction xs arbitrary: c m rs ss)
  case (Cons x xs)
  let ?c = "fst (ttl_step x c)" and ?m = "fst (tm_step x m)"
  note s = ttl_step_simulates [OF Cons.prems(1), of x]
  obtain rs2 where r: "run_ops ttl_step xs ?c = (c', rs2)" "rs = snd (ttl_step x c) # rs2"
    by (rule run_ops_ConsE [OF Cons.prems(2)])
  obtain ss2 where q: "run_ops tm_step xs ?m = (m', ss2)" "ss = snd (tm_step x m) # ss2"
    by (rule run_ops_ConsE [OF Cons.prems(3)])
  show ?case using Cons.IH [OF conjunct1 [OF s] r(1) q(1)] s r(2) q(2) by simp
qed simp

definition timed_map_init :: "int \<Rightarrow> ('k, 'v) timed_map" where
  "timed_map_init default_ttl = \<lparr>tm_map = Map.empty, tm_default = default_ttl, tm_refresh = False\<rparr>"

text \<open>C4 (ttl_never_stale): through any sequence of calls on a new cache, whatever the clock
  readings and the refresh policies, every answer is that of an unbounded map whose bindings
  lapse at their expiry, or a miss: a value is never returned after it expired, after it was
  erased or after it was replaced, and the store stays a well-formed \<open>lru_cache\<close> within its
  capacity.\<close>

theorem ttl_never_stale:
  assumes "ttl_new capacity default_ttl = Inr c" "run_ops ttl_step xs c = (c', rs)"
    "run_ops tm_step xs (timed_map_init default_ttl) = (m', ss)"
  shows "list_all2 answer_le rs ss \<and> ttl_lookup c' \<subseteq>\<^sub>m tm_map m' \<and> ttl_inv c'"
proof -
  obtain s where s: "lru_new capacity = Inr s" "c = \<lparr>ttl_store = s, ttl_default = default_ttl, ttl_policy = Never\<rparr>"
    using assms(1) by (auto simp: ttl_new_def split: sum.splits)
  have "ttl_sim c (timed_map_init default_ttl)"
    using lru_new_ok [OF s(1)] s(2) by (intro ttl_simI) (auto simp: timed_map_init_def)
  from ttl_run_simulates [OF this assms(2,3)] show ?thesis by (simp add: ttl_sim_def)
qed

theorem ttl_never_stale_witness:
  "\<exists>c c' (m' :: (nat, string) timed_map). ttl_new 2 10 = Inr c \<and>
     run_ops ttl_step [Ttl_put 0 0 (1::nat) ''a'', Ttl_get 5 5 5 5 1, Ttl_get 11 11 11 11 1] c =
       (c', [Ttl_done, Ttl_value (Some ''a''), Ttl_value None]) \<and>
     ttl_lookup c' \<subseteq>\<^sub>m tm_map m' \<and> ttl_inv c'"
proof -
  let ?xs = "[Ttl_put 0 0 (1::nat) ''a'', Ttl_get 5 5 5 5 1, Ttl_get 11 11 11 11 1]"
  let ?c = "projr (ttl_new 2 10) :: (nat, string) ttl_cache"
  have c: "ttl_new 2 10 = Inr ?c" by (simp add: ttl_new_def lru_new_def)
  obtain c' rs where r: "run_ops ttl_step ?xs ?c = (c', rs)" by (cases "run_ops ttl_step ?xs ?c")
  obtain m' ss where q: "run_ops tm_step ?xs (timed_map_init 10) = (m', ss)"
    by (cases "run_ops tm_step ?xs (timed_map_init 10) :: (nat, string) timed_map \<times> _")
  have "snd (run_ops ttl_step ?xs ?c) = [Ttl_done, Ttl_value (Some ''a''), Ttl_value None]" by code_simp
  with r have "rs = [Ttl_done, Ttl_value (Some ''a''), Ttl_value None]" by simp
  then show ?thesis using ttl_never_stale [OF c r q] c r by blast
qed

text \<open>C14 (ttl_get_correct): on a well-formed cache \<open>get\<close> returns the stored value exactly when
  the key is bound and its expiry has not passed at the second reading of the clock; an expired
  entry is erased. A hit under the policy \<open>never\<close> leaves the expiry; under \<open>on_access\<close> and under
  \<open>sliding_window\<close> alike it becomes the third reading plus the default lifetime of the cache,
  whatever lifetime the entry was put with, so that it may also come earlier than before (see
  \<open>ttl_get_shortens\<close>).\<close>

theorem ttl_get_correct:
  assumes "ttl_inv c" "ttl_get t1 t2 t3 t4 k c = (c', r)"
  shows "ttl_inv c' \<and>
    (case ttl_lookup c k of
       None \<Rightarrow> r = None \<and> ttl_lookup c' = ttl_lookup c
     | Some (v, expiry) \<Rightarrow>
         if expiry < t2 then r = None \<and> ttl_lookup c' = (ttl_lookup c)(k := None)
         else r = Some v \<and>
           ttl_lookup c' = (if ttl_policy c = Never then ttl_lookup c
                            else (ttl_lookup c)(k \<mapsto> (v, t3 + ttl_default c))))"
proof -
  have inv: "lru_inv (ttl_store c)" using assms(1) by (simp add: ttl_inv_def)
  obtain s q where g: "lru_get t1 k (ttl_store c) = (s, q)" by (cases "lru_get t1 k (ttl_store c)")
  have s: "lru_inv s" "q = map_of (lru_entries (ttl_store c)) k"
    "map_of (lru_entries s) = map_of (lru_entries (ttl_store c))"
    using lru.get_inv [OF inv, of t1 k] lru.get_result [OF inv, of t1 k] lru.lookup_get [OF inv, of t1 k] g
    by simp_all
  show ?thesis
  proof (cases q)
    case None
    then show ?thesis using assms(2) g s by (auto simp: ttl_get_def ttl_inv_def ttl_lookup_def fun_eq_iff)
  next
    case (Some e)
    have p: "map_of (lru_entries (lru_put t4 k e' s)) = (map_of (lru_entries s))(k \<mapsto> e')" for e'
      by (rule lru.lookup_put_present [OF s(1)]) (use s(2,3) Some in \<open>metis option.distinct(1)\<close>)
    have pol: "ttl_policy c = On_access \<or> ttl_policy c = Sliding_window \<longleftrightarrow> ttl_policy c \<noteq> Never"
      by (cases "ttl_policy c") auto
    have m: "map_of (lru_entries (ttl_store c)) k = Some e" using s(2) Some by simp
    have g': "lru_get t1 k (ttl_store c) = (s, Some e)" using g Some by simp
    show ?thesis
    proof (cases "te_expiry e < t2")
      case True
      then have "c' = c\<lparr>ttl_store := fst (lru_erase k s)\<rparr>" "r = None"
        using assms(2) g' by (simp_all add: ttl_get_def)
      then show ?thesis using True m s(3) lru.erase_inv [OF s(1), of k] lru.lookup_erase [OF s(1), of k]
        by (simp add: ttl_inv_def ttl_lookup_def fun_eq_iff)
    next
      case False
      let ?e = "e\<lparr>te_expiry := t3 + ttl_default c\<rparr>"
      have "c' = c\<lparr>ttl_store := if ttl_policy c = Never then s else lru_put t4 k ?e s\<rparr>" "r = Some (te_value e)"
        using assms(2) g' False pol by (auto simp: ttl_get_def)
      then show ?thesis using False m s(1,3) lru.put_inv [OF s(1)] p
        by (simp add: ttl_inv_def ttl_lookup_def fun_eq_iff)
    qed
  qed
qed

theorem ttl_get_correct_witness:
  "snd (ttl_get 6 6 6 6 (1::nat) (ttl_put 0 0 1 ''a'' (projr (ttl_new 2 10)))) = Some ''a''"
proof -
  let ?c = "ttl_put 0 0 (1::nat) ''a'' (projr (ttl_new 2 10))"
  obtain c' r where g: "ttl_get 6 6 6 6 1 ?c = (c', r)" by (cases "ttl_get 6 6 6 6 1 ?c")
  have "lru_inv (projr (lru_new 2) :: (nat, string ttl_entry) lru_cache)"
    by (rule lru_new_ok(1) [of 2]) (simp add: lru_new_def)
  then have "ttl_inv ?c"
    by (simp add: ttl_inv_def ttl_put_def ttl_new_def lru_new_def lru.put_inv)
  moreover have "ttl_lookup ?c 1 = Some (''a'', 10)" by code_simp
  ultimately show ?thesis using ttl_get_correct [OF _ g] g by simp
qed

text \<open>Fact (ttl_get_shortens): a read under \<open>sliding_window\<close> shortens the life of an entry. It was put
  for 100 time units into a cache whose default is 10; without a read it is still there at time 50,
  after a read at time 1 it is gone.\<close>

theorem ttl_get_shortens:
  "let c = ttl_put_for 0 0 (1::nat) ''a'' 100 (ttl_set_refresh_policy Sliding_window (projr (ttl_new 2 10)))
   in snd (ttl_get 50 50 50 50 1 c) = Some ''a'' \<and>
      snd (ttl_get 1 1 1 1 1 c) = Some ''a'' \<and>
      snd (ttl_get 50 50 50 50 1 (fst (ttl_get 1 1 1 1 1 c))) = None"
  by code_simp

end
