(* ===== verification/RbNodes.thy ===== *)
theory RbNodes imports Prelude
begin

text \<open>
The nodes of the red-black tree behind \<open>map\<close>, \<open>set\<close> and their multi
variants (\<open>include/NeForce/core/container/rb_tree.hpp\<close>): the structs in memory, the two
rotations, \<open>minimum\<close>, \<open>maximum\<close>, and how a region of memory holds a tree.
A node is an address, 0 is the null pointer, and the memory keeps one function per field of
\<open>rb_tree_node_base\<close> and \<open>rb_tree_node\<close>.  The pointer \<open>root\<close> that the
algorithms take by reference is always \<open>header_->parent_\<close>, so it is read and written there.
\<close>

section \<open>Memory\<close>

definition RB_TREE_RED :: bool where
  "RB_TREE_RED = False"

definition RB_TREE_BLACK :: bool where
  "RB_TREE_BLACK = True"

record 'v rb_nodes =
  node_color :: "nat \<Rightarrow> bool"
  node_parent :: "nat \<Rightarrow> nat"
  node_left :: "nat \<Rightarrow> nat"
  node_right :: "nat \<Rightarrow> nat"
  node_data :: "nat \<Rightarrow> 'v"

definition set_color :: "'v rb_nodes \<Rightarrow> nat \<Rightarrow> bool \<Rightarrow> 'v rb_nodes" where
  "set_color m a c = m\<lparr>node_color := (node_color m)(a := c)\<rparr>"

definition set_parent :: "'v rb_nodes \<Rightarrow> nat \<Rightarrow> nat \<Rightarrow> 'v rb_nodes" where
  "set_parent m a p = m\<lparr>node_parent := (node_parent m)(a := p)\<rparr>"

definition set_left :: "'v rb_nodes \<Rightarrow> nat \<Rightarrow> nat \<Rightarrow> 'v rb_nodes" where
  "set_left m a p = m\<lparr>node_left := (node_left m)(a := p)\<rparr>"

definition set_right :: "'v rb_nodes \<Rightarrow> nat \<Rightarrow> nat \<Rightarrow> 'v rb_nodes" where
  "set_right m a p = m\<lparr>node_right := (node_right m)(a := p)\<rparr>"

definition set_data :: "'v rb_nodes \<Rightarrow> nat \<Rightarrow> 'v \<Rightarrow> 'v rb_nodes" where
  "set_data m a v = m\<lparr>node_data := (node_data m)(a := v)\<rparr>"

lemma field_set [simp]:
  "node_color (set_color m a c) = (node_color m)(a := c)"
  "node_parent (set_color m a c) = node_parent m"
  "node_left (set_color m a c) = node_left m"
  "node_right (set_color m a c) = node_right m"
  "node_data (set_color m a c) = node_data m"
  "node_color (set_parent m a p) = node_color m"
  "node_parent (set_parent m a p) = (node_parent m)(a := p)"
  "node_left (set_parent m a p) = node_left m"
  "node_right (set_parent m a p) = node_right m"
  "node_data (set_parent m a p) = node_data m"
  "node_color (set_left m a p) = node_color m"
  "node_parent (set_left m a p) = node_parent m"
  "node_left (set_left m a p) = (node_left m)(a := p)"
  "node_right (set_left m a p) = node_right m"
  "node_data (set_left m a p) = node_data m"
  "node_color (set_right m a p) = node_color m"
  "node_parent (set_right m a p) = node_parent m"
  "node_left (set_right m a p) = node_left m"
  "node_right (set_right m a p) = (node_right m)(a := p)"
  "node_data (set_right m a p) = node_data m"
  "node_color (set_data m a v) = node_color m"
  "node_parent (set_data m a v) = node_parent m"
  "node_left (set_data m a v) = node_left m"
  "node_right (set_data m a v) = node_right m"
  "node_data (set_data m a v) = (node_data m)(a := v)"
  by (simp_all add: set_color_def set_parent_def set_left_def set_right_def set_data_def)

section \<open>The operations on nodes\<close>

partial_function (option) min_loop :: "'v rb_nodes \<Rightarrow> nat \<Rightarrow> nat option" where
  "min_loop m a = (if node_left m a \<noteq> 0 then min_loop m (node_left m a) else Some a)"

partial_function (option) max_loop :: "'v rb_nodes \<Rightarrow> nat \<Rightarrow> nat option" where
  "max_loop m a = (if node_right m a \<noteq> 0 then max_loop m (node_right m a) else Some a)"

definition minimum :: "'v rb_nodes \<Rightarrow> nat \<Rightarrow> nat option" where
  "minimum m root = (if root = 0 then Some 0 else min_loop m root)"

definition maximum :: "'v rb_nodes \<Rightarrow> nat \<Rightarrow> nat option" where
  "maximum m root = (if root = 0 then Some 0 else max_loop m root)"

definition rb_tree_rotate_left :: "nat \<Rightarrow> nat \<Rightarrow> 'v rb_nodes \<Rightarrow> 'v rb_nodes" where
  "rb_tree_rotate_left header axis m =
    (let y = node_right m axis;
         m1 = set_right m axis (node_left m y);
         m2 = (if node_left m1 y \<noteq> 0 then set_parent m1 (node_left m1 y) axis else m1);
         m3 = set_parent m2 y (node_parent m2 axis);
         m4 = (if axis = node_parent m3 header then set_parent m3 header y
               else if axis = node_left m3 (node_parent m3 axis)
               then set_left m3 (node_parent m3 axis) y
               else set_right m3 (node_parent m3 axis) y);
         m5 = set_left m4 y axis
     in set_parent m5 axis y)"

definition rb_tree_rotate_right :: "nat \<Rightarrow> nat \<Rightarrow> 'v rb_nodes \<Rightarrow> 'v rb_nodes" where
  "rb_tree_rotate_right header axis m =
    (let y = node_left m axis;
         m1 = set_left m axis (node_right m y);
         m2 = (if node_right m1 y \<noteq> 0 then set_parent m1 (node_right m1 y) axis else m1);
         m3 = set_parent m2 y (node_parent m2 axis);
         m4 = (if axis = node_parent m3 header then set_parent m3 header y
               else if axis = node_right m3 (node_parent m3 axis)
               then set_right m3 (node_parent m3 axis) y
               else set_left m3 (node_parent m3 axis) y);
         m5 = set_right m4 y axis
     in set_parent m5 axis y)"

section \<open>Trees in memory\<close>

text \<open>
The contents of a region: a tree whose nodes carry their address, colour and value, and the path
from a node up to the header, innermost frame first.  A frame names the node above, its sibling
subtree and the side the path comes from.
\<close>

datatype 'v shape = Leaf | Node "'v shape" nat bool 'v "'v shape"

datatype 'v frame = InLeft nat bool 'v "'v shape" | InRight "'v shape" nat bool 'v

primrec addrs :: "'v shape \<Rightarrow> nat list" where
  "addrs Leaf = []"
| "addrs (Node l a c v r) = a # addrs l @ addrs r"

primrec entries :: "'v shape \<Rightarrow> (nat \<times> 'v) list" where
  "entries Leaf = []"
| "entries (Node l a c v r) = entries l @ (a, v) # entries r"

primrec frame_addr :: "'v frame \<Rightarrow> nat" where
  "frame_addr (InLeft a c v r) = a"
| "frame_addr (InRight l a c v) = a"

primrec frame_color :: "'v frame \<Rightarrow> bool" where
  "frame_color (InLeft a c v r) = c"
| "frame_color (InRight l a c v) = c"

primrec sibling :: "'v frame \<Rightarrow> 'v shape" where
  "sibling (InLeft a c v r) = r"
| "sibling (InRight l a c v) = l"

primrec path_addrs :: "'v frame list \<Rightarrow> nat list" where
  "path_addrs [] = []"
| "path_addrs (f # fs) = frame_addr f # addrs (sibling f) @ path_addrs fs"

definition above :: "nat \<Rightarrow> 'v frame list \<Rightarrow> nat" where
  "above header fs = (case fs of [] \<Rightarrow> header | f # _ \<Rightarrow> frame_addr f)"

primrec plug_frame :: "'v frame \<Rightarrow> 'v shape \<Rightarrow> 'v shape" where
  "plug_frame (InLeft a c v r) t = Node t a c v r"
| "plug_frame (InRight l a c v) t = Node l a c v t"

primrec plug :: "'v frame list \<Rightarrow> 'v shape \<Rightarrow> 'v shape" where
  "plug [] t = t"
| "plug (f # fs) t = plug fs (plug_frame f t)"

primrec tree_at :: "'v rb_nodes \<Rightarrow> nat \<Rightarrow> nat \<Rightarrow> 'v shape \<Rightarrow> bool" where
  "tree_at m par p Leaf \<longleftrightarrow> p = 0"
| "tree_at m par p (Node l a c v r) \<longleftrightarrow> p = a \<and> a \<noteq> 0 \<and> node_parent m a = par \<and>
     node_color m a = c \<and> node_data m a = v \<and>
     tree_at m a (node_left m a) l \<and> tree_at m a (node_right m a) r"

primrec frame_at :: "'v rb_nodes \<Rightarrow> nat \<Rightarrow> nat \<Rightarrow> 'v frame \<Rightarrow> bool" where
  "frame_at m par p (InLeft a c v r) \<longleftrightarrow> a \<noteq> 0 \<and> node_parent m a = par \<and>
     node_color m a = c \<and> node_data m a = v \<and>
     node_left m a = p \<and> tree_at m a (node_right m a) r"
| "frame_at m par p (InRight l a c v) \<longleftrightarrow> a \<noteq> 0 \<and> node_parent m a = par \<and>
     node_color m a = c \<and> node_data m a = v \<and>
     tree_at m a (node_left m a) l \<and> node_right m a = p"

primrec path_at :: "'v rb_nodes \<Rightarrow> nat \<Rightarrow> nat \<Rightarrow> 'v frame list \<Rightarrow> bool" where
  "path_at m header p [] \<longleftrightarrow> node_parent m header = p"
| "path_at m header p (f # fs) \<longleftrightarrow>
     frame_at m (above header fs) p f \<and> path_at m header (frame_addr f) fs"

definition focus :: "'v rb_nodes \<Rightarrow> nat \<Rightarrow> 'v frame list \<Rightarrow> nat \<Rightarrow> 'v shape \<Rightarrow> bool" where
  "focus m header fs p t \<longleftrightarrow> header \<noteq> 0 \<and> path_at m header p fs \<and>
     tree_at m (above header fs) p t \<and> distinct (header # path_addrs fs @ addrs t)"

lemma above_simps [simp]:
  "above header [] = header" "above header (f # fs) = frame_addr f"
  by (simp_all add: above_def)

lemma tree_at_frame [simp]:
  "a \<notin> set (addrs t) \<Longrightarrow> tree_at (set_color m a c) par p t = tree_at m par p t"
  "a \<notin> set (addrs t) \<Longrightarrow> tree_at (set_parent m a q) par p t = tree_at m par p t"
  "a \<notin> set (addrs t) \<Longrightarrow> tree_at (set_left m a q) par p t = tree_at m par p t"
  "a \<notin> set (addrs t) \<Longrightarrow> tree_at (set_right m a q) par p t = tree_at m par p t"
  "a \<notin> set (addrs t) \<Longrightarrow> tree_at (set_data m a v) par p t = tree_at m par p t"
  by (induction t arbitrary: par p) auto

lemma frame_at_frame [simp]:
  "a \<noteq> frame_addr f \<Longrightarrow> a \<notin> set (addrs (sibling f)) \<Longrightarrow>
    frame_at (set_color m a c) par p f = frame_at m par p f"
  "a \<noteq> frame_addr f \<Longrightarrow> a \<notin> set (addrs (sibling f)) \<Longrightarrow>
    frame_at (set_parent m a q) par p f = frame_at m par p f"
  "a \<noteq> frame_addr f \<Longrightarrow> a \<notin> set (addrs (sibling f)) \<Longrightarrow>
    frame_at (set_left m a q) par p f = frame_at m par p f"
  "a \<noteq> frame_addr f \<Longrightarrow> a \<notin> set (addrs (sibling f)) \<Longrightarrow>
    frame_at (set_right m a q) par p f = frame_at m par p f"
  "a \<noteq> frame_addr f \<Longrightarrow> a \<notin> set (addrs (sibling f)) \<Longrightarrow>
    frame_at (set_data m a v) par p f = frame_at m par p f"
  by (cases f; auto)+

lemma path_at_frame [simp]:
  "a \<notin> set (path_addrs fs) \<Longrightarrow> path_at (set_color m a c) header p fs = path_at m header p fs"
  "a \<notin> set (path_addrs fs) \<Longrightarrow> a \<noteq> header \<Longrightarrow>
    path_at (set_parent m a q) header p fs = path_at m header p fs"
  "a \<notin> set (path_addrs fs) \<Longrightarrow> path_at (set_left m a q) header p fs = path_at m header p fs"
  "a \<notin> set (path_addrs fs) \<Longrightarrow> path_at (set_right m a q) header p fs = path_at m header p fs"
  "a \<notin> set (path_addrs fs) \<Longrightarrow> path_at (set_data m a v) header p fs = path_at m header p fs"
  by (induction fs arbitrary: p) (auto simp: frame_at_frame)

lemma focus_up:
  "focus m header (InLeft a c v r # fs) p t \<longleftrightarrow>
    focus m header fs a (Node t a c v r) \<and> node_left m a = p"
  "focus m header (InRight l a c v # fs) p t \<longleftrightarrow>
    focus m header fs a (Node l a c v t) \<and> node_right m a = p"
  by (auto simp: focus_def)

text \<open>A node is the root exactly when nothing lies above it.\<close>

lemma root_top:
  "path_at m header p fs \<Longrightarrow> fs \<noteq> [] \<Longrightarrow> node_parent m header \<in> set (path_addrs fs)"
  by (induction fs arbitrary: p) (auto, case_tac fs, auto)

lemma is_root:
  assumes "focus m header fs p t" "t \<noteq> Leaf"
  shows "p = node_parent m header \<longleftrightarrow> fs = []"
proof (cases fs)
  case Nil then show ?thesis using assms by (simp add: focus_def)
next
  case (Cons f gs)
  then have "node_parent m header \<in> set (path_addrs fs)"
    using assms root_top [of m header p fs] by (simp add: focus_def)
  then show ?thesis using assms Cons by (cases t) (auto simp: focus_def)
qed

lemma focusI:
  assumes "focus m header fs p t" "mset (addrs t') = mset (addrs t)"
    "path_at m' header p' fs" "tree_at m' (above header fs) p' t'"
  shows "focus m' header fs p' t'"
proof -
  have "distinct (header # path_addrs fs @ addrs t') = distinct (header # path_addrs fs @ addrs t)"
    by (rule mset_eq_imp_distinct_iff) (simp add: assms(2))
  then show ?thesis using assms by (simp add: focus_def)
qed

lemma tree_at_link: "tree_at m par p t \<Longrightarrow> x \<notin> set (addrs t) \<Longrightarrow> x \<noteq> 0 \<Longrightarrow> p \<noteq> x"
  by (cases t) auto

lemma other_side:
  "focus m header (InLeft a c v r # fs) p (Node l p c' v' r') \<Longrightarrow> node_left m a = p \<and> node_right m a \<noteq> p"
  "focus m header (InRight l a c v # fs) p (Node l' p c' v' r) \<Longrightarrow> node_right m a = p \<and> node_left m a \<noteq> p"
  using tree_at_link [of m a "node_right m a" r p] tree_at_link [of m a "node_left m a" l p]
  by (auto simp: focus_def)

lemma focus_links:
  "focus m header fs p (Node l p c v r) \<Longrightarrow> node_parent m p = above header fs"
  by (simp add: focus_def)

lemma focus_above:
  "focus m header fs p t \<Longrightarrow> above header fs \<notin> set (addrs t) \<and> header \<notin> set (addrs t)"
  by (cases fs) (auto simp: focus_def)

text \<open>What an algorithm on the nodes of a region leaves alone: every field outside the region
but the header's \<open>parent_\<close>, and all data.\<close>

definition untouched :: "nat \<Rightarrow> nat set \<Rightarrow> 'v rb_nodes \<Rightarrow> 'v rb_nodes \<Rightarrow> bool" where
  "untouched header A m m' \<longleftrightarrow> node_data m' = node_data m \<and>
     (\<forall>a. a \<notin> A \<longrightarrow> node_color m' a = node_color m a \<and> node_left m' a = node_left m a \<and>
        node_right m' a = node_right m a \<and> (a \<noteq> header \<longrightarrow> node_parent m' a = node_parent m a))"

lemma untouched_refl [simp]: "untouched header A m m"
  by (simp add: untouched_def)

lemma untouched_trans:
  "untouched header A m m' \<Longrightarrow> untouched header A m' m'' \<Longrightarrow> untouched header A m m''"
  by (simp add: untouched_def)

lemma untouched_set:
  "a \<in> A \<Longrightarrow> untouched header A m m' \<Longrightarrow> untouched header A m (set_color m' a c)"
  "a \<in> A \<Longrightarrow> untouched header A m m' \<Longrightarrow> untouched header A m (set_left m' a q)"
  "a \<in> A \<Longrightarrow> untouched header A m m' \<Longrightarrow> untouched header A m (set_right m' a q)"
  "a \<in> insert header A \<Longrightarrow> untouched header A m m' \<Longrightarrow> untouched header A m (set_parent m' a q)"
  by (auto simp: untouched_def)

definition region :: "'v frame list \<Rightarrow> 'v shape \<Rightarrow> nat set" where
  "region fs t = set (path_addrs fs) \<union> set (addrs t)"

lemma set_color_ok:
  assumes "focus m header fs a (Node l a c v r)"
  shows "focus (set_color m a c') header fs a (Node l a c' v r)"
  by (rule focusI [OF assms]) (use assms in \<open>auto simp: focus_def\<close>)

lemmas focus_unfold =
  focus_def path_at.simps frame_at.simps tree_at.simps above_simps frame_addr.simps

text \<open>The middle step of a rotation, with the values it reads.\<close>

definition relink_left ::
    "nat \<Rightarrow> nat \<Rightarrow> nat \<Rightarrow> nat \<Rightarrow> nat \<Rightarrow> nat \<Rightarrow> 'v rb_nodes \<Rightarrow> 'v rb_nodes" where
  "relink_left header g x y root side m =
    (if x = root then set_parent m header y
     else if x = side then set_left m g y else set_right m g y)"

definition relink_right ::
    "nat \<Rightarrow> nat \<Rightarrow> nat \<Rightarrow> nat \<Rightarrow> nat \<Rightarrow> nat \<Rightarrow> 'v rb_nodes \<Rightarrow> 'v rb_nodes" where
  "relink_right header g x y root side m =
    (if x = root then set_parent m header y
     else if x = side then set_right m g y else set_left m g y)"

lemma rotate_left_eq:
  assumes "node_right m x = y" "node_left m y = b" "node_parent m x = g"
    "x \<noteq> y" "b = 0 \<or> b \<noteq> x" "header \<noteq> b \<or> b = 0" "header \<noteq> y"
  shows "rb_tree_rotate_left header x m =
    set_parent (set_left (relink_left header g x y (node_parent m header) (node_left m g)
      (set_parent (if b \<noteq> 0 then set_parent (set_right m x b) b x else set_right m x b) y g)) y x) x y"
  using assms by (cases "b = 0") (simp_all add: rb_tree_rotate_left_def relink_left_def Let_def split del: if_split cong del: if_weak_cong)

lemma relink_left_path:
  assumes "focus m header fs x (Node l x c v r)" "path_at m' header x fs"
  shows "path_at (relink_left header (above header fs) x y (node_parent m header)
    (node_left m (above header fs)) m') header y fs"
proof (cases fs)
  case Nil then show ?thesis using assms by (simp add: relink_left_def focus_def)
next
  case (Cons f gs)
  have x: "x \<noteq> node_parent m header" using is_root [OF assms(1)] Cons by simp
  have f: "frame_addr f \<notin> set (addrs (sibling f))" "frame_addr f \<notin> set (path_addrs gs)"
    using assms(1) Cons by (auto simp: focus_def)
  show ?thesis
  proof (cases f)
    case (InLeft g cg vg R)
    then show ?thesis using assms(2) Cons x f other_side(1) [OF assms(1) [unfolded Cons InLeft]]
      by (simp add: relink_left_def)
  next
    case (InRight L g cg vg)
    then show ?thesis using assms(2) Cons x f other_side(2) [OF assms(1) [unfolded Cons InRight]]
      by (simp add: relink_left_def)
  qed
qed

lemma relink_left_frame [simp]:
  "g \<notin> set (addrs t) \<Longrightarrow> header \<notin> set (addrs t) \<Longrightarrow>
    tree_at (relink_left header g x y root side m) par p t = tree_at m par p t"
  "a \<noteq> header \<Longrightarrow> node_parent (relink_left header g x y root side m) a = node_parent m a"
  "a \<noteq> g \<Longrightarrow> node_left (relink_left header g x y root side m) a = node_left m a"
  "a \<noteq> g \<Longrightarrow> node_right (relink_left header g x y root side m) a = node_right m a"
  "node_color (relink_left header g x y root side m) = node_color m"
  "node_data (relink_left header g x y root side m) = node_data m"
  by (simp_all add: relink_left_def)

lemma rotate_left_form:
  assumes "focus m header fs x (Node A x c v (Node B y c' v' C))"
  shows "rb_tree_rotate_left header x m =
    set_parent (set_left (relink_left header (above header fs) x y (node_parent m header)
      (node_left m (above header fs)) (set_parent (if B \<noteq> Leaf
        then set_parent (set_right m x (node_left m y)) (node_left m y) x
        else set_right m x 0) y (above header fs))) y x) x y"
proof -
  note t = assms [unfolded focus_unfold]
  show ?thesis
    by (subst rotate_left_eq [OF _ refl refl, where y = y]; cases B; insert t; simp)
qed

lemma relink_left_untouched:
  "untouched header A m m' \<Longrightarrow> x = root \<or> g \<in> A \<Longrightarrow>
    untouched header A m (relink_left header g x y root side m')"
  by (auto simp: relink_left_def untouched_set)

lemma rotate_left_untouched:
  assumes "focus m header fs x (Node A x c v (Node B y c' v' C))"
  shows "untouched header (region fs (Node A x c v (Node B y c' v' C))) m (rb_tree_rotate_left header x m)"
    (is "untouched header ?A m _")
proof -
  have "B \<noteq> Leaf \<Longrightarrow> node_left m y \<in> ?A"
    using assms by (cases B) (simp_all add: focus_def region_def)
  moreover have "x = node_parent m header \<or> above header fs \<in> ?A"
    using is_root [OF assms] by (cases fs) (auto simp: region_def)
  moreover have "x \<in> ?A" "y \<in> ?A" by (simp_all add: region_def)
  ultimately show ?thesis
    unfolding rotate_left_form [OF assms]
    by (intro untouched_set relink_left_untouched insertI2) (auto intro!: untouched_set)
qed

lemma rotate_left_ok:
  assumes "focus m header fs x (Node A x c v (Node B y c' v' C))"
  shows "focus (rb_tree_rotate_left header x m) header fs y (Node (Node A x c v B) y c' v' C)"
    (is "focus ?m header fs y ?t'")
proof -
  note t = assms [unfolded focus_unfold]
  define m2 where "m2 = set_parent (if B \<noteq> Leaf
    then set_parent (set_right m x (node_left m y)) (node_left m y) x
    else set_right m x 0) y (above header fs)"
  note eq = rotate_left_form [OF assms, folded m2_def]
  have d0: "distinct (header # path_addrs fs @ addrs (Node A x c v (Node B y c' v' C)))"
    using assms by (simp add: focus_def)
  have inB: "B \<noteq> Leaf \<Longrightarrow> node_left m y \<in> set (addrs B)" using t by (cases B) simp_all
  have out: "x \<notin> set (path_addrs fs)" "y \<notin> set (path_addrs fs)" "x \<noteq> header" "y \<noteq> header"
    "B \<noteq> Leaf \<Longrightarrow> node_left m y \<notin> set (path_addrs fs)" "B \<noteq> Leaf \<Longrightarrow> node_left m y \<noteq> header"
    using d0 inB by auto
  have "path_at m2 header x fs"
    using assms out unfolding m2_def by (cases B) (simp_all add: focus_def)
  then have "path_at ?m header y fs"
    unfolding eq using out relink_left_path [OF assms] by simp
  moreover have "tree_at ?m (above header fs) y ?t'"
  proof -
    have g: "above header fs \<notin> set (addrs (Node A x c v (Node B y c' v' C)))"
      "header \<notin> set (addrs (Node A x c v (Node B y c' v' C)))"
      using focus_above [OF assms] by simp_all
    have "distinct (addrs (Node A x c v (Node B y c' v' C)))" using d0 by simp
    note d = this g
    show ?thesis
    proof (cases B)
      case Leaf
      have "x \<noteq> y" "x \<notin> set (addrs A)" "x \<notin> set (addrs C)" "y \<notin> set (addrs A)" "y \<notin> set (addrs C)"
        using d Leaf by auto
      then show ?thesis unfolding eq m2_def Leaf
        using t [unfolded Leaf] g by simp
    next
      case (Node B1 b cb vb B2)
      have n: "x \<noteq> y" "x \<noteq> b" "b \<noteq> y" "y \<noteq> x" "b \<noteq> x" "y \<noteq> b"
        "header \<noteq> x" "header \<noteq> y" "header \<noteq> b"
        "above header fs \<noteq> x" "above header fs \<noteq> y" "above header fs \<noteq> b"
        "x \<noteq> header" "y \<noteq> header" "b \<noteq> header"
        "x \<noteq> above header fs" "y \<noteq> above header fs" "b \<noteq> above header fs"
        using d unfolding Node by auto
      have s: "{x, y, b, header, above header fs} \<inter> set (addrs t) = {}" if "t \<in> {A, B1, B2, C}" for t
        using d Node that by auto
      note s = s [of A, simplified] s [of B1, simplified] s [of B2, simplified] s [of C, simplified]
      have l: "node_right m x = y" "node_left m y = b" "x \<noteq> 0" "y \<noteq> 0" "b \<noteq> 0"
        "tree_at m x (node_left m x) A" "tree_at m b (node_left m b) B1" "tree_at m b (node_right m b) B2"
        "tree_at m y (node_right m y) C"
        "node_color m x = c" "node_color m y = c'" "node_color m b = cb"
        "node_data m x = v" "node_data m y = v'" "node_data m b = vb"
        using t Node by simp_all
      show ?thesis unfolding eq m2_def Node
        by (simp add: n s l)
    qed
  qed
  ultimately show ?thesis by (intro focusI [OF assms]) simp_all
qed

lemma rotate_right_eq:
  assumes "node_left m x = y" "node_right m y = b" "node_parent m x = g"
    "x \<noteq> y" "b = 0 \<or> b \<noteq> x" "header \<noteq> b \<or> b = 0" "header \<noteq> y"
  shows "rb_tree_rotate_right header x m =
    set_parent (set_right (relink_right header g x y (node_parent m header) (node_right m g)
      (set_parent (if b \<noteq> 0 then set_parent (set_left m x b) b x else set_left m x b) y g)) y x) x y"
  using assms by (cases "b = 0") (simp_all add: rb_tree_rotate_right_def relink_right_def Let_def split del: if_split cong del: if_weak_cong)

lemma relink_right_path:
  assumes "focus m header fs x (Node l x c v r)" "path_at m' header x fs"
  shows "path_at (relink_right header (above header fs) x y (node_parent m header)
    (node_right m (above header fs)) m') header y fs"
proof (cases fs)
  case Nil then show ?thesis using assms by (simp add: relink_right_def focus_def)
next
  case (Cons f gs)
  have x: "x \<noteq> node_parent m header" using is_root [OF assms(1)] Cons by simp
  have f: "frame_addr f \<notin> set (addrs (sibling f))" "frame_addr f \<notin> set (path_addrs gs)"
    using assms(1) Cons by (auto simp: focus_def)
  show ?thesis
  proof (cases f)
    case (InLeft g cg vg R)
    then show ?thesis using assms(2) Cons x f other_side(1) [OF assms(1) [unfolded Cons InLeft]]
      by (simp add: relink_right_def)
  next
    case (InRight L g cg vg)
    then show ?thesis using assms(2) Cons x f other_side(2) [OF assms(1) [unfolded Cons InRight]]
      by (simp add: relink_right_def)
  qed
qed

lemma relink_right_frame [simp]:
  "g \<notin> set (addrs t) \<Longrightarrow> header \<notin> set (addrs t) \<Longrightarrow>
    tree_at (relink_right header g x y root side m) par p t = tree_at m par p t"
  "a \<noteq> header \<Longrightarrow> node_parent (relink_right header g x y root side m) a = node_parent m a"
  "a \<noteq> g \<Longrightarrow> node_left (relink_right header g x y root side m) a = node_left m a"
  "a \<noteq> g \<Longrightarrow> node_right (relink_right header g x y root side m) a = node_right m a"
  "node_color (relink_right header g x y root side m) = node_color m"
  "node_data (relink_right header g x y root side m) = node_data m"
  by (simp_all add: relink_right_def)

lemma rotate_right_form:
  assumes "focus m header fs x (Node (Node C y c' v' B) x c v A)"
  shows "rb_tree_rotate_right header x m =
    set_parent (set_right (relink_right header (above header fs) x y (node_parent m header)
      (node_right m (above header fs)) (set_parent (if B \<noteq> Leaf
        then set_parent (set_left m x (node_right m y)) (node_right m y) x
        else set_left m x 0) y (above header fs))) y x) x y"
proof -
  note t = assms [unfolded focus_unfold]
  show ?thesis
    by (subst rotate_right_eq [OF _ refl refl, where y = y]; cases B; insert t; simp)
qed

lemma relink_right_untouched:
  "untouched header A m m' \<Longrightarrow> x = root \<or> g \<in> A \<Longrightarrow>
    untouched header A m (relink_right header g x y root side m')"
  by (auto simp: relink_right_def untouched_set)

lemma rotate_right_untouched:
  assumes "focus m header fs x (Node (Node C y c' v' B) x c v A)"
  shows "untouched header (region fs (Node (Node C y c' v' B) x c v A)) m (rb_tree_rotate_right header x m)"
    (is "untouched header ?A m _")
proof -
  have "B \<noteq> Leaf \<Longrightarrow> node_right m y \<in> ?A"
    using assms by (cases B) (simp_all add: focus_def region_def)
  moreover have "x = node_parent m header \<or> above header fs \<in> ?A"
    using is_root [OF assms] by (cases fs) (auto simp: region_def)
  moreover have "x \<in> ?A" "y \<in> ?A" by (simp_all add: region_def)
  ultimately show ?thesis
    unfolding rotate_right_form [OF assms]
    by (intro untouched_set relink_right_untouched insertI2) (auto intro!: untouched_set)
qed

lemma rotate_right_ok:
  assumes "focus m header fs x (Node (Node C y c' v' B) x c v A)"
  shows "focus (rb_tree_rotate_right header x m) header fs y (Node C y c' v' (Node B x c v A))"
    (is "focus ?m header fs y ?t'")
proof -
  note t = assms [unfolded focus_unfold]
  define m2 where "m2 = set_parent (if B \<noteq> Leaf
    then set_parent (set_left m x (node_right m y)) (node_right m y) x
    else set_left m x 0) y (above header fs)"
  note eq = rotate_right_form [OF assms, folded m2_def]
  have d0: "distinct (header # path_addrs fs @ addrs (Node (Node C y c' v' B) x c v A))"
    using assms by (simp add: focus_def)
  have inB: "B \<noteq> Leaf \<Longrightarrow> node_right m y \<in> set (addrs B)" using t by (cases B) simp_all
  have out: "x \<notin> set (path_addrs fs)" "y \<notin> set (path_addrs fs)" "x \<noteq> header" "y \<noteq> header"
    "B \<noteq> Leaf \<Longrightarrow> node_right m y \<notin> set (path_addrs fs)" "B \<noteq> Leaf \<Longrightarrow> node_right m y \<noteq> header"
    using d0 inB by auto
  have "path_at m2 header x fs"
    using assms out unfolding m2_def by (cases B) (simp_all add: focus_def)
  then have "path_at ?m header y fs"
    unfolding eq using out relink_right_path [OF assms] by simp
  moreover have "tree_at ?m (above header fs) y ?t'"
  proof -
    have g: "above header fs \<notin> set (addrs (Node (Node C y c' v' B) x c v A))"
      "header \<notin> set (addrs (Node (Node C y c' v' B) x c v A))"
      using focus_above [OF assms] by simp_all
    have "distinct (addrs (Node (Node C y c' v' B) x c v A))" using d0 by simp
    note d = this g
    show ?thesis
    proof (cases B)
      case Leaf
      have "x \<noteq> y" "x \<notin> set (addrs A)" "x \<notin> set (addrs C)" "y \<notin> set (addrs A)" "y \<notin> set (addrs C)"
        using d Leaf by auto
      then show ?thesis unfolding eq m2_def Leaf
        using t [unfolded Leaf] g by simp
    next
      case (Node B1 b cb vb B2)
      have n: "x \<noteq> y" "x \<noteq> b" "b \<noteq> y" "y \<noteq> x" "b \<noteq> x" "y \<noteq> b"
        "header \<noteq> x" "header \<noteq> y" "header \<noteq> b"
        "above header fs \<noteq> x" "above header fs \<noteq> y" "above header fs \<noteq> b"
        "x \<noteq> header" "y \<noteq> header" "b \<noteq> header"
        "x \<noteq> above header fs" "y \<noteq> above header fs" "b \<noteq> above header fs"
        using d unfolding Node by auto
      have s: "{x, y, b, header, above header fs} \<inter> set (addrs t) = {}" if "t \<in> {A, B1, B2, C}" for t
        using d Node that by auto
      note s = s [of A, simplified] s [of B1, simplified] s [of B2, simplified] s [of C, simplified]
      have l: "node_left m x = y" "node_right m y = b" "x \<noteq> 0" "y \<noteq> 0" "b \<noteq> 0"
        "tree_at m x (node_right m x) A" "tree_at m b (node_left m b) B1" "tree_at m b (node_right m b) B2"
        "tree_at m y (node_left m y) C"
        "node_color m x = c" "node_color m y = c'" "node_color m b = cb"
        "node_data m x = v" "node_data m y = v'" "node_data m b = vb"
        using t Node by simp_all
      show ?thesis unfolding eq m2_def Node
        by (simp add: n s l)
    qed
  qed
  ultimately show ?thesis by (intro focusI [OF assms]) simp_all
qed

end
