(* ===== verification/RbInsert.thy ===== *)
theory RbInsert
  imports RbNodes
begin

text \<open>
\<open>rb_tree_insert_rebalance\<close> of \<open>include/NeForce/core/container/rb_tree.hpp\<close>, and why the tree is a
red-black tree again when it returns.  The loop is a partial function: \<open>None\<close> is a loop that never
ends, and the theorems show that it does end.
\<close>

section \<open>The code\<close>

partial_function (option) insert_loop ::
    "nat \<Rightarrow> nat \<Rightarrow> 'v rb_nodes \<Rightarrow> 'v rb_nodes option" where
  "insert_loop header ins m =
    (if ins \<noteq> node_parent m header \<and> node_color m (node_parent m ins) = RB_TREE_RED then
       (if node_parent m ins = node_left m (node_parent m (node_parent m ins)) then
          (let y = node_right m (node_parent m (node_parent m ins))
           in if y \<noteq> 0 \<and> node_color m y = RB_TREE_RED then
                (let m1 = set_color m (node_parent m ins) RB_TREE_BLACK;
                     m2 = set_color m1 y RB_TREE_BLACK;
                     m3 = set_color m2 (node_parent m2 (node_parent m2 ins)) RB_TREE_RED
                 in insert_loop header (node_parent m3 (node_parent m3 ins)) m3)
              else
                (let (ins, m) = (if ins = node_right m (node_parent m ins)
                       then (node_parent m ins, rb_tree_rotate_left header (node_parent m ins) m)
                       else (ins, m));
                     m1 = set_color m (node_parent m ins) RB_TREE_BLACK;
                     m2 = set_color m1 (node_parent m1 (node_parent m1 ins)) RB_TREE_RED
                 in insert_loop header ins
                      (rb_tree_rotate_right header (node_parent m2 (node_parent m2 ins)) m2)))
        else
          (let y = node_left m (node_parent m (node_parent m ins))
           in if y \<noteq> 0 \<and> node_color m y = RB_TREE_RED then
                (let m1 = set_color m (node_parent m ins) RB_TREE_BLACK;
                     m2 = set_color m1 y RB_TREE_BLACK;
                     m3 = set_color m2 (node_parent m2 (node_parent m2 ins)) RB_TREE_RED
                 in insert_loop header (node_parent m3 (node_parent m3 ins)) m3)
              else
                (let (ins, m) = (if ins = node_left m (node_parent m ins)
                       then (node_parent m ins, rb_tree_rotate_right header (node_parent m ins) m)
                       else (ins, m));
                     m1 = set_color m (node_parent m ins) RB_TREE_BLACK;
                     m2 = set_color m1 (node_parent m1 (node_parent m1 ins)) RB_TREE_RED
                 in insert_loop header ins
                      (rb_tree_rotate_left header (node_parent m2 (node_parent m2 ins)) m2))))
     else Some m)"

definition rb_tree_insert_rebalance ::
    "nat \<Rightarrow> nat \<Rightarrow> 'v rb_nodes \<Rightarrow> 'v rb_nodes option" where
  "rb_tree_insert_rebalance header ins m =
    (case insert_loop header ins (set_color m ins RB_TREE_RED) of
       None \<Rightarrow> None
     | Some m \<Rightarrow> Some (set_color m (node_parent m header) RB_TREE_BLACK))"

section \<open>Red-black trees\<close>

primrec top_black :: "'v shape \<Rightarrow> bool" where
  "top_black Leaf = True"
| "top_black (Node l a c v r) = c"

primrec blacks :: "'v shape \<Rightarrow> nat" where
  "blacks Leaf = 0"
| "blacks (Node l a c v r) = blacks l + (if c then 1 else 0)"

primrec level :: "'v shape \<Rightarrow> bool" where
  "level Leaf = True"
| "level (Node l a c v r) \<longleftrightarrow> blacks l = blacks r \<and> level l \<and> level r"

primrec no_red_red :: "'v shape \<Rightarrow> bool" where
  "no_red_red Leaf = True"
| "no_red_red (Node l a c v r) \<longleftrightarrow>
    (\<not> c \<longrightarrow> top_black l \<and> top_black r) \<and> no_red_red l \<and> no_red_red r"

definition subtree_ok :: "'v shape \<Rightarrow> bool" where
  "subtree_ok t \<longleftrightarrow> level t \<and> no_red_red t"

definition red_black :: "'v shape \<Rightarrow> bool" where
  "red_black t \<longleftrightarrow> level t \<and> no_red_red t \<and> top_black t"

text \<open>The part of the tree around a node whose subtree has \<open>n\<close> black nodes on each branch.\<close>

primrec path_ok :: "nat \<Rightarrow> 'v frame list \<Rightarrow> bool" where
  "path_ok n [] = True"
| "path_ok n (f # fs) \<longleftrightarrow> subtree_ok (sibling f) \<and> blacks (sibling f) = n \<and>
    (\<not> frame_color f \<longrightarrow> top_black (sibling f) \<and> fs \<noteq> [] \<and> frame_color (hd fs)) \<and>
    path_ok (n + (if frame_color f then 1 else 0)) fs"

lemma subtree_ok_simps [simp]:
  "subtree_ok Leaf"
  "subtree_ok (Node l a c v r) \<longleftrightarrow> blacks l = blacks r \<and> subtree_ok l \<and> subtree_ok r \<and>
    (\<not> c \<longrightarrow> top_black l \<and> top_black r)"
  by (auto simp: subtree_ok_def)

lemma plug_red_black:
  "path_ok (blacks t) fs \<Longrightarrow> subtree_ok t \<Longrightarrow> fs = [] \<or> top_black t \<or> frame_color (hd fs) \<Longrightarrow>
    subtree_ok (plug fs t) \<and> (fs \<noteq> [] \<longrightarrow> top_black (plug fs t))"
proof (induction fs arbitrary: t)
  case (Cons f fs)
  then show ?case
    by (cases f; cases fs) (auto split: if_splits)
qed simp

text \<open>The entries of the whole tree around a subtree, and its nodes.\<close>

primrec before :: "'v frame list \<Rightarrow> (nat \<times> 'v) list" where
  "before [] = []"
| "before (f # fs) = before fs @ (case f of InLeft a c v r \<Rightarrow> [] | InRight l a c v \<Rightarrow> entries l @ [(a, v)])"

primrec after :: "'v frame list \<Rightarrow> (nat \<times> 'v) list" where
  "after [] = []"
| "after (f # fs) = (case f of InLeft a c v r \<Rightarrow> (a, v) # entries r | InRight l a c v \<Rightarrow> []) @ after fs"

lemma entries_plug: "entries (plug fs t) = before fs @ entries t @ after fs"
proof (induction fs arbitrary: t)
  case (Cons f fs)
  then show ?case by (cases f) auto
qed simp

lemma set_addrs: "set (addrs t) = fst ` set (entries t)"
  by (induction t) auto

lemma region_plug: "region fs t = set (addrs (plug fs t))"
proof (induction fs arbitrary: t)
  case (Cons f fs)
  then show ?case by (cases f) (auto simp: region_def simp flip: Cons.IH)
qed (simp add: region_def)

lemma focus_plug: "focus m header fs p t \<Longrightarrow> \<exists>q. focus m header [] q (plug fs t)"
proof (induction fs arbitrary: p t)
  case (Cons f fs)
  then show ?case by (cases f) (auto simp: focus_up)
qed auto

section \<open>Looking and working one or two levels down\<close>

primrec root_addr :: "'v shape \<Rightarrow> nat" where
  "root_addr Leaf = 0"
| "root_addr (Node l a c v r) = a"

lemma tree_at_root: "tree_at m par p t \<Longrightarrow> p = root_addr t"
  by (cases t) auto

lemma focus_reads:
  assumes "focus m header fs a (Node l a c v r)"
  shows "node_parent m a = above header fs" "node_color m a = c" "node_data m a = v"
    "node_left m a = root_addr l" "node_right m a = root_addr r" "a \<noteq> 0" "a \<noteq> header"
    "node_parent m header = a \<longleftrightarrow> fs = []"
    "distinct (addrs (Node l a c v r))" "0 \<notin> set (addrs (Node l a c v r))"
proof -
  have z: "tree_at m par p t \<Longrightarrow> 0 \<notin> set (addrs t)" for par p t
    by (induction t arbitrary: par p) auto
  show "node_left m a = root_addr l" "node_right m a = root_addr r"
    "0 \<notin> set (addrs (Node l a c v r))"
    using assms by (auto simp: focus_def dest: tree_at_root z)
  show "node_parent m header = a \<longleftrightarrow> fs = []" using is_root [OF assms] by auto
qed (use assms in \<open>auto simp: focus_def\<close>)

lemma focus_down_left:
  "focus m header fs a (Node l a c v r) \<Longrightarrow> focus m header (InLeft a c v r # fs) (root_addr l) l"
  using focus_reads(4) [of m header fs a l c v r] by (simp add: focus_up)

lemma focus_down_right:
  "focus m header fs a (Node l a c v r) \<Longrightarrow> focus m header (InRight l a c v # fs) (root_addr r) r"
  using focus_reads(5) [of m header fs a l c v r] by (simp add: focus_up)

lemma recolor_left:
  "focus m header fs g (Node (Node a p c v b) g cg vg u) \<Longrightarrow>
    focus (set_color m p c') header fs g (Node (Node a p c' v b) g cg vg u)"
  by (drule focus_down_left, simp, drule set_color_ok [where c' = c'], simp add: focus_up)

lemma recolor_right:
  "focus m header fs g (Node u g cg vg (Node a p c v b)) \<Longrightarrow>
    focus (set_color m p c') header fs g (Node u g cg vg (Node a p c' v b))"
  by (drule focus_down_right, simp, drule set_color_ok [where c' = c'], simp add: focus_up)

lemma rotate_left_child_left:
  "focus m header fs g (Node (Node A x c v (Node B y c' v' C)) g cg vg u) \<Longrightarrow>
    focus (rb_tree_rotate_left header x m) header fs g
      (Node (Node (Node A x c v B) y c' v' C) g cg vg u)"
  by (drule focus_down_left, simp, drule rotate_left_ok, simp add: focus_up)

lemma rotate_right_child_right:
  "focus m header fs g (Node u g cg vg (Node (Node A y c' v' B) x c v C)) \<Longrightarrow>
    focus (rb_tree_rotate_right header x m) header fs g
      (Node u g cg vg (Node A y c' v' (Node B x c v C)))"
  by (drule focus_down_right, simp, drule rotate_right_ok, simp add: focus_up)

lemma rotate_left_child_right:
  "focus m header fs g (Node u g cg vg (Node A x c v (Node B y c' v' C))) \<Longrightarrow>
    focus (rb_tree_rotate_left header x m) header fs g
      (Node u g cg vg (Node (Node A x c v B) y c' v' C))"
  by (drule focus_down_right, simp, drule rotate_left_ok, simp add: focus_up)

lemma rotate_right_child_left:
  "focus m header fs g (Node (Node (Node A y c' v' B) x c v C) g cg vg u) \<Longrightarrow>
    focus (rb_tree_rotate_right header x m) header fs g
      (Node (Node A y c' v' (Node B x c v C)) g cg vg u)"
  by (drule focus_down_left, simp, drule rotate_right_ok, simp add: focus_up)

lemma root_addr_other: "i \<notin> set (addrs t) \<Longrightarrow> i \<noteq> 0 \<Longrightarrow> i \<noteq> root_addr t"
  by (cases t) auto

lemma step_uncle_left:
  assumes F: "focus m header fs g (Node (Node a p False vp b) g True vg (Node ul y False vy ur))"
    and i: "node_parent m i = p" "i \<noteq> node_parent m header"
  shows "\<exists>m'. insert_loop header i m = insert_loop header g m' \<and>
    focus m' header fs g (Node (Node a p True vp b) g False vg (Node ul y True vy ur)) \<and>
    untouched header (region fs (Node (Node a p False vp b) g True vg (Node ul y False vy ur))) m m'"
proof -
  define m1 where "m1 = set_color m p RB_TREE_BLACK"
  define m2 where "m2 = set_color m1 y RB_TREE_BLACK"
  define m3 where "m3 = set_color m2 g RB_TREE_RED"
  note g = focus_reads [OF F]
  note p = focus_reads [OF focus_down_left [OF F, simplified root_addr.simps], simplified]
  note y = focus_reads [OF focus_down_right [OF F, simplified root_addr.simps], simplified]
  have "focus m3 header fs g (Node (Node a p True vp b) g False vg (Node ul y True vy ur))"
    unfolding m3_def m2_def m1_def RB_TREE_RED_def RB_TREE_BLACK_def
    by (rule set_color_ok, rule recolor_right, rule recolor_left, rule F)
  moreover have "insert_loop header i m = insert_loop header g m3"
    using i g p y unfolding m3_def m2_def m1_def
    by (subst insert_loop.simps) (simp add: Let_def RB_TREE_RED_def RB_TREE_BLACK_def)
  moreover have "untouched header (region fs (Node (Node a p False vp b) g True vg (Node ul y False vy ur))) m m3"
    unfolding m3_def m2_def m1_def by (simp add: untouched_set region_def)
  ultimately show ?thesis by blast
qed

lemma step_outer_left:
  assumes F: "focus m header fs g (Node (Node (Node l i False v r) p False vp b) g True vg u)"
    and u: "top_black u"
  shows "\<exists>m'. insert_loop header i m = insert_loop header i m' \<and>
    focus m' header fs p (Node (Node l i False v r) p True vp (Node b g False vg u)) \<and>
    untouched header (region fs (Node (Node (Node l i False v r) p False vp b) g True vg u)) m m'"
proof -
  define m1 where "m1 = set_color m p RB_TREE_BLACK"
  define m2 where "m2 = set_color m1 g RB_TREE_RED"
  define m3 where "m3 = rb_tree_rotate_right header g m2"
  note G = focus_reads [OF F]
  note P = focus_reads [OF focus_down_left [OF F, simplified root_addr.simps], simplified]
  note I = focus_reads [OF focus_down_left [OF focus_down_left [OF F, simplified root_addr.simps], simplified root_addr.simps], simplified]
  have R: "i \<noteq> node_parent m header" "i \<noteq> 0" "p \<noteq> 0"
    using I(6,8) P(6) by auto
  have U: "root_addr u \<noteq> 0 \<Longrightarrow> node_color m (root_addr u)"
    using u focus_down_right [OF F] by (cases u) (auto dest: focus_reads)
  have B: "i \<noteq> root_addr b" "p \<noteq> root_addr u"
    using G(9) I(6) P(6) by (simp_all add: root_addr_other)
  have F2: "focus m2 header fs g (Node (Node (Node l i False v r) p True vp b) g False vg u)"
    unfolding m2_def m1_def RB_TREE_RED_def RB_TREE_BLACK_def
    by (rule set_color_ok, rule recolor_left, rule F)
  then have "focus m3 header fs p (Node (Node l i False v r) p True vp (Node b g False vg u))"
    unfolding m3_def by (rule rotate_right_ok)
  moreover have "insert_loop header i m = insert_loop header i m3"
    using R B U unfolding m3_def m2_def m1_def
    by (subst insert_loop.simps; cases "root_addr u = 0") (simp_all add: R G P(1-7) I(1-8) Let_def RB_TREE_RED_def RB_TREE_BLACK_def)
  moreover have "untouched header (region fs (Node (Node (Node l i False v r) p False vp b) g True vg u)) m m3"
  proof (rule untouched_trans)
    show "untouched header (region fs (Node (Node (Node l i False v r) p False vp b) g True vg u)) m m2"
      unfolding m2_def m1_def by (simp add: untouched_set region_def)
    show "untouched header (region fs (Node (Node (Node l i False v r) p False vp b) g True vg u)) m2 m3"
      using rotate_right_untouched [OF F2] unfolding m3_def by (simp add: region_def)
  qed
  ultimately show ?thesis by blast
qed

lemma step_inner_left:
  assumes F: "focus m header fs g (Node (Node a p False vp (Node l i False v r)) g True vg u)"
    and u: "top_black u"
  shows "\<exists>m'. insert_loop header i m = insert_loop header p m' \<and>
    focus m' header fs i (Node (Node a p False vp l) i True v (Node r g False vg u)) \<and>
    untouched header (region fs (Node (Node a p False vp (Node l i False v r)) g True vg u)) m m'"
proof -
  define m0 where "m0 = rb_tree_rotate_left header p m"
  define m1 where "m1 = set_color m0 i RB_TREE_BLACK"
  define m2 where "m2 = set_color m1 g RB_TREE_RED"
  define m3 where "m3 = rb_tree_rotate_right header g m2"
  note G = focus_reads [OF F]
  note P = focus_reads [OF focus_down_left [OF F, simplified root_addr.simps], simplified]
  note I = focus_reads [OF focus_down_right [OF focus_down_left [OF F, simplified root_addr.simps], simplified root_addr.simps], simplified]
  have R: "i \<noteq> node_parent m header" "i \<noteq> 0" "p \<noteq> 0"
    using I(6,8) P(6) by auto
  have U: "root_addr u \<noteq> 0 \<Longrightarrow> node_color m (root_addr u)"
    using u focus_down_right [OF F] by (cases u) (auto dest: focus_reads)
  have B: "p \<noteq> root_addr u"
    using G(9) P(6) by (simp_all add: root_addr_other)
  have F0: "focus m0 header fs g (Node (Node (Node a p False vp l) i False v r) g True vg u)"
    unfolding m0_def by (rule rotate_left_child_left [OF F])
  note G0 = focus_reads [OF F0]
  note I0 = focus_reads [OF focus_down_left [OF F0, simplified root_addr.simps], simplified]
  note P0 = focus_reads [OF focus_down_left [OF focus_down_left [OF F0, simplified root_addr.simps], simplified root_addr.simps], simplified]
  have F2: "focus m2 header fs g (Node (Node (Node a p False vp l) i True v r) g False vg u)"
    unfolding m2_def m1_def RB_TREE_RED_def RB_TREE_BLACK_def
    by (rule set_color_ok, rule recolor_left, rule F0)
  then have "focus m3 header fs i (Node (Node a p False vp l) i True v (Node r g False vg u))"
    unfolding m3_def by (rule rotate_right_ok)
  moreover have "insert_loop header i m = insert_loop header p m3"
    using R U unfolding m3_def m2_def m1_def
    by (subst insert_loop.simps; cases "root_addr u = 0") (simp_all add: R G P(1-7) I(1-8) G0(1-8) I0(1-8) P0(1-8) B Let_def
      RB_TREE_RED_def RB_TREE_BLACK_def flip: m0_def)
  moreover have "untouched header (region fs (Node (Node a p False vp (Node l i False v r)) g True vg u)) m m3"
    (is "untouched header ?A m m3")
  proof (rule untouched_trans [OF untouched_trans])
    show "untouched header ?A m m0"
      using rotate_left_untouched [OF focus_down_left [OF F, simplified root_addr.simps]] unfolding m0_def
      by (simp add: region_def insert_commute Un_ac)
    show "untouched header ?A m0 m2"
      unfolding m2_def m1_def by (simp add: untouched_set region_def)
    show "untouched header ?A m2 m3"
      using rotate_right_untouched [OF F2] unfolding m3_def
      by (simp add: region_def insert_commute Un_ac)
  qed
  ultimately show ?thesis by blast
qed

lemma step_uncle_right:
  assumes F: "focus m header fs g (Node (Node ur y False vy ul) g True vg (Node b p False vp a))"
    and i: "node_parent m i = p" "i \<noteq> node_parent m header"
  shows "\<exists>m'. insert_loop header i m = insert_loop header g m' \<and>
    focus m' header fs g (Node (Node ur y True vy ul) g False vg (Node b p True vp a)) \<and>
    untouched header (region fs (Node (Node ur y False vy ul) g True vg (Node b p False vp a))) m m'"
proof -
  define m1 where "m1 = set_color m p RB_TREE_BLACK"
  define m2 where "m2 = set_color m1 y RB_TREE_BLACK"
  define m3 where "m3 = set_color m2 g RB_TREE_RED"
  note g = focus_reads [OF F]
  note p = focus_reads [OF focus_down_right [OF F, simplified root_addr.simps], simplified]
  note y = focus_reads [OF focus_down_left [OF F, simplified root_addr.simps], simplified]
  have "focus m3 header fs g (Node (Node ur y True vy ul) g False vg (Node b p True vp a))"
    unfolding m3_def m2_def m1_def RB_TREE_RED_def RB_TREE_BLACK_def
    by (rule set_color_ok, rule recolor_left, rule recolor_right, rule F)
  moreover have "insert_loop header i m = insert_loop header g m3"
    using i g p y unfolding m3_def m2_def m1_def
    by (subst insert_loop.simps) (simp add: Let_def RB_TREE_RED_def RB_TREE_BLACK_def)
  moreover have "untouched header (region fs (Node (Node ur y False vy ul) g True vg (Node b p False vp a))) m m3"
    unfolding m3_def m2_def m1_def by (simp add: untouched_set region_def)
  ultimately show ?thesis by blast
qed

lemma step_outer_right:
  assumes F: "focus m header fs g (Node u g True vg (Node b p False vp (Node r i False v l)))"
    and u: "top_black u"
  shows "\<exists>m'. insert_loop header i m = insert_loop header i m' \<and>
    focus m' header fs p (Node (Node u g False vg b) p True vp (Node r i False v l)) \<and>
    untouched header (region fs (Node u g True vg (Node b p False vp (Node r i False v l)))) m m'"
proof -
  define m1 where "m1 = set_color m p RB_TREE_BLACK"
  define m2 where "m2 = set_color m1 g RB_TREE_RED"
  define m3 where "m3 = rb_tree_rotate_left header g m2"
  note G = focus_reads [OF F]
  note P = focus_reads [OF focus_down_right [OF F, simplified root_addr.simps], simplified]
  note I = focus_reads [OF focus_down_right [OF focus_down_right [OF F, simplified root_addr.simps], simplified root_addr.simps], simplified]
  have R: "i \<noteq> node_parent m header" "i \<noteq> 0" "p \<noteq> 0"
    using I(6,8) P(6) by auto
  have U: "root_addr u \<noteq> 0 \<Longrightarrow> node_color m (root_addr u)"
    using u focus_down_left [OF F] by (cases u) (auto dest: focus_reads)
  have B: "i \<noteq> root_addr b" "p \<noteq> root_addr u"
    using G(9) I(6) P(6) by (simp_all add: root_addr_other)
  have F2: "focus m2 header fs g (Node u g False vg (Node b p True vp (Node r i False v l)))"
    unfolding m2_def m1_def RB_TREE_RED_def RB_TREE_BLACK_def
    by (rule set_color_ok, rule recolor_right, rule F)
  then have "focus m3 header fs p (Node (Node u g False vg b) p True vp (Node r i False v l))"
    unfolding m3_def by (rule rotate_left_ok)
  moreover have "insert_loop header i m = insert_loop header i m3"
    using R B U unfolding m3_def m2_def m1_def
    by (subst insert_loop.simps; cases "root_addr u = 0") (simp_all add: R G P(1-7) I(1-8) Let_def RB_TREE_RED_def RB_TREE_BLACK_def)
  moreover have "untouched header (region fs (Node u g True vg (Node b p False vp (Node r i False v l)))) m m3"
  proof (rule untouched_trans)
    show "untouched header (region fs (Node u g True vg (Node b p False vp (Node r i False v l)))) m m2"
      unfolding m2_def m1_def by (simp add: untouched_set region_def)
    show "untouched header (region fs (Node u g True vg (Node b p False vp (Node r i False v l)))) m2 m3"
      using rotate_left_untouched [OF F2] unfolding m3_def by (simp add: region_def)
  qed
  ultimately show ?thesis by blast
qed

lemma step_inner_right:
  assumes F: "focus m header fs g (Node u g True vg (Node (Node r i False v l) p False vp a))"
    and u: "top_black u"
  shows "\<exists>m'. insert_loop header i m = insert_loop header p m' \<and>
    focus m' header fs i (Node (Node u g False vg r) i True v (Node l p False vp a)) \<and>
    untouched header (region fs (Node u g True vg (Node (Node r i False v l) p False vp a))) m m'"
proof -
  define m0 where "m0 = rb_tree_rotate_right header p m"
  define m1 where "m1 = set_color m0 i RB_TREE_BLACK"
  define m2 where "m2 = set_color m1 g RB_TREE_RED"
  define m3 where "m3 = rb_tree_rotate_left header g m2"
  note G = focus_reads [OF F]
  note P = focus_reads [OF focus_down_right [OF F, simplified root_addr.simps], simplified]
  note I = focus_reads [OF focus_down_left [OF focus_down_right [OF F, simplified root_addr.simps], simplified root_addr.simps], simplified]
  have R: "i \<noteq> node_parent m header" "i \<noteq> 0" "p \<noteq> 0"
    using I(6,8) P(6) by auto
  have U: "root_addr u \<noteq> 0 \<Longrightarrow> node_color m (root_addr u)"
    using u focus_down_left [OF F] by (cases u) (auto dest: focus_reads)
  have B: "p \<noteq> root_addr u"
    using G(9) P(6) by (simp_all add: root_addr_other)
  have F0: "focus m0 header fs g (Node u g True vg (Node r i False v (Node l p False vp a)))"
    unfolding m0_def by (rule rotate_right_child_right [OF F])
  note G0 = focus_reads [OF F0]
  note I0 = focus_reads [OF focus_down_right [OF F0, simplified root_addr.simps], simplified]
  note P0 = focus_reads [OF focus_down_right [OF focus_down_right [OF F0, simplified root_addr.simps], simplified root_addr.simps], simplified]
  have F2: "focus m2 header fs g (Node u g False vg (Node r i True v (Node l p False vp a)))"
    unfolding m2_def m1_def RB_TREE_RED_def RB_TREE_BLACK_def
    by (rule set_color_ok, rule recolor_right, rule F0)
  then have "focus m3 header fs i (Node (Node u g False vg r) i True v (Node l p False vp a))"
    unfolding m3_def by (rule rotate_left_ok)
  moreover have "insert_loop header i m = insert_loop header p m3"
    using R U unfolding m3_def m2_def m1_def
    by (subst insert_loop.simps; cases "root_addr u = 0") (simp_all add: R G P(1-7) I(1-8) G0(1-8) I0(1-8) P0(1-8) B Let_def
      RB_TREE_RED_def RB_TREE_BLACK_def flip: m0_def)
  moreover have "untouched header (region fs (Node u g True vg (Node (Node r i False v l) p False vp a))) m m3"
    (is "untouched header ?A m m3")
  proof (rule untouched_trans [OF untouched_trans])
    show "untouched header ?A m m0"
      using rotate_right_untouched [OF focus_down_right [OF F, simplified root_addr.simps]] unfolding m0_def
      by (simp add: region_def insert_commute Un_ac)
    show "untouched header ?A m0 m2"
      unfolding m2_def m1_def by (simp add: untouched_set region_def)
    show "untouched header ?A m2 m3"
      using rotate_left_untouched [OF F2] unfolding m3_def
      by (simp add: region_def insert_commute Un_ac)
  qed
  ultimately show ?thesis by blast
qed

section \<open>The loop restores the invariant\<close>

lemma region_entries: "region fs t = fst ` set (entries (plug fs t))"
  by (simp add: region_plug set_addrs)

lemma insert_loop_stop:
  assumes "focus m header fs i (Node l i c v r)" "fs = [] \<or> frame_color (hd fs)"
  shows "insert_loop header i m = Some m"
proof (cases fs)
  case Nil
  then show ?thesis using focus_reads(8) [OF assms(1)] by (subst insert_loop.simps) simp
next
  case (Cons f gs)
  have "node_color m (frame_addr f) = frame_color f"
    using assms(1) unfolding Cons by (cases f) (auto simp: focus_def)
  then show ?thesis using assms(2) Cons focus_reads(1) [OF assms(1)]
    by (subst insert_loop.simps) (simp add: RB_TREE_RED_def)
qed

definition rebalanced :: "nat \<Rightarrow> 'v rb_nodes \<Rightarrow> 'v shape \<Rightarrow> 'v rb_nodes option \<Rightarrow> bool" where
  "rebalanced header m t res \<longleftrightarrow> (\<exists>m' q t'. res = Some m' \<and> focus m' header [] q t' \<and>
    entries t' = entries t \<and> subtree_ok t' \<and> untouched header (set (addrs t)) m m')"

lemma rebalanced_stop:
  assumes "focus m header fs p t" "insert_loop header i m = Some m" "path_ok (blacks t) fs"
    "subtree_ok t" "fs = [] \<or> top_black t \<or> frame_color (hd fs)"
  shows "rebalanced header m (plug fs t) (insert_loop header i m)"
  unfolding rebalanced_def using focus_plug [OF assms(1)] assms(2) plug_red_black [OF assms(3-5)]
  by auto

lemma rebalanced_step:
  assumes "untouched header (region fs t) m m'" "entries t' = entries t"
    "rebalanced header m' (plug fs t') (insert_loop header i' m')"
    "insert_loop header i m = insert_loop header i' m'"
  shows "rebalanced header m (plug fs t) (insert_loop header i m)"
proof -
  have "entries (plug fs t') = entries (plug fs t)" by (simp add: entries_plug assms(2))
  moreover have "set (addrs (plug fs t')) = set (addrs (plug fs t))"
    unfolding set_addrs by (simp add: entries_plug assms(2))
  ultimately show ?thesis
    using assms(1,3,4) unfolding rebalanced_def region_plug by (auto intro: untouched_trans)
qed

lemma insert_loop_ok:
  "focus m header fs i (Node l i False v r) \<Longrightarrow> subtree_ok (Node l i False v r) \<Longrightarrow>
    path_ok (blacks l) fs \<Longrightarrow>
    rebalanced header m (plug fs (Node l i False v r)) (insert_loop header i m)"
proof (induction "length fs" arbitrary: m fs i l v r rule: less_induct)
  case less
  note F = less.prems(1) and ok = less.prems(2) and path = less.prems(3)
  show ?case
  proof (cases "fs = [] \<or> frame_color (hd fs)")
    case True
    show ?thesis
      by (rule rebalanced_stop [OF F insert_loop_stop [OF F True]]) (use True ok path in auto)
  next
    case False
    then obtain f f2 fs2 where fs: "fs = f # f2 # fs2" and c: "\<not> frame_color f" "frame_color f2"
      using path by (cases fs; cases "tl fs") auto
    have root: "i \<noteq> node_parent m header" "node_parent m i = frame_addr f"
      using focus_reads(1,8) [OF F] fs by auto
    have red: "rebalanced header m (plug fs2 t) (insert_loop header i m)"
      if "\<exists>m'. insert_loop header i m = insert_loop header g m' \<and>
          focus m' header fs2 g (Node l' g False v' r') \<and> untouched header (region fs2 t) m m'"
        "entries (Node l' g False v' r') = entries t" "subtree_ok (Node l' g False v' r')"
        "path_ok (blacks l') fs2" for g l' v' r' t
    proof -
      note step = that(1)
      obtain m' where m': "insert_loop header i m = insert_loop header g m'"
        "focus m' header fs2 g (Node l' g False v' r')" "untouched header (region fs2 t) m m'"
        using step by blast
      show ?thesis
        by (rule rebalanced_step [OF m'(3) that(2) less.hyps [OF _ m'(2) that(3,4)] m'(1)])
          (simp add: fs)
    qed
    have black: "rebalanced header m (plug fs2 t) (insert_loop header i m)"
      if "\<exists>m'. insert_loop header i m = insert_loop header i' m' \<and>
          focus m' header fs2 p (Node (Node l1 p1 c1 v1 r1) p True v' (Node l2 p2 c2 v2 r2)) \<and>
          untouched header (region fs2 t) m m'"
        "i' = p1 \<or> i' = p2"
        "entries (Node (Node l1 p1 c1 v1 r1) p True v' (Node l2 p2 c2 v2 r2)) = entries t"
        "subtree_ok (Node (Node l1 p1 c1 v1 r1) p True v' (Node l2 p2 c2 v2 r2))"
        "path_ok (blacks (Node l1 p1 c1 v1 r1) + 1) fs2" for p l1 p1 c1 v1 r1 v' l2 p2 c2 v2 r2 t i'
    proof -
      note step = that(1)
      obtain m' where m': "insert_loop header i m = insert_loop header i' m'"
        "focus m' header fs2 p (Node (Node l1 p1 c1 v1 r1) p True v' (Node l2 p2 c2 v2 r2))"
        "untouched header (region fs2 t) m m'"
        using step by blast
      have "insert_loop header i' m' = Some m'"
        using that(2) insert_loop_stop [OF focus_down_left [OF m'(2), simplified root_addr.simps]]
          insert_loop_stop [OF focus_down_right [OF m'(2), simplified root_addr.simps]] by auto
      then show ?thesis
        by (intro rebalanced_step [OF m'(3) that(3) rebalanced_stop [OF m'(2) _ _ that(4)] m'(1)])
          (use that(5) in simp_all)
    qed
    show ?thesis
    proof (cases f2)
      case (InLeft g cg vg u)
      then have [simp]: "cg" using c by simp
      show ?thesis
      proof (cases f)
        case (InLeft p cp vp b)
        then have [simp]: "\<not> cp" using c by simp
        have F': "focus m header fs2 g (Node (Node (Node l i False v r) p False vp b) g True vg u)"
          using F by (simp add: fs \<open>f2 = _\<close> InLeft focus_up)
        show ?thesis
        proof (cases "top_black u")
          case True
          show ?thesis unfolding fs \<open>f2 = _\<close> InLeft plug.simps plug_frame.simps
            using black [OF step_outer_left [OF F' True]] ok path
            by (simp add: fs \<open>f2 = _\<close> InLeft True)
        next
          case False
          then obtain ul y vy ur where u: "u = Node ul y False vy ur" by (cases u) auto
          show ?thesis unfolding fs \<open>f2 = _\<close> InLeft plug.simps plug_frame.simps
            using red [OF step_uncle_left [OF F' [unfolded u]]] ok path root
            by (auto simp: fs \<open>f2 = _\<close> InLeft u)
        qed
      next
        case (InRight a p cp vp)
        then have [simp]: "\<not> cp" using c by simp
        have F': "focus m header fs2 g (Node (Node a p False vp (Node l i False v r)) g True vg u)"
          using F by (simp add: fs \<open>f2 = _\<close> InRight focus_up)
        show ?thesis
        proof (cases "top_black u")
          case True
          show ?thesis unfolding fs \<open>f2 = _\<close> InRight plug.simps plug_frame.simps
            using black [OF step_inner_left [OF F' True]] ok path
            by (simp add: fs \<open>f2 = _\<close> InRight True)
        next
          case False
          then obtain ul y vy ur where u: "u = Node ul y False vy ur" by (cases u) auto
          show ?thesis unfolding fs \<open>f2 = _\<close> InRight plug.simps plug_frame.simps
            using red [OF step_uncle_left [OF F' [unfolded u]]] ok path root
            by (auto simp: fs \<open>f2 = _\<close> InRight u)
        qed
      qed
    next
      case (InRight u g cg vg)
      then have [simp]: "cg" using c by simp
      show ?thesis
      proof (cases f)
        case (InRight a p cp vp)
        then have [simp]: "\<not> cp" using c by simp
        have F': "focus m header fs2 g (Node u g True vg (Node a p False vp (Node l i False v r)))"
          using F by (simp add: fs \<open>f2 = _\<close> InRight focus_up)
        show ?thesis
        proof (cases "top_black u")
          case True
          show ?thesis unfolding fs \<open>f2 = _\<close> InRight plug.simps plug_frame.simps
            using black [OF step_outer_right [OF F' True]] ok path
            by (simp add: fs \<open>f2 = _\<close> InRight True)
        next
          case False
          then obtain ul y vy ur where u: "u = Node ul y False vy ur" by (cases u) auto
          show ?thesis unfolding fs \<open>f2 = _\<close> InRight plug.simps plug_frame.simps
            using red [OF step_uncle_right [OF F' [unfolded u]]] ok path root
            by (auto simp: fs \<open>f2 = _\<close> InRight u)
        qed
      next
        case (InLeft p cp vp b)
        then have [simp]: "\<not> cp" using c by simp
        have F': "focus m header fs2 g (Node u g True vg (Node (Node l i False v r) p False vp b))"
          using F by (simp add: fs \<open>f2 = _\<close> InLeft focus_up)
        show ?thesis
        proof (cases "top_black u")
          case True
          show ?thesis unfolding fs \<open>f2 = _\<close> InLeft plug.simps plug_frame.simps
            using black [OF step_inner_right [OF F' True]] ok path
            by (simp add: fs \<open>f2 = _\<close> InLeft True)
        next
          case False
          then obtain ul y vy ur where u: "u = Node ul y False vy ur" by (cases u) auto
          show ?thesis unfolding fs \<open>f2 = _\<close> InLeft plug.simps plug_frame.simps
            using red [OF step_uncle_right [OF F' [unfolded u]]] ok path root
            by (auto simp: fs \<open>f2 = _\<close> InLeft u)
        qed
      qed
    qed
  qed
qed

lemma insert_rebalance_ok:
  assumes "focus m header fs i (Node Leaf i c v Leaf)" "path_ok 0 fs"
  shows "\<exists>m' q t. rb_tree_insert_rebalance header i m = Some m' \<and> focus m' header [] q t \<and>
    entries t = entries (plug fs (Node Leaf i c v Leaf)) \<and> red_black t \<and>
    untouched header (set (addrs (plug fs (Node Leaf i c v Leaf)))) m m'"
proof -
  let ?t = "plug fs (Node Leaf i c v Leaf)"
  have F: "focus (set_color m i RB_TREE_RED) header fs i (Node Leaf i False v Leaf)"
    using set_color_ok [OF assms(1), of False] by (simp add: RB_TREE_RED_def)
  have e: "entries (plug fs (Node Leaf i False v Leaf)) = entries ?t" by (simp add: entries_plug)
  have a: "set (addrs (plug fs (Node Leaf i False v Leaf))) = set (addrs ?t)"
    unfolding set_addrs e ..
  obtain m' q t where m': "insert_loop header i (set_color m i RB_TREE_RED) = Some m'"
    "focus m' header [] q t" "entries t = entries ?t" "subtree_ok t"
    "untouched header (set (addrs ?t)) (set_color m i RB_TREE_RED) m'"
    using insert_loop_ok [OF F] assms(2) unfolding rebalanced_def e a by auto
  have i: "i \<in> set (addrs ?t)" unfolding region_plug [symmetric] region_def by simp
  obtain l x cx vx r where t: "t = Node l x cx vx r"
    using m'(3) by (cases t) (auto simp: entries_plug)
  have x: "node_parent m' header = x" "q = x"
    using m'(2) t by (auto simp: focus_def)
  have "x \<in> set (addrs ?t)"
    unfolding set_addrs m'(3) [symmetric] t by simp
  then have "untouched header (set (addrs ?t)) m (set_color m' x RB_TREE_BLACK)"
    using i m'(5) by (intro untouched_set untouched_trans [OF _ m'(5)]) (auto simp: untouched_set)
  moreover have "red_black (Node l x True vx r)"
    using m'(4) by (auto simp: t red_black_def subtree_ok_def)
  moreover have "focus (set_color m' x RB_TREE_BLACK) header [] x (Node l x True vx r)"
    using set_color_ok [OF m'(2) [unfolded t x]] unfolding RB_TREE_BLACK_def .
  ultimately show ?thesis
    unfolding rb_tree_insert_rebalance_def m'(1) using x(1) m'(3) t by fastforce
qed

end
