(* ===== verification/RbTree.thy ===== *)
theory RbTree
  imports RbInsert
begin

text \<open>
The class \<open>rb_tree\<close> of \<open>include/NeForce/core/container/rb_tree.hpp\<close>, on which \<open>map\<close>, \<open>set\<close>,
\<open>multimap\<close> and \<open>multiset\<close> are built: its node pool, iterators, searches and insertions.  The header is
a node whose \<open>parent_\<close>, \<open>left_\<close> and \<open>right_\<close> are the root, the leftmost and the rightmost node.  An
iterator is the address it holds.  The comparator and the key extractor are members, as in the class.
Where a node is created, the address that the allocator would hand out is an argument.
\<close>

section \<open>State\<close>

record ('k, 'v) rb_tree =
  rt_nodes :: "'v rb_nodes"
  rt_header :: nat
  rt_compare :: "'k \<Rightarrow> 'k \<Rightarrow> bool"
  rt_key :: "'v \<Rightarrow> 'k"
  rt_size :: nat
  rt_free :: nat
  rt_chunks :: nat

definition rt_root :: "('k, 'v) rb_tree \<Rightarrow> nat" where
  "rt_root s = node_parent (rt_nodes s) (rt_header s)"

definition rt_leftmost :: "('k, 'v) rb_tree \<Rightarrow> nat" where
  "rt_leftmost s = node_left (rt_nodes s) (rt_header s)"

definition rt_rightmost :: "('k, 'v) rb_tree \<Rightarrow> nat" where
  "rt_rightmost s = node_right (rt_nodes s) (rt_header s)"

definition key_at :: "('k, 'v) rb_tree \<Rightarrow> nat \<Rightarrow> 'k" where
  "key_at s a = rt_key s (node_data (rt_nodes s) a)"

definition header_init :: "('k, 'v) rb_tree \<Rightarrow> nat \<Rightarrow> ('k, 'v) rb_tree" where
  "header_init s a =
    (let m = set_color (rt_nodes s) a RB_TREE_RED;
         m = set_parent m a 0;
         m = set_left m a a;
         m = set_right m a a
     in s\<lparr>rt_nodes := m, rt_header := a\<rparr>)"

section \<open>The node pool\<close>

definition node_chunk_size :: nat where
  "node_chunk_size = 64"

primrec thread_chunk :: "nat \<Rightarrow> nat \<Rightarrow> ('k, 'v) rb_tree \<Rightarrow> ('k, 'v) rb_tree" where
  "thread_chunk chunk 0 s = s"
| "thread_chunk chunk (Suc i) s = thread_chunk chunk i
    (s\<lparr>rt_nodes := set_right (rt_nodes s) (chunk + Suc i) (rt_free s), rt_free := chunk + Suc i\<rparr>)"

definition reserve_nodes :: "nat \<Rightarrow> ('k, 'v) rb_tree \<Rightarrow> ('k, 'v) rb_tree" where
  "reserve_nodes chunk s = thread_chunk chunk node_chunk_size
    (s\<lparr>rt_nodes := set_right (rt_nodes s) chunk (rt_chunks s), rt_chunks := chunk\<rparr>)"

definition create_node :: "nat \<Rightarrow> 'v \<Rightarrow> ('k, 'v) rb_tree \<Rightarrow> nat \<times> ('k, 'v) rb_tree" where
  "create_node chunk v s =
    (let s = (if rt_free s = 0 then reserve_nodes chunk s else s);
         tmp = rt_free s;
         s = s\<lparr>rt_free := node_right (rt_nodes s) tmp\<rparr>
     in (tmp, s\<lparr>rt_nodes := set_data (rt_nodes s) tmp v\<rparr>))"

definition destroy_node :: "nat \<Rightarrow> ('k, 'v) rb_tree \<Rightarrow> ('k, 'v) rb_tree" where
  "destroy_node ptr s =
    (if ptr = 0 then s
     else s\<lparr>rt_nodes := set_right (rt_nodes s) ptr (rt_free s), rt_free := ptr\<rparr>)"

section \<open>Iterators\<close>

partial_function (option) climb_right :: "'v rb_nodes \<Rightarrow> nat \<Rightarrow> nat \<Rightarrow> (nat \<times> nat) option" where
  "climb_right m node y =
    (if node = node_right m y then climb_right m y (node_parent m y) else Some (node, y))"

definition iter_increment :: "'v rb_nodes \<Rightarrow> nat \<Rightarrow> nat option" where
  "iter_increment m node =
    (if node_right m node \<noteq> 0 then min_loop m (node_right m node)
     else (case climb_right m node (node_parent m node) of
             None \<Rightarrow> None
           | Some (node, y) \<Rightarrow> Some (if node_right m node \<noteq> y then y else node)))"

partial_function (option) climb_left :: "'v rb_nodes \<Rightarrow> nat \<Rightarrow> nat \<Rightarrow> (nat \<times> nat) option" where
  "climb_left m node y =
    (if node = node_left m y then climb_left m y (node_parent m y) else Some (node, y))"

definition iter_decrement :: "'v rb_nodes \<Rightarrow> nat \<Rightarrow> nat option" where
  "iter_decrement m node =
    (if node_color m node = RB_TREE_RED \<and> node_parent m node \<noteq> 0 \<and>
        node_parent m (node_parent m node) = node then Some (node_right m node)
     else if node_left m node \<noteq> 0 then max_loop m (node_left m node)
     else if node_parent m node = 0 then Some node
     else (case climb_left m node (node_parent m node) of
             None \<Rightarrow> None
           | Some (node, y) \<Rightarrow> Some y))"

definition rt_begin :: "('k, 'v) rb_tree \<Rightarrow> nat" where
  "rt_begin s = rt_leftmost s"

definition rt_end :: "('k, 'v) rb_tree \<Rightarrow> nat" where
  "rt_end s = rt_header s"

section \<open>Searching\<close>

partial_function (option) lower_loop :: "('k, 'v) rb_tree \<Rightarrow> 'k \<Rightarrow> nat \<Rightarrow> nat \<Rightarrow> nat option" where
  "lower_loop s k x y =
    (if x \<noteq> 0 then
       (if \<not> rt_compare s (key_at s x) k then lower_loop s k (node_left (rt_nodes s) x) x
        else lower_loop s k (node_right (rt_nodes s) x) y)
     else Some y)"

partial_function (option) upper_loop :: "('k, 'v) rb_tree \<Rightarrow> 'k \<Rightarrow> nat \<Rightarrow> nat \<Rightarrow> nat option" where
  "upper_loop s k x y =
    (if x \<noteq> 0 then
       (if rt_compare s k (key_at s x) then upper_loop s k (node_left (rt_nodes s) x) x
        else upper_loop s k (node_right (rt_nodes s) x) y)
     else Some y)"

definition rt_lower_bound :: "('k, 'v) rb_tree \<Rightarrow> 'k \<Rightarrow> nat option" where
  "rt_lower_bound s k = lower_loop s k (rt_root s) (rt_header s)"

definition rt_upper_bound :: "('k, 'v) rb_tree \<Rightarrow> 'k \<Rightarrow> nat option" where
  "rt_upper_bound s k = upper_loop s k (rt_root s) (rt_header s)"

definition rt_equal_range :: "('k, 'v) rb_tree \<Rightarrow> 'k \<Rightarrow> (nat \<times> nat) option" where
  "rt_equal_range s k = (case (rt_lower_bound s k, rt_upper_bound s k) of
     (Some l, Some u) \<Rightarrow> Some (l, u) | _ \<Rightarrow> None)"

definition rt_find :: "('k, 'v) rb_tree \<Rightarrow> 'k \<Rightarrow> nat option" where
  "rt_find s k = (case lower_loop s k (rt_root s) (rt_header s) of
     None \<Rightarrow> None
   | Some y \<Rightarrow> Some (if y = rt_header s \<or> rt_compare s k (key_at s y) then rt_end s else y))"

definition rt_contains :: "('k, 'v) rb_tree \<Rightarrow> 'k \<Rightarrow> bool option" where
  "rt_contains s k = (case lower_loop s k (rt_root s) (rt_header s) of
     None \<Rightarrow> None
   | Some y \<Rightarrow> Some (y \<noteq> rt_header s \<and> \<not> rt_compare s k (key_at s y)))"

text \<open>\<open>successor\<close> is the increment of the iterators over again.\<close>

definition successor :: "'v rb_nodes \<Rightarrow> nat \<Rightarrow> nat option" where
  "successor m ptr =
    (if node_right m ptr \<noteq> 0 then min_loop m (node_right m ptr)
     else (case climb_right m ptr (node_parent m ptr) of
             None \<Rightarrow> None
           | Some (ptr, parent) \<Rightarrow> Some (if node_right m ptr \<noteq> parent then parent else ptr)))"

partial_function (option) count_loop :: "('k, 'v) rb_tree \<Rightarrow> 'k \<Rightarrow> nat \<Rightarrow> nat \<Rightarrow> nat option" where
  "count_loop s k y n =
    (if y \<noteq> rt_header s \<and> \<not> rt_compare s k (key_at s y) then
       (case successor (rt_nodes s) y of None \<Rightarrow> None | Some y \<Rightarrow> count_loop s k y (n + 1))
     else Some n)"

definition rt_count :: "('k, 'v) rb_tree \<Rightarrow> 'k \<Rightarrow> nat option" where
  "rt_count s k = (case lower_loop s k (rt_root s) (rt_header s) of
     None \<Rightarrow> None
   | Some y \<Rightarrow>
       (if y = rt_header s \<or> rt_compare s k (key_at s y) then Some 0
        else (case successor (rt_nodes s) y of None \<Rightarrow> None | Some y \<Rightarrow> count_loop s k y 1)))"

section \<open>Insertion\<close>

definition finish_insert :: "nat \<Rightarrow> ('k, 'v) rb_tree \<Rightarrow> 'v rb_nodes \<Rightarrow> (nat \<times> ('k, 'v) rb_tree) option" where
  "finish_insert ptr s m =
    (case rb_tree_insert_rebalance (rt_header s) ptr m of
       None \<Rightarrow> None
     | Some m \<Rightarrow> Some (ptr, s\<lparr>rt_nodes := m, rt_size := rt_size s + 1\<rparr>))"

definition insert_into ::
    "nat \<Rightarrow> nat \<Rightarrow> nat \<Rightarrow> ('k, 'v) rb_tree \<Rightarrow> (nat \<times> ('k, 'v) rb_tree) option" where
  "insert_into x y ptr s =
    (let m = rt_nodes s; h = rt_header s;
         m = (if y = h \<or> x \<noteq> 0 \<or> rt_compare s (key_at s ptr) (key_at s y) then
                (let m = set_left m y ptr
                 in if y = h then set_right (set_left (set_parent m h ptr) h ptr) h ptr
                    else if y = node_left m h then set_left m h ptr
                    else m)
              else
                (let m = set_right m y ptr
                 in if y = node_right m h then set_right m h ptr else m));
         m = set_parent m ptr y;
         m = set_left m ptr 0;
         m = set_right m ptr 0
     in finish_insert ptr s m)"

partial_function (option) descend ::
    "('k, 'v) rb_tree \<Rightarrow> 'k \<Rightarrow> nat \<Rightarrow> nat \<Rightarrow> bool \<Rightarrow> (nat \<times> bool) option" where
  "descend s k x y cmp =
    (if x \<noteq> 0 then
       (let cmp = rt_compare s k (key_at s x)
        in descend s k (if cmp then node_left (rt_nodes s) x else node_right (rt_nodes s) x) x cmp)
     else Some (y, cmp))"

definition insert_unique ::
    "nat \<Rightarrow> ('k, 'v) rb_tree \<Rightarrow> ((nat \<times> bool) \<times> ('k, 'v) rb_tree) option" where
  "insert_unique node s =
    (let link = (\<lambda>y. case insert_into 0 y node s of
                     None \<Rightarrow> None | Some (a, s) \<Rightarrow> Some ((a, True), s));
         check = (\<lambda>y j. if rt_compare s (key_at s j) (key_at s node) then link y
                        else Some ((j, False), destroy_node node s))
     in case descend s (key_at s node) (rt_root s) (rt_header s) True of
          None \<Rightarrow> None
        | Some (y, cmp) \<Rightarrow>
            (if cmp then
               (if y = rt_begin s then link y
                else (case iter_decrement (rt_nodes s) y of None \<Rightarrow> None | Some j \<Rightarrow> check y j))
             else check y y))"

definition insert_equal :: "nat \<Rightarrow> ('k, 'v) rb_tree \<Rightarrow> (nat \<times> ('k, 'v) rb_tree) option" where
  "insert_equal node s =
    (case descend s (key_at s node) (rt_root s) (rt_header s) True of
       None \<Rightarrow> None
     | Some (y, cmp) \<Rightarrow> insert_into 0 y node s)"

definition emplace_unique ::
    "nat \<Rightarrow> 'v \<Rightarrow> ('k, 'v) rb_tree \<Rightarrow> ((nat \<times> bool) \<times> ('k, 'v) rb_tree) option" where
  "emplace_unique chunk v s = (let (tmp, s) = create_node chunk v s in insert_unique tmp s)"

definition emplace_equal :: "nat \<Rightarrow> 'v \<Rightarrow> ('k, 'v) rb_tree \<Rightarrow> (nat \<times> ('k, 'v) rb_tree) option" where
  "emplace_equal chunk v s = (let (tmp, s) = create_node chunk v s in insert_equal tmp s)"

section \<open>The invariant\<close>

definition entry_key :: "('k, 'v) rb_tree \<Rightarrow> nat \<times> 'v \<Rightarrow> 'k" where
  "entry_key s e = rt_key s (snd e)"

definition in_order :: "('k, 'v) rb_tree \<Rightarrow> (nat \<times> 'v) list \<Rightarrow> bool" where
  "in_order s es \<longleftrightarrow> sorted_wrt (\<lambda>d e. \<not> rt_compare s (entry_key s e) (entry_key s d)) es"

primrec free_at :: "'v rb_nodes \<Rightarrow> nat \<Rightarrow> nat list \<Rightarrow> bool" where
  "free_at m p [] \<longleftrightarrow> p = 0"
| "free_at m p (a # as) \<longleftrightarrow> p = a \<and> a \<noteq> 0 \<and> free_at m (node_right m a) as"

definition first_addr :: "nat \<Rightarrow> (nat \<times> 'v) list \<Rightarrow> nat" where
  "first_addr h es = (if es = [] then h else fst (hd es))"

definition last_addr :: "nat \<Rightarrow> (nat \<times> 'v) list \<Rightarrow> nat" where
  "last_addr h es = (if es = [] then h else fst (last es))"

definition rt_holds :: "('k, 'v) rb_tree \<Rightarrow> 'v shape \<Rightarrow> bool" where
  "rt_holds s t \<longleftrightarrow> focus (rt_nodes s) (rt_header s) [] (rt_root s) t \<and> red_black t \<and>
     node_color (rt_nodes s) (rt_header s) = RB_TREE_RED \<and>
     rt_leftmost s = first_addr (rt_header s) (entries t) \<and>
     rt_rightmost s = last_addr (rt_header s) (entries t) \<and>
     rt_size s = length (entries t)"

definition rt_pool :: "('k, 'v) rb_tree \<Rightarrow> 'v shape \<Rightarrow> nat list \<Rightarrow> bool" where
  "rt_pool s t free \<longleftrightarrow> free_at (rt_nodes s) (rt_free s) free \<and>
     distinct (rt_header s # addrs t @ free)"

definition rt_inv :: "('k, 'v) rb_tree \<Rightarrow> 'v shape \<Rightarrow> nat list \<Rightarrow> bool" where
  "rt_inv s t free \<longleftrightarrow> strict_weak_order (rt_compare s) \<and> rt_holds s t \<and>
     in_order s (entries t) \<and> rt_pool s t free"

lemma first_addr_simps [simp]:
  "first_addr h [] = h" "first_addr h (e # es) = fst e"
  "first_addr h (es @ ds) = first_addr (first_addr h ds) es"
  by (auto simp: first_addr_def)

lemma last_addr_simps [simp]:
  "last_addr h [] = h" "last_addr h [e] = fst e" "last_addr h (es @ ds) = last_addr (last_addr h es) ds"
  "last_addr h (e # es) = last_addr (fst e) es"
  by (auto simp: last_addr_def)

section \<open>Searches\<close>

lemma key_at_node: "tree_at (rt_nodes s) par a (Node l a c v r) \<Longrightarrow> key_at s a = rt_key s v"
  by (simp add: key_at_def)

lemma in_order_append:
  "in_order s (ds @ es) \<longleftrightarrow> in_order s ds \<and> in_order s es \<and>
    (\<forall>d \<in> set ds. \<forall>e \<in> set es. \<not> rt_compare s (entry_key s e) (entry_key s d))"
  by (simp add: in_order_def sorted_wrt_append)

lemma in_order_Cons:
  "in_order s (d # es) \<longleftrightarrow> (\<forall>e \<in> set es. \<not> rt_compare s (entry_key s e) (entry_key s d)) \<and>
    in_order s es"
  by (simp add: in_order_def)

lemma in_order_prefix:
  assumes "strict_weak_order (rt_compare s)"
    "\<not> rt_compare s (entry_key s e) (entry_key s d)"
  shows "rt_compare s (entry_key s e) k \<Longrightarrow> rt_compare s (entry_key s d) k"
    "rt_compare s k (entry_key s d) \<Longrightarrow> rt_compare s k (entry_key s e)"
  using assms swo_neg_trans by metis+

lemma lower_loop_ok:
  "tree_at (rt_nodes s) par x t \<Longrightarrow> strict_weak_order (rt_compare s) \<Longrightarrow> in_order s (entries t) \<Longrightarrow>
    lower_loop s k x y =
      Some (first_addr y (dropWhile (\<lambda>e. rt_compare s (entry_key s e) k) (entries t)))"
proof (induction t arbitrary: par x y)
  case Leaf
  then show ?case by (subst lower_loop.simps) simp
next
  case (Node l a c v r)
  have key: "key_at s x = entry_key s (a, v)"
    using key_at_node Node.prems(1) by (simp add: entry_key_def key_at_def)
  have ord: "in_order s (entries l)" "in_order s (entries r)"
    using Node.prems(3) by (auto simp: in_order_append in_order_Cons)
  have l: "tree_at (rt_nodes s) a (node_left (rt_nodes s) x) l"
    "tree_at (rt_nodes s) a (node_right (rt_nodes s) x) r" "x \<noteq> 0" "x = a"
    using Node.prems(1) by auto
  show ?case
  proof (cases "rt_compare s (entry_key s (a, v)) k")
    case True
    have "\<forall>e \<in> set (entries l). rt_compare s (entry_key s e) k"
      using Node.prems(2,3) True in_order_prefix(1) [of s "(a, v)" _ k]
      by (auto simp: in_order_append)
    then show ?thesis
      using True key l Node.IH(2) [OF l(2) Node.prems(2) ord(2)]
      by (subst lower_loop.simps) (simp add: dropWhile_append2)
  next
    case False
    then show ?thesis
      using key l Node.IH(1) [OF l(1) Node.prems(2) ord(1)]
      by (subst lower_loop.simps) (auto simp: dropWhile_append3 dropWhile_append first_addr_def)
  qed
qed

lemma upper_loop_ok:
  "tree_at (rt_nodes s) par x t \<Longrightarrow> strict_weak_order (rt_compare s) \<Longrightarrow> in_order s (entries t) \<Longrightarrow>
    upper_loop s k x y =
      Some (first_addr y (dropWhile (\<lambda>e. \<not> rt_compare s k (entry_key s e)) (entries t)))"
proof (induction t arbitrary: par x y)
  case Leaf
  then show ?case by (subst upper_loop.simps) simp
next
  case (Node l a c v r)
  have key: "key_at s x = entry_key s (a, v)"
    using key_at_node Node.prems(1) by (simp add: entry_key_def key_at_def)
  have ord: "in_order s (entries l)" "in_order s (entries r)"
    using Node.prems(3) by (auto simp: in_order_append in_order_Cons)
  have l: "tree_at (rt_nodes s) a (node_left (rt_nodes s) x) l"
    "tree_at (rt_nodes s) a (node_right (rt_nodes s) x) r" "x \<noteq> 0" "x = a"
    using Node.prems(1) by auto
  show ?case
  proof (cases "rt_compare s k (entry_key s (a, v))")
    case False
    have "\<forall>e \<in> set (entries l). \<not> rt_compare s k (entry_key s e)"
      using Node.prems(2,3) False in_order_prefix(2) [of s "(a, v)" _ k]
      by (auto simp: in_order_append)
    then show ?thesis
      using False key l Node.IH(2) [OF l(2) Node.prems(2) ord(2)]
      by (subst upper_loop.simps) (simp add: dropWhile_append2)
  next
    case True
    then show ?thesis
      using key l Node.IH(1) [OF l(1) Node.prems(2) ord(1)]
      by (subst upper_loop.simps) (auto simp: dropWhile_append3 dropWhile_append first_addr_def)
  qed
qed

section \<open>Walking the tree\<close>

lemma min_loop_ok:
  "tree_at m par p t \<Longrightarrow> t \<noteq> Leaf \<Longrightarrow> min_loop m p = Some (first_addr h (entries t))"
proof (induction t arbitrary: par p h)
  case (Node l a c v r)
  show ?case
  proof (cases l)
    case Leaf
    then show ?thesis using Node.prems by (subst min_loop.simps) simp
  next
    case l: (Node l1 b d w l2)
    have "min_loop m (node_left m a) = Some (first_addr a (entries l))"
      using Node.IH(1) [of a "node_left m a" a] Node.prems(1) l by simp
    moreover have "p = a" "node_left m a \<noteq> 0" using Node.prems(1) l by auto
    ultimately show ?thesis by (subst min_loop.simps) simp
  qed
qed simp

lemma max_loop_ok:
  "tree_at m par p t \<Longrightarrow> t \<noteq> Leaf \<Longrightarrow> max_loop m p = Some (last_addr h (entries t))"
proof (induction t arbitrary: par p h)
  case (Node l a c v r)
  show ?case
  proof (cases r)
    case Leaf
    then show ?thesis using Node.prems by (subst max_loop.simps) simp
  next
    case r: (Node r1 b d w r2)
    have "max_loop m (node_right m a) = Some (last_addr a (entries r))"
      using Node.IH(2) [of a "node_right m a" a] Node.prems(1) r by simp
    moreover have "p = a" "node_right m a \<noteq> 0" using Node.prems(1) r by auto
    ultimately show ?thesis by (subst max_loop.simps) simp
  qed
qed simp

lemma climb_right_ok:
  "focus m h fs p (Node l p c v r) \<Longrightarrow> after fs \<noteq> [] \<Longrightarrow>
    \<exists>q. climb_right m p (above h fs) = Some (q, first_addr h (after fs)) \<and>
      node_right m q \<noteq> first_addr h (after fs)"
proof (induction fs arbitrary: p l c v r)
  case (Cons f fs)
  show ?case
  proof (cases f)
    case (InLeft a d w u)
    have "node_right m a \<noteq> p" using other_side(1) [OF Cons.prems(1) [unfolded InLeft]] by simp
    moreover have "node_right m p \<noteq> a"
    proof -
      have "a \<notin> set (addrs r)" "a \<noteq> 0" using Cons.prems(1) InLeft by (auto simp: focus_def)
      then show ?thesis
        using root_addr_other focus_reads(5) [OF Cons.prems(1)] by metis
    qed
    ultimately show ?thesis using InLeft by (subst climb_right.simps) auto
  next
    case (InRight u a d w)
    have "node_right m a = p" using Cons.prems(1) InRight by (simp add: focus_up)
    moreover have up: "focus m h fs a (Node u a d w (Node l p c v r))"
      using Cons.prems(1) InRight by (simp add: focus_up)
    moreover have "node_parent m a = above h fs" using focus_reads(1) [OF up] .
    ultimately show ?thesis
      using Cons.IH [OF up] Cons.prems(2) InRight by (subst climb_right.simps) simp
  qed
qed simp

lemma climb_right_end:
  "focus m h fs p (Node l p c v r) \<Longrightarrow> after fs = [] \<Longrightarrow> fs \<noteq> [] \<or> node_right m h \<noteq> p \<Longrightarrow>
    node_right m h \<notin> frame_addr ` set fs \<Longrightarrow>
    climb_right m p (above h fs) = Some (node_parent m h, h)"
proof (induction fs arbitrary: p l c v r)
  case Nil
  then show ?case
    using focus_reads(8) [OF Nil(1)] by (subst climb_right.simps) auto
next
  case (Cons f fs)
  then obtain u a d w where f: "f = InRight u a d w" by (cases f) auto
  have "node_right m a = p" using Cons.prems(1) f by (simp add: focus_up)
  moreover have up: "focus m h fs a (Node u a d w (Node l p c v r))"
    using Cons.prems(1) f by (simp add: focus_up)
  moreover have "node_parent m a = above h fs" using focus_reads(1) [OF up] .
  ultimately show ?case
    using Cons.IH [OF up] Cons.prems(2,4) f by (subst climb_right.simps) auto
qed

lemma climb_left_ok:
  "focus m h fs p (Node l p c v r) \<Longrightarrow> before fs \<noteq> [] \<Longrightarrow>
    \<exists>q. climb_left m p (above h fs) = Some (q, last_addr h (before fs))"
proof (induction fs arbitrary: p l c v r)
  case (Cons f fs)
  show ?case
  proof (cases f)
    case (InRight u a d w)
    have "node_left m a \<noteq> p" using other_side(2) [OF Cons.prems(1) [unfolded InRight]] by simp
    then show ?thesis using InRight by (subst climb_left.simps) auto
  next
    case (InLeft a d w u)
    have "node_left m a = p" using Cons.prems(1) InLeft by (simp add: focus_up)
    moreover have up: "focus m h fs a (Node (Node l p c v r) a d w u)"
      using Cons.prems(1) InLeft by (simp add: focus_up)
    moreover have "node_parent m a = above h fs" using focus_reads(1) [OF up] .
    ultimately show ?thesis
      using Cons.IH [OF up] Cons.prems(2) InLeft by (subst climb_left.simps) simp
  qed
qed simp

lemma above_in: "above h fs \<in> insert h (set (path_addrs fs))"
  by (cases fs) auto

lemma frame_addrs: "frame_addr ` set fs \<subseteq> set (path_addrs fs)"
  by (induction fs) auto

lemma increment_ok:
  assumes F: "focus m h fs a (Node l a c v r)"
    and right: "node_right m h = last_addr h (entries (plug fs (Node l a c v r)))"
  shows "iter_increment m a = Some (first_addr h (entries r @ after fs))"
proof (cases r)
  case (Node r1 b d w r2)
  have "tree_at m a (node_right m a) r" "node_right m a \<noteq> 0"
    using F Node by (auto simp: focus_def)
  then show ?thesis using min_loop_ok [of m a "node_right m a" r "first_addr h (after fs)"] Node
    by (simp add: iter_increment_def)
next
  case Leaf
  note reads = focus_reads [OF F]
  show ?thesis
  proof (cases "after fs = []")
    case False
    then show ?thesis using climb_right_ok [OF F] reads Leaf by (auto simp: iter_increment_def)
  next
    case True
    have last: "node_right m h = a" using right True Leaf by (simp add: entries_plug)
    show ?thesis
    proof (cases "fs = []")
      case True
      have "h \<noteq> 0" using F by (simp add: focus_def)
      then have "climb_right m a h = Some (h, a)"
        using True last reads Leaf by (subst climb_right.simps, subst climb_right.simps) auto
      then show ?thesis using True last reads Leaf by (simp add: iter_increment_def)
    next
      case fs: False
      have "a \<notin> set (path_addrs fs)" using F by (auto simp: focus_def)
      then have out: "node_right m h \<notin> frame_addr ` set fs" using frame_addrs last by blast
      obtain q t where q: "focus m h [] q t" "t = plug fs (Node l a c v r)"
        using focus_plug [OF F] by blast
      have "node_right m (node_parent m h) \<noteq> h"
      proof (cases t)
        case Leaf
        then have "entries t = []" by simp
        then show ?thesis using q(2) by (simp add: entries_plug)
      next
        case (Node t1 b d w t2)
        have b: "q = b" "node_parent m h = b" using q(1) Node by (auto simp: focus_def)
        have "node_right m b = root_addr t2" using focus_reads(5) q(1) Node b by metis
        moreover have "h \<notin> set (addrs t2)" "h \<noteq> 0" using q(1) Node by (auto simp: focus_def)
        ultimately show ?thesis using root_addr_other b(2) by metis
      qed
      then show ?thesis
        using climb_right_end [OF F True disjI1 [OF fs] out] reads Leaf True
        by (simp add: iter_increment_def)
    qed
  qed
qed

lemma successor_increment: "successor = iter_increment"
  by (rule ext)+ (simp add: successor_def iter_increment_def)

lemma decrement_ok:
  assumes F: "focus m h fs a (Node l a c v r)" and "before fs @ entries l \<noteq> []"
    and black: "fs = [] \<Longrightarrow> c"
  shows "iter_decrement m a = Some (last_addr h (before fs @ entries l))"
proof -
  note reads = focus_reads [OF F]
  have no_header: "\<not> (node_color m a = RB_TREE_RED \<and> node_parent m a \<noteq> 0 \<and>
    node_parent m (node_parent m a) = a)"
  proof (cases fs)
    case Nil
    then show ?thesis using black reads(2) by (simp add: RB_TREE_RED_def)
  next
    case (Cons f gs)
    have "node_parent m (frame_addr f) = above h gs"
      using F Cons by (cases f) (auto simp: focus_def)
    moreover have "above h gs \<noteq> a"
    proof -
      have "a \<noteq> h" "a \<notin> set (path_addrs gs)" using F Cons by (auto simp: focus_def)
      then show ?thesis using above_in [of h gs] by auto
    qed
    ultimately show ?thesis using reads(1) Cons by auto
  qed
  show ?thesis
  proof (cases l)
    case (Node l1 b d w l2)
    have "tree_at m a (node_left m a) l" "node_left m a \<noteq> 0"
      using F Node by (auto simp: focus_def)
    then show ?thesis using max_loop_ok [of m a "node_left m a" l "last_addr h (before fs)"] Node no_header
      unfolding iter_decrement_def by auto
  next
    case Leaf
    have "above h fs \<noteq> 0" using F by (cases fs; cases "hd fs") (auto simp: focus_def)
    then show ?thesis
      using climb_left_ok [OF F] assms(2) Leaf reads no_header
      unfolding iter_decrement_def by auto
  qed
qed

lemma decrement_end:
  assumes F: "focus m h [] q t" and "t \<noteq> Leaf" "node_color m h = RB_TREE_RED"
    and "node_right m h = last_addr h (entries t)"
  shows "iter_decrement m h = Some (last_addr h (entries t))"
proof -
  have "node_parent m h \<noteq> 0" "node_parent m (node_parent m h) = h"
    using assms by (cases t; auto simp: focus_def)+
  then show ?thesis using assms by (simp add: iter_decrement_def)
qed

section \<open>The place of a new entry\<close>

definition goes_left :: "'v frame list \<Rightarrow> bool" where
  "goes_left fs = (case fs of [] \<Rightarrow> True | f # _ \<Rightarrow> (case f of InLeft a c v r \<Rightarrow> True | InRight l a c v \<Rightarrow> False))"

definition splits_at :: "('k, 'v) rb_tree \<Rightarrow> 'k \<Rightarrow> 'v frame list \<Rightarrow> bool" where
  "splits_at s k fs \<longleftrightarrow> (\<forall>d \<in> set (before fs). \<not> rt_compare s k (entry_key s d)) \<and>
    (\<forall>e \<in> set (after fs). rt_compare s k (entry_key s e))"

lemma descend_ok:
  "focus (rt_nodes s) h fs p t \<Longrightarrow> strict_weak_order (rt_compare s) \<Longrightarrow> in_order s (entries t) \<Longrightarrow>
    splits_at s k fs \<Longrightarrow> path_ok (blacks t) fs \<Longrightarrow> subtree_ok t \<Longrightarrow>
    top_black t \<or> fs \<noteq> [] \<and> frame_color (hd fs) \<Longrightarrow> cmp = goes_left fs \<Longrightarrow>
    \<exists>gs. descend s k p (above h fs) cmp = Some (above h gs, goes_left gs) \<and>
      focus (rt_nodes s) h gs 0 Leaf \<and> plug gs Leaf = plug fs t \<and> splits_at s k gs \<and> path_ok 0 gs"
proof (induction t arbitrary: fs p cmp)
  case Leaf
  then show ?case by (subst descend.simps) (auto simp: focus_def)
next
  case (Node l a c v r)
  have p: "p = a" "p \<noteq> 0" "key_at s p = entry_key s (a, v)"
    using Node.prems(1) by (auto simp: focus_def entry_key_def key_at_def)
  note F = Node.prems(1) [unfolded p(1)]
  show ?case
  proof (cases "rt_compare s k (entry_key s (a, v))")
    case True
    have "\<forall>e \<in> set (entries r). rt_compare s k (entry_key s e)"
      using Node.prems(2,3) True in_order_prefix(2) [of s _ "(a, v)" k]
      by (auto simp: in_order_append in_order_Cons)
    then have "splits_at s k (InLeft a c v r # fs)"
      using Node.prems(4) True by (auto simp: splits_at_def)
    moreover have "in_order s (entries l)" using Node.prems(3) by (simp add: in_order_append)
    moreover have "path_ok (blacks l) (InLeft a c v r # fs)" "subtree_ok l" "top_black l \<or> c"
      using Node.prems(5-7) by auto
    ultimately show ?thesis
      using Node.IH(1) [OF focus_down_left [OF F] Node.prems(2), of True] True p focus_reads(4) [OF F]
      by (subst descend.simps) (simp add: goes_left_def)
  next
    case False
    have "\<forall>d \<in> set (entries l). \<not> rt_compare s k (entry_key s d)"
      using Node.prems(2,3) False in_order_prefix(2) [of s "(a, v)" _ k]
      by (auto simp: in_order_append in_order_Cons)
    then have "splits_at s k (InRight l a c v # fs)"
      using Node.prems(4) False by (auto simp: splits_at_def)
    moreover have "in_order s (entries r)" using Node.prems(3) by (simp add: in_order_append in_order_Cons)
    moreover have "path_ok (blacks r) (InRight l a c v # fs)" "subtree_ok r" "top_black r \<or> c"
      using Node.prems(5-7) by auto
    ultimately show ?thesis
      using Node.IH(2) [OF focus_down_right [OF F] Node.prems(2), of False] False p focus_reads(5) [OF F]
      by (subst descend.simps) (simp add: goes_left_def)
  qed
qed

section \<open>Linking a node\<close>

definition link_node :: "nat \<Rightarrow> nat \<Rightarrow> nat \<Rightarrow> bool \<Rightarrow> 'v rb_nodes \<Rightarrow> 'v rb_nodes" where
  "link_node h y ptr left m =
    (let m = (if left then
                (let m = set_left m y ptr
                 in if y = h then set_right (set_left (set_parent m h ptr) h ptr) h ptr
                    else if y = node_left m h then set_left m h ptr
                    else m)
              else
                (let m = set_right m y ptr
                 in if y = node_right m h then set_right m h ptr else m));
         m = set_parent m ptr y;
         m = set_left m ptr 0
     in set_right m ptr 0)"

lemma insert_into_link:
  "insert_into x y ptr s = finish_insert ptr s (link_node (rt_header s) y ptr
    (y = rt_header s \<or> x \<noteq> 0 \<or> rt_compare s (key_at s ptr) (key_at s y)) (rt_nodes s))"
  by (simp add: insert_into_def link_node_def Let_def)

definition same_node :: "'v rb_nodes \<Rightarrow> 'v rb_nodes \<Rightarrow> nat \<Rightarrow> bool" where
  "same_node m m' a \<longleftrightarrow> node_color m' a = node_color m a \<and> node_parent m' a = node_parent m a \<and>
    node_left m' a = node_left m a \<and> node_right m' a = node_right m a \<and> node_data m' a = node_data m a"

lemma link_node_header:
  assumes "ptr \<noteq> h" "y \<noteq> h \<or> left"
  shows "node_color (link_node h y ptr left m) h = node_color m h"
    "node_left (link_node h y ptr left m) h =
      (if left \<and> (y = h \<or> y = node_left m h) then ptr else node_left m h)"
    "node_right (link_node h y ptr left m) h =
      (if y = h \<or> \<not> left \<and> y = node_right m h then ptr else node_right m h)"
    "node_data (link_node h y ptr left m) = node_data m"
    "a \<noteq> ptr \<Longrightarrow> a \<noteq> h \<Longrightarrow> a \<noteq> y \<Longrightarrow> same_node m (link_node h y ptr left m) a"
  using assms by (auto simp: link_node_def Let_def same_node_def)

lemma link_node_ok:
  assumes "focus m h fs 0 Leaf" "ptr \<noteq> 0" "ptr \<noteq> h" "ptr \<notin> set (path_addrs fs)"
  shows "focus (link_node h (above h fs) ptr (goes_left fs) m) h fs ptr
    (Node Leaf ptr (node_color m ptr) (node_data m ptr) Leaf)"
proof (cases fs)
  case Nil
  then show ?thesis using assms
    by (auto simp: focus_def link_node_def goes_left_def)
next
  case (Cons f gs)
  show ?thesis
  proof (cases f)
    case (InLeft a c v r)
    have "a \<noteq> h" "a \<noteq> ptr" "h \<notin> set (addrs r)" "h \<notin> set (path_addrs gs)" "a \<notin> set (addrs r)"
      "a \<notin> set (path_addrs gs)" "ptr \<notin> set (addrs r)" "ptr \<notin> set (path_addrs gs)"
      using assms(1,4) Cons InLeft by (auto simp: focus_def)
    then show ?thesis using assms unfolding Cons InLeft
      by (auto simp: focus_def link_node_def goes_left_def Let_def)
  next
    case (InRight l a c v)
    have "a \<noteq> h" "a \<noteq> ptr" "h \<notin> set (addrs l)" "h \<notin> set (path_addrs gs)" "a \<notin> set (addrs l)"
      "a \<notin> set (path_addrs gs)" "ptr \<notin> set (addrs l)" "ptr \<notin> set (path_addrs gs)"
      using assms(1,4) Cons InRight by (auto simp: focus_def)
    then show ?thesis using assms unfolding Cons InRight
      by (auto simp: focus_def link_node_def goes_left_def Let_def)
  qed
qed

lemma distinct_entries: "focus m h fs p t \<Longrightarrow> distinct (map fst (entries (plug fs t))) \<and>
    h \<notin> fst ` set (entries (plug fs t))"
proof -
  assume "focus m h fs p t"
  then obtain q where q: "focus m h [] q (plug fs t)" using focus_plug by blast
  have "mset (addrs u) = mset (map fst (entries u))" for u :: "'a shape"
    by (induction u) auto
  then have "distinct (map fst (entries (plug fs t))) = distinct (addrs (plug fs t))"
    by (metis mset_eq_imp_distinct_iff)
  then show ?thesis using q set_addrs [of "plug fs t"] by (auto simp: focus_def)
qed

text \<open>Which end a new entry becomes.\<close>

lemma new_first:
  assumes "focus m h fs 0 Leaf"
  shows "goes_left fs \<and> (above h fs = h \<or> above h fs = first_addr h (before fs @ after fs)) \<longleftrightarrow>
    before fs = []"
proof (cases fs)
  case (Cons f gs)
  have d: "distinct (map fst (before fs @ after fs))"
    using distinct_entries [OF assms] by (simp add: entries_plug)
  show ?thesis
  proof (cases f)
    case (InLeft a c v r)
    have "a \<noteq> h" using assms Cons InLeft by (auto simp: focus_def)
    then show ?thesis using d Cons InLeft
      by (cases "before gs") (auto simp: goes_left_def)
  qed (simp add: Cons goes_left_def)
qed (simp add: goes_left_def)

lemma new_last:
  assumes "focus m h fs 0 Leaf"
  shows "above h fs = h \<or> \<not> goes_left fs \<and> above h fs = last_addr h (before fs @ after fs) \<longleftrightarrow>
    after fs = []"
proof (cases fs)
  case (Cons f gs)
  have d: "distinct (map fst (before fs @ after fs))"
    using distinct_entries [OF assms] by (simp add: entries_plug)
  have "frame_addr f \<noteq> h" using assms Cons by (auto simp: focus_def)
  moreover have "x \<in> set es \<Longrightarrow> last_addr y es \<in> fst ` set es" for x :: "nat \<times> 'a" and y es
    by (auto simp: last_addr_def)
  ultimately show ?thesis using d Cons
    by (cases f; cases "after gs" rule: rev_cases) (auto simp: goes_left_def)
qed (simp add: goes_left_def)

section \<open>Insertion\<close>

lemma tree_at_same: "(\<And>a. a \<in> set (addrs t) \<Longrightarrow> same_node m m' a) \<Longrightarrow>
    tree_at m' par p t \<longleftrightarrow> tree_at m par p t"
  by (induction t arbitrary: par p) (auto simp: same_node_def)

lemma free_at_same: "(\<And>a. a \<in> set as \<Longrightarrow> node_right m' a = node_right m a) \<Longrightarrow>
    free_at m' p as \<longleftrightarrow> free_at m p as"
  by (induction as arbitrary: p) auto

lemma red_black_not_Leaf: "entries t \<noteq> [] \<Longrightarrow> t \<noteq> Leaf"
  by (cases t) auto

text \<open>The fields that an operation never changes.\<close>

definition same_class :: "('k, 'v) rb_tree \<Rightarrow> ('k, 'v) rb_tree \<Rightarrow> bool" where
  "same_class s s' \<longleftrightarrow> rt_header s' = rt_header s \<and> rt_compare s' = rt_compare s \<and>
    rt_key s' = rt_key s"

lemma same_class_order: "same_class s s' \<Longrightarrow> in_order s' = in_order s"
  by (simp add: fun_eq_iff same_class_def in_order_def entry_key_def)

lemma insert_into_ok:
  assumes F: "focus (rt_nodes s) (rt_header s) fs 0 Leaf" and t: "plug fs Leaf = t"
    and holds: "rt_holds s t" and path: "path_ok 0 fs"
    and ptr: "ptr \<noteq> 0" "ptr \<noteq> rt_header s" "ptr \<notin> set (addrs t)"
    and y: "y = above (rt_header s) fs"
    and side: "fs \<noteq> [] \<Longrightarrow> rt_compare s (key_at s ptr) (key_at s y) \<longleftrightarrow> goes_left fs"
  shows "\<exists>s' t'. insert_into 0 y ptr s = Some (ptr, s') \<and> rt_holds s' t' \<and>
    entries t' = before fs @ (ptr, node_data (rt_nodes s) ptr) # after fs \<and> same_class s s' \<and>
    rt_free s' = rt_free s \<and> rt_chunks s' = rt_chunks s \<and>
    (\<forall>a. a \<noteq> ptr \<longrightarrow> a \<noteq> rt_header s \<longrightarrow> a \<notin> set (addrs t) \<longrightarrow> same_node (rt_nodes s) (rt_nodes s') a)"
proof -
  define h where "h = rt_header s"
  define v where "v = node_data (rt_nodes s) ptr"
  define c where "c = node_color (rt_nodes s) ptr"
  define m where "m = link_node h y ptr (goes_left fs) (rt_nodes s)"
  have region: "set (path_addrs fs) = set (addrs t)"
    using region_plug [of fs Leaf] t by (simp add: region_def)
  have "fs = [] \<Longrightarrow> y = h" "fs \<noteq> [] \<Longrightarrow> y \<noteq> h" "fs \<noteq> [] \<Longrightarrow> y \<in> set (addrs t)" "fs = [] \<Longrightarrow> goes_left fs"
    using F unfolding y h_def region [symmetric] by (cases fs; auto simp: focus_def goes_left_def)+
  note yh = this
  have code: "insert_into 0 y ptr s = finish_insert ptr s m"
    using side yh unfolding insert_into_link m_def h_def by (cases "fs = []") auto
  have Fm: "focus m h fs ptr (Node Leaf ptr c v Leaf)"
    using link_node_ok [OF F ptr(1,2)] ptr(3) region unfolding m_def h_def y c_def v_def by simp
  obtain m' q t' where m': "rb_tree_insert_rebalance h ptr m = Some m'" "focus m' h [] q t'"
    "entries t' = entries (plug fs (Node Leaf ptr c v Leaf))" "red_black t'"
    "untouched h (set (addrs (plug fs (Node Leaf ptr c v Leaf)))) m m'"
    using insert_rebalance_ok [OF Fm path] by blast
  let ?s = "s\<lparr>rt_nodes := m', rt_size := rt_size s + 1\<rparr>"
  have e: "entries t' = before fs @ (ptr, v) # after fs" using m'(3) by (simp add: entries_plug)
  have et: "entries t = before fs @ after fs" unfolding t [symmetric] by (simp add: entries_plug)
  have addrs': "set (addrs (plug fs (Node Leaf ptr c v Leaf))) = insert ptr (set (addrs t))"
    unfolding region_plug [symmetric] by (auto simp: region_def region)
  have h: "node_color m' h = node_color m h" "node_left m' h = node_left m h"
    "node_right m' h = node_right m h"
    using m'(5) ptr(2) F region unfolding addrs' untouched_def by (auto simp: h_def focus_def)
  have hm: "node_color m h = RB_TREE_RED"
    "node_left m h = (if before fs = [] then ptr else first_addr h (entries t))"
    "node_right m h = (if after fs = [] then ptr else last_addr h (entries t))"
  proof -
    have "y \<noteq> h \<or> goes_left fs" using yh by blast
    note lh = link_node_header [OF ptr(2) [folded h_def] this, where m = "rt_nodes s", folded m_def]
    show "node_color m h = RB_TREE_RED" using lh(1) holds by (simp add: rt_holds_def h_def)
    have L: "node_left (rt_nodes s) h = first_addr h (before fs @ after fs)"
      "node_right (rt_nodes s) h = last_addr h (before fs @ after fs)"
      using holds by (simp_all add: rt_holds_def rt_leftmost_def rt_rightmost_def et h_def)
    have "goes_left fs \<and> (y = h \<or> y = node_left (rt_nodes s) h) \<longleftrightarrow> before fs = []"
      using new_first [OF F] unfolding y h_def L [unfolded h_def] .
    then show "node_left m h = (if before fs = [] then ptr else first_addr h (entries t))"
      using lh(2) L(1) et by simp
    have "y = h \<or> \<not> goes_left fs \<and> y = node_right (rt_nodes s) h \<longleftrightarrow> after fs = []"
      using new_last [OF F] unfolding y h_def L [unfolded h_def] .
    then show "node_right m h = (if after fs = [] then ptr else last_addr h (entries t))"
      using lh(3) L(2) et by simp
  qed
  have "q = node_parent m' h" using m'(2) by (simp add: focus_def)
  then have "rt_holds ?s t'"
    using m'(2,4) h hm holds e et
    by (auto simp: rt_holds_def rt_root_def rt_leftmost_def rt_rightmost_def h_def
      first_addr_def last_addr_def)
  moreover have "insert_into 0 y ptr s = Some (ptr, ?s)"
    using code m'(1) by (simp add: finish_insert_def h_def)
  moreover have "same_node (rt_nodes s) m' a" if "a \<noteq> ptr" "a \<noteq> h" "a \<notin> set (addrs t)" for a
  proof -
    have "same_node (rt_nodes s) m a"
      using link_node_header(5) [OF ptr(2) [folded h_def] _ that(1,2)] yh that(2,3) unfolding m_def by metis
    then show ?thesis
      using m'(5) that unfolding addrs' by (simp add: untouched_def same_node_def)
  qed
  ultimately show ?thesis
    using e by (auto simp: same_class_def v_def h_def)
qed

section \<open>The pool\<close>

lemma rt_holds_same:
  assumes "rt_holds s t" "\<And>a. a \<in> insert (rt_header s) (set (addrs t)) \<Longrightarrow> same_node (rt_nodes s) (rt_nodes s') a"
    "rt_header s' = rt_header s" "rt_size s' = rt_size s"
  shows "rt_holds s' t"
proof -
  have "focus (rt_nodes s') (rt_header s) [] (rt_root s) t"
    using assms(1,2) tree_at_same [of t "rt_nodes s" "rt_nodes s'"]
    by (auto simp: rt_holds_def focus_def same_node_def)
  moreover have "same_node (rt_nodes s) (rt_nodes s') (rt_header s)" using assms(2) by simp
  ultimately show ?thesis
    using assms(1,3,4)
    by (auto simp: rt_holds_def rt_root_def rt_leftmost_def rt_rightmost_def same_node_def)
qed

lemma thread_chunk_class [simp]:
  "rt_header (thread_chunk chunk n s) = rt_header s" "rt_compare (thread_chunk chunk n s) = rt_compare s"
  "rt_key (thread_chunk chunk n s) = rt_key s" "rt_size (thread_chunk chunk n s) = rt_size s"
  "rt_chunks (thread_chunk chunk n s) = rt_chunks s"
  by (induction n arbitrary: s) auto

lemma thread_chunk_nodes:
  "a \<notin> {chunk<..chunk + n} \<Longrightarrow> same_node (rt_nodes s) (rt_nodes (thread_chunk chunk n s)) a"
proof (induction n arbitrary: s)
  case (Suc n)
  let ?s = "s\<lparr>rt_nodes := set_right (rt_nodes s) (chunk + Suc n) (rt_free s), rt_free := chunk + Suc n\<rparr>"
  have "a \<notin> {chunk<..chunk + n}" using Suc.prems by auto
  from Suc.IH [OF this, of ?s]
  have "same_node (rt_nodes ?s) (rt_nodes (thread_chunk chunk (Suc n) s)) a" by simp
  moreover have "a \<noteq> chunk + Suc n" using Suc.prems by auto
  ultimately show ?case by (simp add: same_node_def)
qed (simp add: same_node_def)

lemma thread_chunk_free:
  "free_at (rt_nodes s) (rt_free s) as \<Longrightarrow> set as \<inter> {chunk<..chunk + n} = {} \<Longrightarrow>
    free_at (rt_nodes (thread_chunk chunk n s)) (rt_free (thread_chunk chunk n s))
      (map (\<lambda>i. chunk + i) [1..<Suc n] @ as)"
proof (induction n arbitrary: s as)
  case (Suc n)
  let ?s = "s\<lparr>rt_nodes := set_right (rt_nodes s) (chunk + Suc n) (rt_free s), rt_free := chunk + Suc n\<rparr>"
  have "free_at (rt_nodes ?s) (rt_free s) as"
    using Suc.prems by (subst free_at_same [where m = "rt_nodes s"]) auto
  then have "free_at (rt_nodes ?s) (rt_free ?s) ((chunk + Suc n) # as)" by simp
  moreover have "set ((chunk + Suc n) # as) \<inter> {chunk<..chunk + n} = {}" using Suc.prems(2) by auto
  ultimately show ?case using Suc.IH [of ?s "(chunk + Suc n) # as"] by simp
qed simp

text \<open>An answer of the allocator: 65 nodes that nothing else uses.\<close>

definition fresh_chunk :: "('k, 'v) rb_tree \<Rightarrow> 'v shape \<Rightarrow> nat \<Rightarrow> bool" where
  "fresh_chunk s t chunk \<longleftrightarrow> chunk \<noteq> 0 \<and>
    {chunk..chunk + node_chunk_size} \<inter> insert (rt_header s) (set (addrs t)) = {}"

definition taken :: "('k, 'v) rb_tree \<Rightarrow> 'v shape \<Rightarrow> nat list \<Rightarrow> nat \<Rightarrow> bool" where
  "taken s t free a \<longleftrightarrow> a \<noteq> 0 \<and> a \<noteq> rt_header s \<and> a \<notin> set (addrs t) \<and> a \<notin> set free"

lemma create_node_ok:
  assumes holds: "rt_holds s t" and pool: "rt_pool s t free" and fresh: "free = [] \<Longrightarrow> fresh_chunk s t chunk"
  shows "\<exists>a s' free'. create_node chunk v s = (a, s') \<and> rt_holds s' t \<and> rt_pool s' t free' \<and>
    taken s' t free' a \<and> node_data (rt_nodes s') a = v \<and> same_class s s'"
proof -
  define s1 where "s1 = (if rt_free s = 0 then reserve_nodes chunk s else s)"
  have "\<exists>free1. free1 \<noteq> [] \<and> rt_pool s1 t free1 \<and> rt_holds s1 t \<and> same_class s s1"
  proof (cases "rt_free s = 0")
    case False
    then have "free \<noteq> []" using pool by (auto simp: rt_pool_def)
    then show ?thesis using False pool holds by (auto simp: s1_def same_class_def)
  next
    case True
    then have "free = []" using pool by (cases free) (auto simp: rt_pool_def)
    then have fr: "fresh_chunk s t chunk" by (rule fresh)
    let ?s = "s\<lparr>rt_nodes := set_right (rt_nodes s) chunk (rt_chunks s), rt_chunks := chunk\<rparr>"
    have s1: "s1 = thread_chunk chunk node_chunk_size ?s" using True by (simp add: s1_def reserve_nodes_def)
    have same: "same_node (rt_nodes s) (rt_nodes s1) a" if "a \<in> insert (rt_header s) (set (addrs t))" for a
    proof -
      have "a \<notin> {chunk..chunk + node_chunk_size}" using fr that by (auto simp: fresh_chunk_def)
      then have "a \<noteq> chunk" "a \<notin> {chunk<..chunk + node_chunk_size}" by auto
      then show ?thesis
        using thread_chunk_nodes [of a chunk node_chunk_size ?s] unfolding s1
        by (simp add: same_node_def)
    qed
    have "rt_holds s1 t"
      by (rule rt_holds_same [OF holds same]) (simp_all add: s1)
    moreover have "free_at (rt_nodes s1) (rt_free s1) (map (\<lambda>i. chunk + i) [1..<Suc node_chunk_size])"
      using thread_chunk_free [of ?s "[]" chunk node_chunk_size] True unfolding s1 by simp
    moreover have "distinct (rt_header s # addrs t @ map (\<lambda>i. chunk + i) [1..<Suc node_chunk_size])"
    proof -
      have "distinct (rt_header s # addrs t)" using pool by (simp add: rt_pool_def)
      moreover have "set (map (\<lambda>i. chunk + i) [1..<Suc node_chunk_size]) \<subseteq> {chunk..chunk + node_chunk_size}"
        by auto
      ultimately show ?thesis using fr by (auto simp: fresh_chunk_def distinct_map)
    qed
    ultimately show ?thesis
      by (intro exI [of _ "map (\<lambda>i. chunk + i) [1..<Suc node_chunk_size]"])
        (simp add: rt_pool_def same_class_def s1 node_chunk_size_def)
  qed
  then obtain a free' where pool1: "rt_pool s1 t (a # free')" and holds1: "rt_holds s1 t"
    and cls: "same_class s s1" by (metis neq_Nil_conv)
  have a: "rt_free s1 = a" "a \<noteq> 0" "free_at (rt_nodes s1) (node_right (rt_nodes s1) a) free'"
    using pool1 by (auto simp: rt_pool_def)
  let ?s = "s1\<lparr>rt_free := node_right (rt_nodes s1) a, rt_nodes := set_data (rt_nodes s1) a v\<rparr>"
  have "create_node chunk v s = (a, ?s)" by (simp add: create_node_def Let_def s1_def [symmetric] a(1))
  moreover have "rt_holds ?s t"
    by (rule rt_holds_same [OF holds1]) (use pool1 in \<open>auto simp: same_node_def rt_pool_def\<close>)
  moreover have "free_at (rt_nodes ?s) (rt_free ?s) free'"
    using a(3) by (subst free_at_same [where m = "rt_nodes s1"]) auto
  ultimately show ?thesis
    using pool1 a(2) cls by (auto simp: rt_pool_def taken_def same_class_def)
qed

lemma destroy_node_ok:
  assumes "rt_holds s t" "rt_pool s t free" "taken s t free a"
  shows "rt_holds (destroy_node a s) t \<and> rt_pool (destroy_node a s) t (a # free) \<and>
    same_class s (destroy_node a s)"
proof -
  have "rt_holds (destroy_node a s) t"
    by (rule rt_holds_same [OF assms(1)])
      (use assms(3) in \<open>auto simp: destroy_node_def same_node_def taken_def\<close>)
  moreover have "free_at (set_right (rt_nodes s) a (rt_free s)) (rt_free s) free"
    using assms(2,3) by (subst free_at_same [where m = "rt_nodes s"]) (auto simp: taken_def rt_pool_def)
  ultimately show ?thesis
    using assms(2,3) by (auto simp: destroy_node_def same_class_def rt_pool_def taken_def)
qed

section \<open>Insertion into the container\<close>

lemma insert_into_inv:
  assumes inv: "rt_holds s t" "rt_pool s t free" "taken s t free ptr"
    and F: "focus (rt_nodes s) (rt_header s) fs 0 Leaf" "plug fs Leaf = t" "path_ok 0 fs"
    and at: "splits_at s (key_at s ptr) fs"
  shows "\<exists>s' t'. insert_into 0 (above (rt_header s) fs) ptr s = Some (ptr, s') \<and> rt_holds s' t' \<and>
    rt_pool s' t' free \<and> same_class s s' \<and>
    entries t' = before fs @ (ptr, node_data (rt_nodes s) ptr) # after fs"
proof -
  have et: "entries t = before fs @ after fs" unfolding F(2) [symmetric] by (simp add: entries_plug)
  have side: "rt_compare s (key_at s ptr) (key_at s (above (rt_header s) fs)) \<longleftrightarrow> goes_left fs" if "fs \<noteq> []"
  proof (cases fs)
    case (Cons f gs)
    show ?thesis
    proof (cases f)
      case (InLeft a c v r)
      then have "key_at s a = entry_key s (a, v)"
        using F(1) Cons by (simp add: focus_def key_at_def entry_key_def)
      then show ?thesis using at Cons InLeft by (auto simp: splits_at_def goes_left_def)
    next
      case (InRight l a c v)
      then have "key_at s a = entry_key s (a, v)"
        using F(1) Cons by (simp add: focus_def key_at_def entry_key_def)
      then show ?thesis using at Cons InRight by (auto simp: splits_at_def goes_left_def)
    qed
  qed (use that in simp)
  obtain s' t' where s': "insert_into 0 (above (rt_header s) fs) ptr s = Some (ptr, s')" "rt_holds s' t'"
    "entries t' = before fs @ (ptr, node_data (rt_nodes s) ptr) # after fs" "same_class s s'"
    "rt_free s' = rt_free s"
    "\<And>a. a \<noteq> ptr \<Longrightarrow> a \<noteq> rt_header s \<Longrightarrow> a \<notin> set (addrs t) \<Longrightarrow> same_node (rt_nodes s) (rt_nodes s') a"
    using insert_into_ok [OF F(1,2) inv(1) F(3) _ _ _ refl side] inv(3) unfolding taken_def by blast
  have new: "set (addrs t') = insert ptr (set (addrs t))"
    unfolding set_addrs s'(3) et by auto
  have "same_node (rt_nodes s) (rt_nodes s') a" if "a \<in> set free" for a
    using that inv(2,3) s'(6) [of a] by (auto simp: rt_pool_def taken_def)
  then have "free_at (rt_nodes s') (rt_free s') free"
    using inv(2) s'(5) by (subst free_at_same [where m = "rt_nodes s"]) (auto simp: rt_pool_def same_node_def)
  moreover have "distinct (rt_header s' # addrs t' @ free)"
  proof -
    have "distinct (rt_header s' # addrs t')" using s'(2) by (simp add: rt_holds_def focus_def)
    then show ?thesis using inv(2,3) new s'(4) by (auto simp: rt_pool_def taken_def same_class_def)
  qed
  ultimately show ?thesis using s' by (auto simp: rt_pool_def)
qed

lemma descend_root:
  assumes "rt_holds s t" "strict_weak_order (rt_compare s)" "in_order s (entries t)"
  shows "\<exists>fs. descend s k (rt_root s) (rt_header s) True = Some (above (rt_header s) fs, goes_left fs) \<and>
    focus (rt_nodes s) (rt_header s) fs 0 Leaf \<and> plug fs Leaf = t \<and> splits_at s k fs \<and> path_ok 0 fs"
  using descend_ok [of s "rt_header s" "[]" "rt_root s" t k True] assms
  by (auto simp: rt_holds_def red_black_def subtree_ok_def splits_at_def goes_left_def)

lemma insert_equal_ok:
  assumes inv: "rt_holds s t" "rt_pool s t free" "taken s t free ptr"
    and ord: "strict_weak_order (rt_compare s)" "in_order s (entries t)"
  shows "\<exists>s' t' ds es. insert_equal ptr s = Some (ptr, s') \<and> rt_holds s' t' \<and> rt_pool s' t' free \<and>
    same_class s s' \<and> entries t = ds @ es \<and> entries t' = ds @ (ptr, node_data (rt_nodes s) ptr) # es \<and>
    (\<forall>d \<in> set ds. \<not> rt_compare s (key_at s ptr) (entry_key s d)) \<and>
    (\<forall>e \<in> set es. rt_compare s (key_at s ptr) (entry_key s e))"
proof -
  obtain fs where fs: "descend s (key_at s ptr) (rt_root s) (rt_header s) True =
      Some (above (rt_header s) fs, goes_left fs)"
    "focus (rt_nodes s) (rt_header s) fs 0 Leaf" "plug fs Leaf = t" "splits_at s (key_at s ptr) fs"
    "path_ok 0 fs"
    using descend_root [OF inv(1) ord] by blast
  have "entries t = before fs @ after fs" unfolding fs(3) [symmetric] by (simp add: entries_plug)
  then show ?thesis
    using insert_into_inv [OF inv fs(2,3,5,4)] fs(1,4) unfolding insert_equal_def splits_at_def
    by fastforce
qed

definition strictly_ordered :: "('k, 'v) rb_tree \<Rightarrow> (nat \<times> 'v) list \<Rightarrow> bool" where
  "strictly_ordered s es \<longleftrightarrow> sorted_wrt (\<lambda>d e. rt_compare s (entry_key s d) (entry_key s e)) es"

definition equivalent :: "('k, 'v) rb_tree \<Rightarrow> 'k \<Rightarrow> nat \<times> 'v \<Rightarrow> bool" where
  "equivalent s k e \<longleftrightarrow> \<not> rt_compare s (entry_key s e) k \<and> \<not> rt_compare s k (entry_key s e)"

lemma strictly_in_order:
  "strict_weak_order (rt_compare s) \<Longrightarrow> strictly_ordered s es \<Longrightarrow> in_order s es"
  unfolding strictly_ordered_def in_order_def
  by (erule sorted_wrt_mono_rel [rotated]) (blast dest: swo_asym)

lemma strictly_ordered_append:
  "strictly_ordered s (ds @ es) \<longleftrightarrow> strictly_ordered s ds \<and> strictly_ordered s es \<and>
    (\<forall>d \<in> set ds. \<forall>e \<in> set es. rt_compare s (entry_key s d) (entry_key s e))"
  by (simp add: strictly_ordered_def sorted_wrt_append)

text \<open>Where the key stands: the entry before its place decides whether it is new.\<close>

lemma place_of_key:
  assumes swo: "strict_weak_order (rt_compare s)" and ord: "strictly_ordered s (ds @ es)"
    and ds: "\<forall>d \<in> set ds. \<not> rt_compare s k (entry_key s d)"
    and es: "\<forall>e \<in> set es. rt_compare s k (entry_key s e)"
  shows "ds = [] \<or> rt_compare s (entry_key s (last ds)) k \<Longrightarrow>
      (\<forall>e \<in> set (ds @ es). \<not> equivalent s k e) \<and>
      (\<forall>d \<in> set ds. rt_compare s (entry_key s d) k)"
    "ds \<noteq> [] \<Longrightarrow> \<not> rt_compare s (entry_key s (last ds)) k \<Longrightarrow>
      {e \<in> set (ds @ es). equivalent s k e} = {last ds}"
proof -
  assume new: "ds = [] \<or> rt_compare s (entry_key s (last ds)) k"
  have "rt_compare s (entry_key s d) k" if d: "d \<in> set ds" for d
  proof (cases ds rule: rev_cases)
    case (snoc bs b)
    then have "d = b \<or> rt_compare s (entry_key s d) (entry_key s b)"
      using ord d by (auto simp: strictly_ordered_append)
    then show ?thesis using new snoc swo_trans [OF swo] by auto
  qed (use d in simp)
  then show "(\<forall>e \<in> set (ds @ es). \<not> equivalent s k e) \<and> (\<forall>d \<in> set ds. rt_compare s (entry_key s d) k)"
    using es by (auto simp: equivalent_def)
next
  assume old: "ds \<noteq> []" "\<not> rt_compare s (entry_key s (last ds)) k"
  obtain bs b where b: "ds = bs @ [b]" using old(1) by (cases ds rule: rev_cases) auto
  have "rt_compare s (entry_key s d) k" if "d \<in> set bs" for d
  proof -
    have "rt_compare s (entry_key s d) (entry_key s b)" using ord b that by (auto simp: strictly_ordered_append)
    moreover have "\<not> rt_compare s k (entry_key s b)" using ds b by simp
    ultimately show ?thesis using swo_neg_trans [OF swo] by blast
  qed
  then show "{e \<in> set (ds @ es). equivalent s k e} = {last ds}"
    using old ds es b by (auto simp: equivalent_def)
qed

lemma tree_at_data:
  "tree_at m par p t \<Longrightarrow> e \<in> set (entries t) \<Longrightarrow> node_data m (fst e) = snd e"
proof (induction t arbitrary: par p)
  case (Node l a c v r)
  then consider "e \<in> set (entries l)" | "e = (a, v)" | "e \<in> set (entries r)" by auto
  then show ?case using Node.IH Node.prems(1) by cases auto
qed simp

lemma node_of_last:
  assumes "focus m h fs 0 Leaf" "before fs \<noteq> []" "m = rt_nodes s"
  shows "key_at s (last_addr h (before fs)) = entry_key s (last (before fs))"
proof -
  obtain q where q: "focus m h [] q (plug fs Leaf)" using focus_plug [OF assms(1)] by blast
  have "\<forall>e \<in> set (before fs). node_data m (fst e) = snd e"
    using q tree_at_data [of m h q "plug fs Leaf"] by (auto simp: focus_def entries_plug)
  then show ?thesis using assms(2,3) by (simp add: last_addr_def key_at_def entry_key_def)
qed

lemma last_before:
  assumes "focus m h fs 0 Leaf" "fs \<noteq> []" "\<not> goes_left fs"
  shows "before fs \<noteq> []" "above h fs = last_addr h (before fs)"
  using assms by (cases fs; cases "hd fs"; auto simp: goes_left_def)+

lemma decrement_hole:
  assumes "focus m h fs 0 Leaf" "goes_left fs" "before fs \<noteq> []" "red_black (plug fs Leaf)"
  shows "iter_decrement m (above h fs) = Some (last_addr h (before fs))"
proof -
  obtain a c v r gs where fs: "fs = InLeft a c v r # gs"
    using assms(2,3) by (cases fs; cases "hd fs") (auto simp: goes_left_def)
  have "focus m h gs a (Node Leaf a c v r)" using assms(1) fs by (simp add: focus_up)
  moreover have "gs = [] \<Longrightarrow> c" using assms(4) fs by (simp add: red_black_def)
  ultimately show ?thesis using decrement_ok [of m h gs a Leaf c v r] assms(3) fs by simp
qed

lemma insert_unique_ok:
  assumes inv: "rt_holds s t" "rt_pool s t free" "taken s t free ptr"
    and swo: "strict_weak_order (rt_compare s)" and ord: "strictly_ordered s (entries t)"
  shows "(\<exists>e. {e \<in> set (entries t). equivalent s (key_at s ptr) e} = {e} \<and>
      insert_unique ptr s = Some ((fst e, False), destroy_node ptr s)) \<or>
    (\<exists>s' t' ds es. insert_unique ptr s = Some ((ptr, True), s') \<and> rt_holds s' t' \<and> rt_pool s' t' free \<and>
      same_class s s' \<and> entries t = ds @ es \<and> entries t' = ds @ (ptr, node_data (rt_nodes s) ptr) # es \<and>
      (\<forall>d \<in> set ds. rt_compare s (entry_key s d) (key_at s ptr)) \<and>
      (\<forall>e \<in> set es. rt_compare s (key_at s ptr) (entry_key s e)))"
proof -
  obtain fs where fs: "descend s (key_at s ptr) (rt_root s) (rt_header s) True =
      Some (above (rt_header s) fs, goes_left fs)"
    "focus (rt_nodes s) (rt_header s) fs 0 Leaf" "plug fs Leaf = t" "splits_at s (key_at s ptr) fs"
    "path_ok 0 fs"
    using descend_root [OF inv(1) swo strictly_in_order [OF swo ord]] by blast
  have et: "entries t = before fs @ after fs" unfolding fs(3) [symmetric] by (simp add: entries_plug)
  note place = place_of_key [OF swo ord [unfolded et]] fs(4)
  have first: "goes_left fs \<and> above (rt_header s) fs = rt_begin s \<longleftrightarrow> before fs = []"
  proof -
    have "rt_begin s = first_addr (rt_header s) (before fs @ after fs)"
      using inv(1) et by (simp add: rt_begin_def rt_holds_def)
    moreover have "above (rt_header s) fs = rt_header s \<Longrightarrow> before fs @ after fs = []"
      using fs(2) by (cases fs) (auto simp: focus_def)
    ultimately show ?thesis using new_first [OF fs(2)] by auto
  qed
  define j where "j = last_addr (rt_header s) (before fs)"
  have prev: "before fs \<noteq> [] \<Longrightarrow> goes_left fs \<Longrightarrow> iter_decrement (rt_nodes s) (above (rt_header s) fs) = Some j"
    using decrement_hole [OF fs(2)] inv(1) fs(3) by (simp add: j_def rt_holds_def)
  have here: "\<not> goes_left fs \<Longrightarrow> before fs \<noteq> [] \<and> above (rt_header s) fs = j"
    using last_before [OF fs(2)] by (cases "fs = []") (auto simp: j_def goes_left_def)
  have j: "before fs \<noteq> [] \<Longrightarrow> key_at s j = entry_key s (last (before fs))"
    unfolding j_def by (rule node_of_last [OF fs(2) _ refl])
  have code: "insert_unique ptr s =
    (if before fs = [] \<or> rt_compare s (entry_key s (last (before fs))) (key_at s ptr)
     then (case insert_into 0 (above (rt_header s) fs) ptr s of
             None \<Rightarrow> None | Some (a, s) \<Rightarrow> Some ((a, True), s))
     else Some ((j, False), destroy_node ptr s))"
    using first prev here j fs(1) by (cases "goes_left fs"; cases "before fs = []")
      (auto simp: insert_unique_def Let_def)
  show ?thesis
  proof (cases "before fs = [] \<or> rt_compare s (entry_key s (last (before fs))) (key_at s ptr)")
    case True
    obtain s' t' where "insert_into 0 (above (rt_header s) fs) ptr s = Some (ptr, s')" "rt_holds s' t'"
      "rt_pool s' t' free" "same_class s s'"
      "entries t' = before fs @ (ptr, node_data (rt_nodes s) ptr) # after fs"
      using insert_into_inv [OF inv fs(2,3,5,4)] by blast
    moreover have "\<forall>d \<in> set (before fs). rt_compare s (entry_key s d) (key_at s ptr)"
      using place(1) True fs(4) by (simp add: splits_at_def)
    ultimately show ?thesis
      using code True et fs(4) by (intro disjI2) (fastforce simp: splits_at_def)
  next
    case False
    then have "{e \<in> set (entries t). equivalent s (key_at s ptr) e} = {last (before fs)}"
      using place(2) fs(4) unfolding et splits_at_def by blast
    moreover have "j = fst (last (before fs))" using False by (simp add: j_def last_addr_def)
    ultimately show ?thesis using code False by auto
  qed
qed

section \<open>What the operations do\<close>

lemma same_class_simps:
  assumes "same_class s s'"
  shows "rt_header s' = rt_header s" "rt_compare s' = rt_compare s" "rt_key s' = rt_key s"
    "in_order s' es = in_order s es" "strictly_ordered s' es = strictly_ordered s es"
    "entry_key s' = entry_key s" "equivalent s' k = equivalent s k"
  using assms by (simp_all add: same_class_def in_order_def strictly_ordered_def entry_key_def
    equivalent_def fun_eq_iff)

lemma same_class_trans: "same_class s s' \<Longrightarrow> same_class s' s'' \<Longrightarrow> same_class s s''"
  by (simp add: same_class_def)

lemma emplace_unique_ok:
  assumes "rt_inv s t free" "strictly_ordered s (entries t)" "free = [] \<Longrightarrow> fresh_chunk s t chunk"
  shows "case List.find (equivalent s (rt_key s v)) (entries t) of
      Some e \<Rightarrow> (\<exists>s' free'. emplace_unique chunk v s = Some ((fst e, False), s') \<and>
        rt_inv s' t free' \<and> same_class s s')
    | None \<Rightarrow> (\<exists>a s' t' free' ds es. emplace_unique chunk v s = Some ((a, True), s') \<and>
        rt_inv s' t' free' \<and> same_class s s' \<and> strictly_ordered s' (entries t') \<and>
        a \<notin> set (addrs t) \<and> entries t = ds @ es \<and> entries t' = ds @ (a, v) # es)"
proof -
  have swo: "strict_weak_order (rt_compare s)" and ord: "in_order s (entries t)"
    using assms(1) by (auto simp: rt_inv_def)
  obtain a s1 free1 where n: "create_node chunk v s = (a, s1)" "rt_holds s1 t" "rt_pool s1 t free1"
    "taken s1 t free1 a" "node_data (rt_nodes s1) a = v" and c1: "same_class s s1"
    using create_node_ok [OF _ _ assms(3)] assms(1) unfolding rt_inv_def by blast
  note eqs = same_class_simps [OF c1]
  have k: "key_at s1 a = rt_key s v" using n(5) eqs(3) by (simp add: key_at_def)
  have code: "emplace_unique chunk v s = insert_unique a s1" using n(1) by (simp add: emplace_unique_def)
  show ?thesis
  proof (cases "List.find (equivalent s (rt_key s v)) (entries t)")
    case None
    then have none: "{e \<in> set (entries t). equivalent s (rt_key s v) e} = {}"
      by (auto simp: find_None_iff)
    obtain s' t' ds es where r: "insert_unique a s1 = Some ((a, True), s')" "rt_holds s' t'"
      "rt_pool s' t' free1" "same_class s1 s'" "entries t = ds @ es" "entries t' = ds @ (a, v) # es"
      "\<forall>d \<in> set ds. rt_compare s (entry_key s d) (rt_key s v)"
      "\<forall>e \<in> set es. rt_compare s (rt_key s v) (entry_key s e)"
      using insert_unique_ok [OF n(2,3,4)] swo assms(2) none unfolding eqs k n(5) by force
    have c2: "same_class s s'" by (rule same_class_trans [OF c1 r(4)])
    have "strictly_ordered s (entries t')"
      using assms(2) r(5-8) swo_trans [OF swo] unfolding strictly_ordered_def
      by (auto simp: sorted_wrt_append entry_key_def)
    then have "strictly_ordered s' (entries t')" "in_order s' (entries t')"
      using strictly_in_order [OF swo] same_class_simps [OF c2] by auto
    moreover have "strict_weak_order (rt_compare s')" using swo same_class_simps(2) [OF c2] by simp
    ultimately have inv': "rt_inv s' t' free1" "strictly_ordered s' (entries t')"
      using r by (auto simp: rt_inv_def)
    show ?thesis unfolding None option.case
      by (rule exI [of _ a], rule exI [of _ s'], rule exI [of _ t'], rule exI [of _ free1],
        rule exI [of _ ds], rule exI [of _ es],
        use code r c2 n(4) inv' in \<open>simp add: taken_def\<close>)
  next
    case (Some e)
    then have e: "e \<in> set (entries t)" "equivalent s (rt_key s v) e"
      by (auto simp: find_Some_iff)
    have "insert_unique a s1 = Some ((fst e, False), destroy_node a s1)"
    proof -
      have "e = d" if "{e \<in> set (entries t). equivalent s (rt_key s v) e} = {d}" for d
        using that e by blast
      then show ?thesis
        using insert_unique_ok [OF n(2,3,4)] swo assms(2) e unfolding eqs k
        by (auto simp: equivalent_def)
    qed
    moreover note d = destroy_node_ok [OF n(2,3,4)]
    moreover have "same_class s (destroy_node a s1)" using same_class_trans [OF c1] d by blast
    ultimately show ?thesis
      using Some code swo ord same_class_simps [of s "destroy_node a s1"] by (auto simp: rt_inv_def)
  qed
qed

text \<open>C29 (emplace_unique_correct): on a red-black tree in key order without equivalent keys,
\<open>emplace_unique\<close> ends; when the key is there it answers that entry and \<open>false\<close>, leaves the tree as it
is and gives the node back to the pool; otherwise the new entry stands at its place in the order, no
other entry moves, and the tree is a red-black tree again.\<close>

theorem emplace_unique_correct:
  assumes "rt_inv s t free" "strictly_ordered s (entries t)" "free = [] \<Longrightarrow> fresh_chunk s t chunk"
  shows "case List.find (equivalent s (rt_key s v)) (entries t) of
      Some e \<Rightarrow> (\<exists>s' free'. emplace_unique chunk v s = Some ((fst e, False), s') \<and>
        rt_inv s' t free' \<and> same_class s s')
    | None \<Rightarrow> (\<exists>a s' t' free' ds es. emplace_unique chunk v s = Some ((a, True), s') \<and>
        rt_inv s' t' free' \<and> same_class s s' \<and> strictly_ordered s' (entries t') \<and>
        a \<notin> set (addrs t) \<and> entries t = ds @ es \<and> entries t' = ds @ (a, v) # es)"
  using assms by (rule emplace_unique_ok)

text \<open>A container of naturals, to which the properties apply: the header at 1 and nothing else.\<close>

definition empty_tree :: "(nat, nat) rb_tree" where
  "empty_tree = header_init \<lparr>rt_nodes = \<lparr>node_color = \<lambda>_. False, node_parent = \<lambda>_. 0,
     node_left = \<lambda>_. 0, node_right = \<lambda>_. 0, node_data = \<lambda>_. 0\<rparr>, rt_header = 0, rt_compare = (<),
     rt_key = id, rt_size = 0, rt_free = 0, rt_chunks = 0\<rparr> 1"

lemma empty_tree_inv: "rt_inv empty_tree Leaf []" "strictly_ordered empty_tree []"
  "fresh_chunk empty_tree Leaf 2" "in_order empty_tree []"
  by (simp_all add: empty_tree_def header_init_def rt_inv_def rt_holds_def rt_pool_def focus_def
    rt_root_def rt_leftmost_def rt_rightmost_def red_black_def in_order_def strictly_ordered_def
    fresh_chunk_def RB_TREE_RED_def)

lemma emplace_unique_correct_witness:
  "\<exists>a s' t' free. emplace_unique 2 7 empty_tree = Some ((a, True), s') \<and> rt_inv s' t' free \<and>
    entries t' = [(a, 7)]"
  using emplace_unique_correct [of empty_tree Leaf "[]" 2 7] empty_tree_inv by fastforce

lemma emplace_equal_ok:
  assumes "rt_inv s t free" "free = [] \<Longrightarrow> fresh_chunk s t chunk"
  shows "\<exists>a s' t' free' ds es. emplace_equal chunk v s = Some (a, s') \<and> rt_inv s' t' free' \<and>
    same_class s s' \<and> a \<notin> set (addrs t) \<and> entries t = ds @ es \<and> entries t' = ds @ (a, v) # es \<and>
    (\<forall>d \<in> set ds. \<not> rt_compare s (rt_key s v) (entry_key s d)) \<and>
    (\<forall>e \<in> set es. rt_compare s (rt_key s v) (entry_key s e))"
proof -
  have swo: "strict_weak_order (rt_compare s)" and ord: "in_order s (entries t)"
    using assms(1) by (auto simp: rt_inv_def)
  obtain a s1 free1 where n: "create_node chunk v s = (a, s1)" "rt_holds s1 t" "rt_pool s1 t free1"
    "taken s1 t free1 a" "node_data (rt_nodes s1) a = v" and c1: "same_class s s1"
    using create_node_ok [OF _ _ assms(2)] assms(1) unfolding rt_inv_def by blast
  note eqs = same_class_simps [OF c1]
  have k: "key_at s1 a = rt_key s v" using n(5) eqs(3) by (simp add: key_at_def)
  have code: "emplace_equal chunk v s = insert_equal a s1" using n(1) by (simp add: emplace_equal_def)
  obtain s' t' ds es where r: "insert_equal a s1 = Some (a, s')" "rt_holds s' t'"
    "rt_pool s' t' free1" "same_class s1 s'" "entries t = ds @ es" "entries t' = ds @ (a, v) # es"
    "\<forall>d \<in> set ds. \<not> rt_compare s (rt_key s v) (entry_key s d)"
    "\<forall>e \<in> set es. rt_compare s (rt_key s v) (entry_key s e)"
    using insert_equal_ok [OF n(2,3,4)] swo ord unfolding eqs k n(5) by blast
  have c2: "same_class s s'" by (rule same_class_trans [OF c1 r(4)])
  have "in_order s (entries t')"
    using ord r(5-8) swo_asym [OF swo] unfolding in_order_def
    by (auto simp: sorted_wrt_append entry_key_def)
  then have inv': "rt_inv s' t' free1"
    using r swo same_class_simps [OF c2] by (simp add: rt_inv_def)
  show ?thesis
    by (rule exI [of _ a], rule exI [of _ s'], rule exI [of _ t'], rule exI [of _ free1],
      rule exI [of _ ds], rule exI [of _ es],
      use code r c2 n(4) inv' in \<open>simp add: taken_def\<close>)
qed

text \<open>C30 (emplace_equal_correct): \<open>emplace_equal\<close> ends and places the new entry behind the entries
whose keys are not greater and before those that are, so equivalent keys keep their order of
insertion; the tree is a red-black tree again.\<close>

theorem emplace_equal_correct:
  assumes "rt_inv s t free" "free = [] \<Longrightarrow> fresh_chunk s t chunk"
  shows "\<exists>a s' t' free' ds es. emplace_equal chunk v s = Some (a, s') \<and> rt_inv s' t' free' \<and>
    same_class s s' \<and> a \<notin> set (addrs t) \<and> entries t = ds @ es \<and> entries t' = ds @ (a, v) # es \<and>
    (\<forall>d \<in> set ds. \<not> rt_compare s (rt_key s v) (entry_key s d)) \<and>
    (\<forall>e \<in> set es. rt_compare s (rt_key s v) (entry_key s e))"
  using assms by (rule emplace_equal_ok)

lemma emplace_equal_correct_witness:
  "\<exists>a s' t' free. emplace_equal 2 7 empty_tree = Some (a, s') \<and> rt_inv s' t' free \<and>
    entries t' = [(a, 7)]"
  using emplace_equal_correct [of empty_tree Leaf "[]" 2 7] empty_tree_inv by fastforce

lemma focus_entry:
  "focus m h gs p t \<Longrightarrow> entries t = ds @ e # es \<Longrightarrow>
    \<exists>fs l c r. focus m h fs (fst e) (Node l (fst e) c (snd e) r) \<and>
      plug fs (Node l (fst e) c (snd e) r) = plug gs t \<and>
      before fs @ entries l = before gs @ ds \<and> entries r @ after fs = es @ after gs"
proof (induction t arbitrary: gs p ds es)
  case (Node l a c v r)
  have p: "p = a" using Node.prems(1) by (simp add: focus_def)
  note F = Node.prems(1) [unfolded p]
  from Node.prems(2) consider us where "entries l = ds @ e # us" "es = us @ (a, v) # entries r"
    | "ds = entries l" "e = (a, v)" "es = entries r"
    | us where "entries r = us @ e # es" "ds = entries l @ (a, v) # us"
    by (auto simp: append_eq_append_conv2 append_eq_Cons_conv Cons_eq_append_conv)
  then show ?case
  proof cases
    case 1
    then show ?thesis using Node.IH(1) [OF focus_down_left [OF F] 1(1)] by simp
  next
    case 2
    then show ?thesis using F by (intro exI [of _ gs]) auto
  next
    case 3
    then show ?thesis using Node.IH(2) [OF focus_down_right [OF F] 3(1)] by simp
  qed
qed simp

lemma step_next:
  assumes "rt_holds s t" "entries t = ds @ e # es"
  shows "iter_increment (rt_nodes s) (fst e) = Some (first_addr (rt_header s) es)"
proof -
  obtain fs l c r where F: "focus (rt_nodes s) (rt_header s) fs (fst e) (Node l (fst e) c (snd e) r)"
    "plug fs (Node l (fst e) c (snd e) r) = t" "entries r @ after fs = es"
    using focus_entry [of "rt_nodes s" "rt_header s" "[]" "rt_root s" t ds e es] assms
    by (auto simp: rt_holds_def)
  then show ?thesis
    using increment_ok [OF F(1)] assms(1) by (simp add: rt_holds_def rt_rightmost_def)
qed

lemma step_prev:
  assumes "rt_holds s t" "entries t = ds @ e # es" "ds \<noteq> []"
  shows "iter_decrement (rt_nodes s) (fst e) = Some (last_addr (rt_header s) ds)"
proof -
  obtain fs l c r where F: "focus (rt_nodes s) (rt_header s) fs (fst e) (Node l (fst e) c (snd e) r)"
    "plug fs (Node l (fst e) c (snd e) r) = t" "before fs @ entries l = ds"
    using focus_entry [of "rt_nodes s" "rt_header s" "[]" "rt_root s" t ds e es] assms
    by (auto simp: rt_holds_def)
  moreover have "fs = [] \<Longrightarrow> c" using F(2) assms(1) by (auto simp: rt_holds_def red_black_def)
  ultimately show ?thesis using decrement_ok [OF F(1)] assms(3) by simp
qed

text \<open>C33 (iterators_in_order): \<open>begin\<close> is the first entry, each increment goes to the next one and from
the last to \<open>end\<close>, each decrement goes back, also from \<open>end\<close>.\<close>

theorem iterators_in_order:
  assumes "rt_inv s t free"
  shows "rt_begin s = first_addr (rt_end s) (entries t) \<and>
    (\<forall>ds e es. entries t = ds @ e # es \<longrightarrow>
      iter_increment (rt_nodes s) (fst e) = Some (first_addr (rt_end s) es) \<and>
      iter_decrement (rt_nodes s) (first_addr (rt_end s) es) = Some (fst e))"
proof (intro conjI allI impI)
  have holds: "rt_holds s t" using assms by (simp add: rt_inv_def)
  then show "rt_begin s = first_addr (rt_end s) (entries t)"
    by (simp add: rt_begin_def rt_end_def rt_holds_def)
  fix ds e es
  assume t: "entries t = ds @ e # es"
  show "iter_increment (rt_nodes s) (fst e) = Some (first_addr (rt_end s) es)"
    using step_next [OF holds t] by (simp add: rt_end_def)
  show "iter_decrement (rt_nodes s) (first_addr (rt_end s) es) = Some (fst e)"
  proof (cases es)
    case Nil
    have "t \<noteq> Leaf" using t by auto
    then show ?thesis
      using decrement_end [of "rt_nodes s" "rt_header s" "rt_root s" t] holds t Nil
      by (simp add: rt_end_def rt_holds_def rt_rightmost_def)
  next
    case (Cons e' es')
    then show ?thesis using step_prev [OF holds, of "ds @ [e]" e' es'] t by simp
  qed
qed

text \<open>A container with three entries.\<close>

definition three_tree :: "(nat, nat) rb_tree" where
  "three_tree = \<lparr>rt_nodes = \<lparr>node_color = (\<lambda>_. False)(3 := True),
     node_parent = (\<lambda>_. 0)(1 := 3, 3 := 1, 4 := 3, 5 := 3),
     node_left = (\<lambda>_. 0)(1 := 4, 3 := 4), node_right = (\<lambda>_. 0)(1 := 5, 3 := 5),
     node_data = (\<lambda>_. 0)(3 := 7, 4 := 3, 5 := 9)\<rparr>, rt_header = 1, rt_compare = (<),
     rt_key = id, rt_size = 3, rt_free = 0, rt_chunks = 0\<rparr>"

definition three_shape :: "nat shape" where
  "three_shape = Node (Node Leaf 4 False 3 Leaf) 3 True 7 (Node Leaf 5 False 9 Leaf)"

lemma three_tree_simps:
  "rt_header three_tree = 1" "rt_compare three_tree = (<)" "rt_key three_tree = id"
  "rt_size three_tree = 3" "rt_free three_tree = 0"
  "node_color (rt_nodes three_tree) = (\<lambda>_. False)(3 := True)"
  "node_parent (rt_nodes three_tree) = (\<lambda>_. 0)(1 := 3, 3 := 1, 4 := 3, 5 := 3)"
  "node_left (rt_nodes three_tree) = (\<lambda>_. 0)(1 := 4, 3 := 4)"
  "node_right (rt_nodes three_tree) = (\<lambda>_. 0)(1 := 5, 3 := 5)"
  "node_data (rt_nodes three_tree) = (\<lambda>_. 0)(3 := 7, 4 := 3, 5 := 9)"
  by (simp_all add: three_tree_def)

lemma three_tree_inv: "rt_inv three_tree three_shape []"
proof -
  have "focus (rt_nodes three_tree) 1 [] 3 three_shape"
    unfolding focus_def three_shape_def by (simp add: three_tree_simps)
  moreover have "red_black three_shape" by (simp add: red_black_def three_shape_def)
  moreover have "entries three_shape = [(4, 3), (3, 7), (5, 9)]" "addrs three_shape = [3, 4, 5]"
    by (simp_all add: three_shape_def)
  ultimately show ?thesis
    unfolding rt_inv_def rt_holds_def rt_pool_def rt_root_def rt_leftmost_def rt_rightmost_def
      in_order_def entry_key_def RB_TREE_RED_def
    by (simp add: three_tree_simps)
qed

lemma iterators_in_order_witness:
  "iter_increment (rt_nodes three_tree) 3 = Some 5 \<and> iter_decrement (rt_nodes three_tree) 5 = Some 3"
proof -
  have "entries three_shape = [(4, 3)] @ (3, 7) # [(5, 9)]" by (simp add: three_shape_def)
  from iterators_in_order [OF three_tree_inv, THEN conjunct2, rule_format, OF this]
  show ?thesis by simp
qed

lemma count_loop_ok:
  "rt_holds s t \<Longrightarrow> entries t = ds @ es \<Longrightarrow> (\<And>e. e \<in> set es \<Longrightarrow> fst e \<noteq> rt_header s) \<Longrightarrow>
    (\<And>e. e \<in> set es \<Longrightarrow> key_at s (fst e) = entry_key s e) \<Longrightarrow>
    count_loop s k (first_addr (rt_header s) es) n =
      Some (n + length (takeWhile (\<lambda>e. \<not> rt_compare s k (entry_key s e)) es))"
proof (induction es arbitrary: ds n)
  case (Cons e es)
  show ?case
  proof (cases "rt_compare s k (entry_key s e)")
    case False
    then show ?thesis
      using Cons.IH [OF Cons.prems(1), of "ds @ [e]" "n + 1"] Cons.prems(2-4)
        step_next [OF Cons.prems(1,2)]
      by (subst count_loop.simps) (simp add: successor_increment)
  qed (use Cons.prems in \<open>subst count_loop.simps, simp\<close>)
qed (subst count_loop.simps, simp)

lemma entry_facts:
  assumes "rt_holds s t" "e \<in> set (entries t)"
  shows "fst e \<noteq> rt_header s" "key_at s (fst e) = entry_key s e"
proof -
  have "fst e \<in> set (addrs t)" using assms(2) by (simp add: set_addrs)
  then show "fst e \<noteq> rt_header s" using assms(1) by (auto simp: rt_holds_def focus_def)
  show "key_at s (fst e) = entry_key s e"
    using assms tree_at_data by (fastforce simp: rt_holds_def focus_def key_at_def entry_key_def)
qed

text \<open>The entries that a key divides an ordered list into.\<close>

lemma divided:
  assumes "strict_weak_order (rt_compare s)" "in_order s es"
  shows "filter (equivalent s k) es = takeWhile (\<lambda>e. \<not> rt_compare s k (entry_key s e))
      (dropWhile (\<lambda>e. rt_compare s (entry_key s e) k) es)"
  using assms(2)
proof (induction es)
  case (Cons e es)
  note IH = Cons.IH and ord = Cons.prems [unfolded in_order_Cons]
  show ?case
  proof (cases "rt_compare s (entry_key s e) k")
    case True
    then show ?thesis using IH ord by (simp add: equivalent_def)
  next
    case ge: False
    have rest: "\<not> rt_compare s (entry_key s d) k" if "d \<in> set es" for d
      using in_order_prefix(1) [OF assms(1), of d e k] ord ge that by blast
    show ?thesis
    proof (cases "rt_compare s k (entry_key s e)")
      case True
      then have "\<forall>d \<in> set es. rt_compare s k (entry_key s d)"
        using in_order_prefix(2) [OF assms(1), of _ e k] ord by blast
      then show ?thesis using True ge by (auto simp: equivalent_def filter_empty_conv)
    next
      case False
      have "dropWhile (\<lambda>e. rt_compare s (entry_key s e) k) es = es"
        using rest by (cases es) auto
      then show ?thesis using IH ord ge False by (simp add: equivalent_def)
    qed
  qed
qed (simp add: equivalent_def)

text \<open>C34 (searches_correct): in an ordered container \<open>lower_bound\<close> and \<open>upper_bound\<close> are the first
entry not less and the first greater than the key, or \<open>end\<close>; \<open>find\<close> is the first equivalent entry, or
\<open>end\<close>; \<open>contains\<close> says whether there is one and \<open>count\<close> how many.  Every search ends.\<close>

theorem searches_correct:
  assumes "rt_inv s t free"
  shows "rt_lower_bound s k =
      Some (first_addr (rt_end s) (dropWhile (\<lambda>e. rt_compare s (entry_key s e) k) (entries t))) \<and>
    rt_upper_bound s k =
      Some (first_addr (rt_end s) (dropWhile (\<lambda>e. \<not> rt_compare s k (entry_key s e)) (entries t))) \<and>
    rt_find s k = Some (first_addr (rt_end s) (filter (equivalent s k) (entries t))) \<and>
    rt_contains s k = Some (\<exists>e \<in> set (entries t). equivalent s k e) \<and>
    rt_count s k = Some (length (filter (equivalent s k) (entries t)))"
proof -
  have holds: "rt_holds s t" and swo: "strict_weak_order (rt_compare s)" and ord: "in_order s (entries t)"
    using assms by (auto simp: rt_inv_def)
  have at: "tree_at (rt_nodes s) (rt_header s) (rt_root s) t"
    using holds by (simp add: rt_holds_def focus_def)
  define es where "es = dropWhile (\<lambda>e. rt_compare s (entry_key s e) k) (entries t)"
  have lower: "lower_loop s k (rt_root s) (rt_header s) = Some (first_addr (rt_header s) es)"
    unfolding es_def by (rule lower_loop_ok [OF at swo ord])
  have upper: "upper_loop s k (rt_root s) (rt_header s) =
    Some (first_addr (rt_header s) (dropWhile (\<lambda>e. \<not> rt_compare s k (entry_key s e)) (entries t)))"
    by (rule upper_loop_ok [OF at swo ord])
  note eq = divided [OF swo ord, of k, folded es_def]
  obtain ds where ds: "entries t = ds @ es"
    unfolding es_def by (metis takeWhile_dropWhile_id)
  have facts: "fst e \<noteq> rt_header s" "key_at s (fst e) = entry_key s e" if "e \<in> set es" for e
    using entry_facts [OF holds] that ds by auto
  have contains: "(\<exists>e \<in> set (entries t). equivalent s k e) \<longleftrightarrow> filter (equivalent s k) (entries t) \<noteq> []"
    by (simp add: filter_empty_conv)
  have "rt_find s k = Some (first_addr (rt_end s) (filter (equivalent s k) (entries t)))"
    "rt_contains s k = Some (\<exists>e \<in> set (entries t). equivalent s k e)"
    "rt_count s k = Some (length (filter (equivalent s k) (entries t)))"
    unfolding contains eq
    using lower facts count_loop_ok [OF holds, of "ds @ [hd es]" "tl es" k 1] step_next [OF holds, of ds "hd es" "tl es"] ds
    by (cases es; simp add: rt_find_def rt_contains_def rt_count_def rt_end_def successor_increment)+
  then show ?thesis using lower upper by (simp add: rt_lower_bound_def rt_upper_bound_def rt_end_def es_def)
qed

lemma searches_correct_witness:
  "rt_find three_tree 9 = Some 5 \<and> rt_count three_tree 4 = Some 0 \<and> rt_lower_bound three_tree 4 = Some 3"
  using searches_correct [OF three_tree_inv, of 9] searches_correct [OF three_tree_inv, of 4]
  by (simp add: three_tree_simps three_shape_def equivalent_def entry_key_def rt_end_def)

section \<open>Height\<close>

primrec shape_height :: "'v shape \<Rightarrow> nat" where
  "shape_height Leaf = 0"
| "shape_height (Node l a c v r) = Suc (max (shape_height l) (shape_height r))"

lemma height_blacks:
  "level t \<Longrightarrow> no_red_red t \<Longrightarrow> shape_height t \<le> 2 * blacks t + (if top_black t then 0 else 1)"
proof (induction t)
  case (Node l a c v r)
  then show ?case by (cases c; cases "top_black l"; cases "top_black r") auto
qed simp

lemma blacks_entries: "level t \<Longrightarrow> 2 ^ blacks t \<le> length (entries t) + 1"
proof (induction t)
  case (Node l a c v r)
  then have "2 ^ blacks l \<le> length (entries l) + 1" "2 ^ blacks l \<le> length (entries r) + 1" by auto
  then show ?case by simp
qed simp

text \<open>With \<open>n\<close> entries no path from the root is longer than \<open>2 log (n + 1)\<close>.\<close>

lemma height_logarithmic:
  assumes "rt_inv s t free"
  shows "2 ^ shape_height t \<le> (rt_size s + 1) ^ 2"
proof -
  have t: "level t" "no_red_red t" "top_black t" "rt_size s = length (entries t)"
    using assms by (auto simp: rt_inv_def rt_holds_def red_black_def)
  have "(2::nat) ^ shape_height t \<le> 2 ^ (2 * blacks t)"
    using height_blacks [OF t(1,2)] t(3) by (simp add: power_increasing)
  also have "\<dots> = (2 ^ blacks t) ^ 2" by (simp add: power_even_eq)
  also have "\<dots> \<le> (rt_size s + 1) ^ 2"
    using blacks_entries [OF t(1)] t(4) by (simp add: power_mono)
  finally show ?thesis .
qed

end
