(* ===== verification/RbErase.thy ===== *)
theory RbErase
  imports RbTree
begin

text \<open>
The loop of \<open>rb_tree_erase_rebalance\<close> (\<open>include/NeForce/core/container/rb_tree.hpp\<close>).  One round of the rebalancing loop is
\<open>erase_round\<close>; it answers the new \<open>x\<close>, \<open>x_parent\<close> and memory, and whether the loop goes on
(\<open>continue\<close> or the end of the body) or is left by \<open>break\<close>.
\<close>

section \<open>The code\<close>

definition is_black :: "'v rb_nodes \<Rightarrow> nat \<Rightarrow> bool" where
  "is_black m a \<longleftrightarrow> a = 0 \<or> node_color m a = RB_TREE_BLACK"

definition sibling_left :: "nat \<Rightarrow> nat \<Rightarrow> nat \<Rightarrow> 'v rb_nodes \<Rightarrow> nat \<times> 'v rb_nodes" where
  "sibling_left header xp w m =
    (if node_color m w = RB_TREE_RED then
       (let m = set_color m w RB_TREE_BLACK;
            m = set_color m xp RB_TREE_RED;
            m = rb_tree_rotate_left header xp m
        in (node_right m xp, m))
     else (w, m))"

definition repair_left ::
    "nat \<Rightarrow> nat \<Rightarrow> nat \<Rightarrow> nat \<Rightarrow> 'v rb_nodes \<Rightarrow> (nat \<times> nat \<times> 'v rb_nodes) \<times> bool" where
  "repair_left header x xp w m =
    (if is_black m (node_left m w) \<and> is_black m (node_right m w) then
       (let m = set_color m w RB_TREE_RED in ((xp, node_parent m xp, m), True))
     else
       (let (w, m) = (if is_black m (node_right m w) then
                (let m = (if node_left m w \<noteq> 0 then set_color m (node_left m w) RB_TREE_BLACK else m);
                     m = set_color m w RB_TREE_RED;
                     m = rb_tree_rotate_right header w m
                 in (node_right m xp, m))
              else (w, m));
            m = set_color m w (node_color m xp);
            m = set_color m xp RB_TREE_BLACK;
            m = (if node_right m w \<noteq> 0 then set_color m (node_right m w) RB_TREE_BLACK else m)
        in ((x, xp, rb_tree_rotate_left header xp m), False)))"

definition sibling_right :: "nat \<Rightarrow> nat \<Rightarrow> nat \<Rightarrow> 'v rb_nodes \<Rightarrow> nat \<times> 'v rb_nodes" where
  "sibling_right header xp w m =
    (if node_color m w = RB_TREE_RED then
       (let m = set_color m w RB_TREE_BLACK;
            m = set_color m xp RB_TREE_RED;
            m = rb_tree_rotate_right header xp m
        in (node_left m xp, m))
     else (w, m))"

definition repair_right ::
    "nat \<Rightarrow> nat \<Rightarrow> nat \<Rightarrow> nat \<Rightarrow> 'v rb_nodes \<Rightarrow> (nat \<times> nat \<times> 'v rb_nodes) \<times> bool" where
  "repair_right header x xp w m =
    (if is_black m (node_right m w) \<and> is_black m (node_left m w) then
       (let m = set_color m w RB_TREE_RED in ((xp, node_parent m xp, m), True))
     else
       (let (w, m) = (if is_black m (node_left m w) then
                (let m = (if node_right m w \<noteq> 0 then set_color m (node_right m w) RB_TREE_BLACK else m);
                     m = set_color m w RB_TREE_RED;
                     m = rb_tree_rotate_left header w m
                 in (node_left m xp, m))
              else (w, m));
            m = set_color m w (node_color m xp);
            m = set_color m xp RB_TREE_BLACK;
            m = (if node_left m w \<noteq> 0 then set_color m (node_left m w) RB_TREE_BLACK else m)
        in ((x, xp, rb_tree_rotate_right header xp m), False)))"

definition erase_round ::
    "nat \<Rightarrow> nat \<Rightarrow> nat \<Rightarrow> 'v rb_nodes \<Rightarrow> (nat \<times> nat \<times> 'v rb_nodes) \<times> bool" where
  "erase_round header x xp m =
    (if x = node_left m xp then
       (let w = node_right m xp
        in if w = 0 then ((xp, node_parent m xp, m), True)
           else (let (w, m) = sibling_left header xp w m in repair_left header x xp w m))
     else
       (let w = node_left m xp
        in if w = 0 then ((xp, node_parent m xp, m), True)
           else (let (w, m) = sibling_right header xp w m in repair_right header x xp w m)))"

partial_function (option) erase_loop ::
    "nat \<Rightarrow> nat \<Rightarrow> nat \<Rightarrow> 'v rb_nodes \<Rightarrow> (nat \<times> 'v rb_nodes) option" where
  "erase_loop header x xp m =
    (if x \<noteq> node_parent m header \<and> is_black m x then
       (case erase_round header x xp m of ((x, xp, m), go) \<Rightarrow>
          (if go then erase_loop header x xp m else Some (x, m)))
     else Some (x, m))"

section \<open>One round\<close>

text \<open>What a subtree that has lost a black node may look like: a red top may stand above red nodes.\<close>

primrec nearly_ok :: "'v shape \<Rightarrow> bool" where
  "nearly_ok Leaf = True"
| "nearly_ok (Node l a c v r) \<longleftrightarrow> blacks l = blacks r \<and> subtree_ok l \<and> subtree_ok r \<and>
    (c \<and> a \<noteq> 0 \<or> \<not> c)"

lemma is_black_root:
  "tree_at m par p t \<Longrightarrow> is_black m p = top_black t"
  by (cases t) (auto simp: is_black_def RB_TREE_BLACK_def)

lemma focus_is_black:
  assumes "focus m h fs a (Node l a c v r)"
  shows "is_black m (node_left m a) = top_black l" "is_black m (node_right m a) = top_black r"
proof -
  have "tree_at m a (node_left m a) l" "tree_at m a (node_right m a) r"
    using assms by (auto simp: focus_def)
  then show "is_black m (node_left m a) = top_black l" "is_black m (node_right m a) = top_black r"
    using is_black_root by blast+
qed

lemma sibling_left_red:
  assumes F: "focus m h fs p (Node t p True v (Node wl w False vw wr))"
  shows "\<exists>m'. sibling_left h p w m = (root_addr wl, m') \<and>
    focus m' h fs w (Node (Node t p False v wl) w True vw wr) \<and>
    untouched h (region fs (Node t p True v (Node wl w False vw wr))) m m'"
proof -
  define m1 where "m1 = set_color m w RB_TREE_BLACK"
  define m2 where "m2 = set_color m1 p RB_TREE_RED"
  define m3 where "m3 = rb_tree_rotate_left h p m2"
  note W = focus_reads [OF focus_down_right [OF F, simplified root_addr.simps], simplified]
  have F2: "focus m2 h fs p (Node t p False v (Node wl w True vw wr))"
    unfolding m2_def m1_def RB_TREE_RED_def RB_TREE_BLACK_def
    by (rule set_color_ok, rule recolor_right, rule F)
  have F3: "focus m3 h fs w (Node (Node t p False v wl) w True vw wr)"
    unfolding m3_def by (rule rotate_left_ok [OF F2])
  note P = focus_reads [OF focus_down_left [OF F3, simplified root_addr.simps], simplified]
  have "sibling_left h p w m = (node_right m3 p, m3)"
    using W by (simp add: sibling_left_def RB_TREE_RED_def Let_def m3_def m2_def m1_def)
  then have "sibling_left h p w m = (root_addr wl, m3)" using P by simp
  moreover have "untouched h (region fs (Node t p True v (Node wl w False vw wr))) m m3"
  proof (rule untouched_trans)
    show "untouched h (region fs (Node t p True v (Node wl w False vw wr))) m m2"
      unfolding m2_def m1_def by (simp add: untouched_set region_def)
    show "untouched h (region fs (Node t p True v (Node wl w False vw wr))) m2 m3"
      using rotate_left_untouched [OF F2] unfolding m3_def by (simp add: region_def)
  qed
  ultimately show ?thesis using F3 by blast
qed

lemma repair_left_up:
  assumes F: "focus m h fs p (Node t p c v (Node wl w True vw wr))" and b: "top_black wl" "top_black wr"
  shows "\<exists>m'. repair_left h x p w m = ((p, above h fs, m'), True) \<and>
    focus m' h fs p (Node t p c v (Node wl w False vw wr)) \<and>
    untouched h (region fs (Node t p c v (Node wl w True vw wr))) m m'"
proof (intro exI conjI)
  note W = focus_down_right [OF F, simplified root_addr.simps]
  show "repair_left h x p w m = ((p, above h fs, set_color m w RB_TREE_RED), True)"
    using focus_is_black [OF W] b focus_reads(1) [OF F] by (simp add: repair_left_def)
  show "focus (set_color m w RB_TREE_RED) h fs p (Node t p c v (Node wl w False vw wr))"
    unfolding RB_TREE_RED_def by (rule recolor_right [OF F])
  show "untouched h (region fs (Node t p c v (Node wl w True vw wr))) m (set_color m w RB_TREE_RED)"
    by (simp add: untouched_set region_def)
qed

lemma repair_left_outer:
  assumes F: "focus m h fs p (Node t p c v (Node wl w True vw (Node r1 b False vb r2)))"
  shows "\<exists>m'. repair_left h x p w m = ((x, p, m'), False) \<and>
    focus m' h fs w (Node (Node t p True v wl) w c vw (Node r1 b True vb r2)) \<and>
    untouched h (region fs (Node t p c v (Node wl w True vw (Node r1 b False vb r2)))) m m'"
proof -
  define m1 where "m1 = set_color m w c"
  define m2 where "m2 = set_color m1 p RB_TREE_BLACK"
  define m3 where "m3 = set_color m2 b RB_TREE_BLACK"
  define m4 where "m4 = rb_tree_rotate_left h p m3"
  note FW = focus_down_right [OF F, simplified root_addr.simps]
  note FB = focus_down_right [OF FW, simplified root_addr.simps]
  note P = focus_reads [OF F] and W = focus_reads [OF FW, simplified] and B = focus_reads [OF FB, simplified]
  have b: "b \<noteq> 0" using B(6) by simp
  have rb: "node_right m w = b" using W by simp
  have "focus m1 h fs p (Node t p c v (Node wl w c vw (Node r1 b False vb r2)))"
    unfolding m1_def by (rule recolor_right [OF F])
  then have F2: "focus m2 h fs p (Node t p True v (Node wl w c vw (Node r1 b False vb r2)))"
    unfolding m2_def RB_TREE_BLACK_def by (rule set_color_ok)
  have "focus m3 h ((InRight t p True v) # fs) w (Node wl w c vw (Node r1 b True vb r2))"
    unfolding m3_def RB_TREE_BLACK_def by (rule recolor_right [OF focus_down_right [OF F2, simplified root_addr.simps]])
  then have F3: "focus m3 h fs p (Node t p True v (Node wl w c vw (Node r1 b True vb r2)))"
    by (simp add: focus_up)
  have "focus m4 h fs w (Node (Node t p True v wl) w c vw (Node r1 b True vb r2))"
    unfolding m4_def by (rule rotate_left_ok [OF F3])
  moreover have "repair_left h x p w m = ((x, p, m4), False)"
    using focus_is_black [OF FW] P(2) rb b
    by (simp add: repair_left_def Let_def m4_def m3_def m2_def m1_def)
  moreover have "untouched h (region fs (Node t p c v (Node wl w True vw (Node r1 b False vb r2)))) m m4"
  proof (rule untouched_trans)
    show "untouched h (region fs (Node t p c v (Node wl w True vw (Node r1 b False vb r2)))) m m3"
      unfolding m3_def m2_def m1_def by (simp add: untouched_set region_def)
    show "untouched h (region fs (Node t p c v (Node wl w True vw (Node r1 b False vb r2)))) m3 m4"
      using rotate_left_untouched [OF F3] unfolding m4_def by (simp add: region_def)
  qed
  ultimately show ?thesis by blast
qed

lemma repair_left_inner:
  assumes F: "focus m h fs p (Node t p c v (Node (Node l1 b False vb l2) w True vw wr))"
    and black: "top_black wr"
  shows "\<exists>m'. repair_left h x p w m = ((x, p, m'), False) \<and>
    focus m' h fs b (Node (Node t p True v l1) b c vb (Node l2 w True vw wr)) \<and>
    untouched h (region fs (Node t p c v (Node (Node l1 b False vb l2) w True vw wr))) m m'"
    (is "\<exists>m'. _ \<and> _ \<and> untouched h ?A m m'")
proof -
  define m1 where "m1 = set_color m b RB_TREE_BLACK"
  define m2 where "m2 = set_color m1 w RB_TREE_RED"
  define m3 where "m3 = rb_tree_rotate_right h w m2"
  define m4 where "m4 = set_color m3 b c"
  define m5 where "m5 = set_color m4 p RB_TREE_BLACK"
  define m6 where "m6 = set_color m5 w RB_TREE_BLACK"
  define m7 where "m7 = rb_tree_rotate_left h p m6"
  note FW = focus_down_right [OF F, simplified root_addr.simps]
  note FB = focus_down_left [OF FW, simplified root_addr.simps]
  note W = focus_reads [OF FW, simplified]
  have b: "b \<noteq> 0" "w \<noteq> 0" using focus_reads(6) [OF FB] focus_reads(6) [OF FW] by simp_all
  have "focus m1 h ((InRight t p c v) # fs) w (Node (Node l1 b True vb l2) w True vw wr)"
    unfolding m1_def RB_TREE_BLACK_def by (rule recolor_left [OF FW])
  then have F2: "focus m2 h ((InRight t p c v) # fs) w (Node (Node l1 b True vb l2) w False vw wr)"
    unfolding m2_def RB_TREE_RED_def by (rule set_color_ok)
  then have F2': "focus m2 h fs p (Node t p c v (Node (Node l1 b True vb l2) w False vw wr))"
    by (simp add: focus_up)
  have F3: "focus m3 h fs p (Node t p c v (Node l1 b True vb (Node l2 w False vw wr)))"
    unfolding m3_def by (rule rotate_right_child_right [OF F2'])
  note P3 = focus_reads [OF F3]
  have "focus m4 h fs p (Node t p c v (Node l1 b c vb (Node l2 w False vw wr)))"
    unfolding m4_def by (rule recolor_right [OF F3])
  then have F5: "focus m5 h fs p (Node t p True v (Node l1 b c vb (Node l2 w False vw wr)))"
    unfolding m5_def RB_TREE_BLACK_def by (rule set_color_ok)
  note B5 = focus_reads [OF focus_down_right [OF F5, simplified root_addr.simps], simplified]
  have "focus m6 h ((InRight t p True v) # fs) b (Node l1 b c vb (Node l2 w True vw wr))"
    unfolding m6_def RB_TREE_BLACK_def by (rule recolor_right [OF focus_down_right [OF F5, simplified root_addr.simps]])
  then have F6: "focus m6 h fs p (Node t p True v (Node l1 b c vb (Node l2 w True vw wr)))"
    by (simp add: focus_up)
  have "focus m7 h fs b (Node (Node t p True v l1) b c vb (Node l2 w True vw wr))"
    unfolding m7_def by (rule rotate_left_ok [OF F6])
  moreover have "repair_left h x p w m = ((x, p, m7), False)"
  proof -
    have "node_left m w = b" "node_right m3 p = b" "node_color m3 p = c" "node_right m3 b = w"
      using W(4) P3(2,5) B5(5) unfolding m5_def m4_def by simp_all
    then show ?thesis
      using focus_is_black [OF FW] black b
      unfolding m7_def m6_def m5_def m4_def
      by (simp add: repair_left_def Let_def m3_def m2_def m1_def)
  qed
  moreover have "untouched h ?A m m7"
  proof (rule untouched_trans [OF untouched_trans [OF untouched_trans]])
    show "untouched h ?A m m2" unfolding m2_def m1_def by (simp add: untouched_set region_def)
    show "untouched h ?A m2 m3"
      using rotate_right_untouched [OF F2] unfolding m3_def
      by (simp add: region_def insert_commute Un_ac)
    show "untouched h ?A m3 m6" unfolding m6_def m5_def m4_def by (simp add: untouched_set region_def)
    show "untouched h ?A m6 m7"
      using rotate_left_untouched [OF F6] unfolding m7_def
      by (simp add: region_def insert_commute Un_ac)
  qed
  ultimately show ?thesis by blast
qed

lemma sibling_right_red:
  assumes F: "focus m h fs p (Node (Node wr w False vw wl) p True v t)"
  shows "\<exists>m'. sibling_right h p w m = (root_addr wl, m') \<and>
    focus m' h fs w (Node wr w True vw (Node wl p False v t)) \<and>
    untouched h (region fs (Node (Node wr w False vw wl) p True v t)) m m'"
proof -
  define m1 where "m1 = set_color m w RB_TREE_BLACK"
  define m2 where "m2 = set_color m1 p RB_TREE_RED"
  define m3 where "m3 = rb_tree_rotate_right h p m2"
  note W = focus_reads [OF focus_down_left [OF F, simplified root_addr.simps], simplified]
  have F2: "focus m2 h fs p (Node (Node wr w True vw wl) p False v t)"
    unfolding m2_def m1_def RB_TREE_RED_def RB_TREE_BLACK_def
    by (rule set_color_ok, rule recolor_left, rule F)
  have F3: "focus m3 h fs w (Node wr w True vw (Node wl p False v t))"
    unfolding m3_def by (rule rotate_right_ok [OF F2])
  note P = focus_reads [OF focus_down_right [OF F3, simplified root_addr.simps], simplified]
  have "sibling_right h p w m = (node_left m3 p, m3)"
    using W by (simp add: sibling_right_def RB_TREE_RED_def Let_def m3_def m2_def m1_def)
  then have "sibling_right h p w m = (root_addr wl, m3)" using P by simp
  moreover have "untouched h (region fs (Node (Node wr w False vw wl) p True v t)) m m3"
  proof (rule untouched_trans)
    show "untouched h (region fs (Node (Node wr w False vw wl) p True v t)) m m2"
      unfolding m2_def m1_def by (simp add: untouched_set region_def)
    show "untouched h (region fs (Node (Node wr w False vw wl) p True v t)) m2 m3"
      using rotate_right_untouched [OF F2] unfolding m3_def by (simp add: region_def)
  qed
  ultimately show ?thesis using F3 by blast
qed

lemma repair_right_up:
  assumes F: "focus m h fs p (Node (Node wr w True vw wl) p c v t)" and b: "top_black wl" "top_black wr"
  shows "\<exists>m'. repair_right h x p w m = ((p, above h fs, m'), True) \<and>
    focus m' h fs p (Node (Node wr w False vw wl) p c v t) \<and>
    untouched h (region fs (Node (Node wr w True vw wl) p c v t)) m m'"
proof (intro exI conjI)
  note W = focus_down_left [OF F, simplified root_addr.simps]
  show "repair_right h x p w m = ((p, above h fs, set_color m w RB_TREE_RED), True)"
    using focus_is_black [OF W] b focus_reads(1) [OF F] by (simp add: repair_right_def)
  show "focus (set_color m w RB_TREE_RED) h fs p (Node (Node wr w False vw wl) p c v t)"
    unfolding RB_TREE_RED_def by (rule recolor_left [OF F])
  show "untouched h (region fs (Node (Node wr w True vw wl) p c v t)) m (set_color m w RB_TREE_RED)"
    by (simp add: untouched_set region_def)
qed

lemma repair_right_outer:
  assumes F: "focus m h fs p (Node (Node (Node r2 b False vb r1) w True vw wl) p c v t)"
  shows "\<exists>m'. repair_right h x p w m = ((x, p, m'), False) \<and>
    focus m' h fs w (Node (Node r2 b True vb r1) w c vw (Node wl p True v t)) \<and>
    untouched h (region fs (Node (Node (Node r2 b False vb r1) w True vw wl) p c v t)) m m'"
proof -
  define m1 where "m1 = set_color m w c"
  define m2 where "m2 = set_color m1 p RB_TREE_BLACK"
  define m3 where "m3 = set_color m2 b RB_TREE_BLACK"
  define m4 where "m4 = rb_tree_rotate_right h p m3"
  note FW = focus_down_left [OF F, simplified root_addr.simps]
  note FB = focus_down_left [OF FW, simplified root_addr.simps]
  note P = focus_reads [OF F] and W = focus_reads [OF FW, simplified] and B = focus_reads [OF FB, simplified]
  have b: "b \<noteq> 0" using B(6) by simp
  have rb: "node_left m w = b" using W by simp
  have "focus m1 h fs p (Node (Node (Node r2 b False vb r1) w c vw wl) p c v t)"
    unfolding m1_def by (rule recolor_left [OF F])
  then have F2: "focus m2 h fs p (Node (Node (Node r2 b False vb r1) w c vw wl) p True v t)"
    unfolding m2_def RB_TREE_BLACK_def by (rule set_color_ok)
  have "focus m3 h ((InLeft p True v t) # fs) w (Node (Node r2 b True vb r1) w c vw wl)"
    unfolding m3_def RB_TREE_BLACK_def by (rule recolor_left [OF focus_down_left [OF F2, simplified root_addr.simps]])
  then have F3: "focus m3 h fs p (Node (Node (Node r2 b True vb r1) w c vw wl) p True v t)"
    by (simp add: focus_up)
  have "focus m4 h fs w (Node (Node r2 b True vb r1) w c vw (Node wl p True v t))"
    unfolding m4_def by (rule rotate_right_ok [OF F3])
  moreover have "repair_right h x p w m = ((x, p, m4), False)"
    using focus_is_black [OF FW] P(2) rb b
    by (simp add: repair_right_def Let_def m4_def m3_def m2_def m1_def)
  moreover have "untouched h (region fs (Node (Node (Node r2 b False vb r1) w True vw wl) p c v t)) m m4"
  proof (rule untouched_trans)
    show "untouched h (region fs (Node (Node (Node r2 b False vb r1) w True vw wl) p c v t)) m m3"
      unfolding m3_def m2_def m1_def by (simp add: untouched_set region_def)
    show "untouched h (region fs (Node (Node (Node r2 b False vb r1) w True vw wl) p c v t)) m3 m4"
      using rotate_right_untouched [OF F3] unfolding m4_def by (simp add: region_def)
  qed
  ultimately show ?thesis by blast
qed

lemma repair_right_inner:
  assumes F: "focus m h fs p (Node (Node wr w True vw (Node l2 b False vb l1)) p c v t)"
    and black: "top_black wr"
  shows "\<exists>m'. repair_right h x p w m = ((x, p, m'), False) \<and>
    focus m' h fs b (Node (Node wr w True vw l2) b c vb (Node l1 p True v t)) \<and>
    untouched h (region fs (Node (Node wr w True vw (Node l2 b False vb l1)) p c v t)) m m'"
    (is "\<exists>m'. _ \<and> _ \<and> untouched h ?A m m'")
proof -
  define m1 where "m1 = set_color m b RB_TREE_BLACK"
  define m2 where "m2 = set_color m1 w RB_TREE_RED"
  define m3 where "m3 = rb_tree_rotate_left h w m2"
  define m4 where "m4 = set_color m3 b c"
  define m5 where "m5 = set_color m4 p RB_TREE_BLACK"
  define m6 where "m6 = set_color m5 w RB_TREE_BLACK"
  define m7 where "m7 = rb_tree_rotate_right h p m6"
  note FW = focus_down_left [OF F, simplified root_addr.simps]
  note FB = focus_down_right [OF FW, simplified root_addr.simps]
  note W = focus_reads [OF FW, simplified]
  have b: "b \<noteq> 0" "w \<noteq> 0" using focus_reads(6) [OF FB] focus_reads(6) [OF FW] by simp_all
  have "focus m1 h ((InLeft p c v t) # fs) w (Node wr w True vw (Node l2 b True vb l1))"
    unfolding m1_def RB_TREE_BLACK_def by (rule recolor_right [OF FW])
  then have F2: "focus m2 h ((InLeft p c v t) # fs) w (Node wr w False vw (Node l2 b True vb l1))"
    unfolding m2_def RB_TREE_RED_def by (rule set_color_ok)
  then have F2': "focus m2 h fs p (Node (Node wr w False vw (Node l2 b True vb l1)) p c v t)"
    by (simp add: focus_up)
  have F3: "focus m3 h fs p (Node (Node (Node wr w False vw l2) b True vb l1) p c v t)"
    unfolding m3_def by (rule rotate_left_child_left [OF F2'])
  note P3 = focus_reads [OF F3]
  have "focus m4 h fs p (Node (Node (Node wr w False vw l2) b c vb l1) p c v t)"
    unfolding m4_def by (rule recolor_left [OF F3])
  then have F5: "focus m5 h fs p (Node (Node (Node wr w False vw l2) b c vb l1) p True v t)"
    unfolding m5_def RB_TREE_BLACK_def by (rule set_color_ok)
  note B5 = focus_reads [OF focus_down_left [OF F5, simplified root_addr.simps], simplified]
  have "focus m6 h ((InLeft p True v t) # fs) b (Node (Node wr w True vw l2) b c vb l1)"
    unfolding m6_def RB_TREE_BLACK_def by (rule recolor_left [OF focus_down_left [OF F5, simplified root_addr.simps]])
  then have F6: "focus m6 h fs p (Node (Node (Node wr w True vw l2) b c vb l1) p True v t)"
    by (simp add: focus_up)
  have "focus m7 h fs b (Node (Node wr w True vw l2) b c vb (Node l1 p True v t))"
    unfolding m7_def by (rule rotate_right_ok [OF F6])
  moreover have "repair_right h x p w m = ((x, p, m7), False)"
  proof -
    have "node_right m w = b" "node_left m3 p = b" "node_color m3 p = c" "node_left m3 b = w"
      using W(5) P3(2,4) B5(4) unfolding m5_def m4_def by simp_all
    then show ?thesis
      using focus_is_black [OF FW] black b
      unfolding m7_def m6_def m5_def m4_def
      by (simp add: repair_right_def Let_def m3_def m2_def m1_def)
  qed
  moreover have "untouched h ?A m m7"
  proof (rule untouched_trans [OF untouched_trans [OF untouched_trans]])
    show "untouched h ?A m m2" unfolding m2_def m1_def by (simp add: untouched_set region_def)
    show "untouched h ?A m2 m3"
      using rotate_left_untouched [OF F2] unfolding m3_def
      by (simp add: region_def insert_commute Un_ac)
    show "untouched h ?A m3 m6" unfolding m6_def m5_def m4_def by (simp add: untouched_set region_def)
    show "untouched h ?A m6 m7"
      using rotate_right_untouched [OF F6] unfolding m7_def
      by (simp add: region_def insert_commute Un_ac)
  qed
  ultimately show ?thesis by blast
qed

section \<open>The loop\<close>

definition settle :: "(nat \<times> 'v rb_nodes) option \<Rightarrow> 'v rb_nodes option" where
  "settle r = (case r of None \<Rightarrow> None
     | Some (x, m) \<Rightarrow> Some (if x \<noteq> 0 then set_color m x RB_TREE_BLACK else m))"

definition erase_done :: "nat \<Rightarrow> 'v rb_nodes \<Rightarrow> 'v shape \<Rightarrow> 'v rb_nodes option \<Rightarrow> bool" where
  "erase_done h m t res \<longleftrightarrow> (\<exists>m' q t'. res = Some m' \<and> focus m' h [] q t' \<and>
    entries t' = entries t \<and> red_black t' \<and> untouched h (set (addrs t)) m m')"

lemma erase_done_step:
  assumes "untouched h (region fs t) m m'" "entries t' = entries t" "erase_done h m' (plug fs t') res"
  shows "erase_done h m (plug fs t) res"
proof -
  have "entries (plug fs t') = entries (plug fs t)" by (simp add: entries_plug assms(2))
  moreover have "set (addrs (plug fs t')) = set (addrs (plug fs t))"
    unfolding set_addrs by (simp add: entries_plug assms(2))
  ultimately show ?thesis
    using assms(1,3) unfolding erase_done_def region_plug by (auto intro: untouched_trans)
qed

lemma erase_done_plug:
  assumes "focus m h fs p t" "path_ok (blacks t) fs" "subtree_ok t" "fs = [] \<Longrightarrow> top_black t"
    "fs = [] \<or> top_black t \<or> frame_color (hd fs)"
  shows "erase_done h m (plug fs t) (Some m)"
proof -
  have "red_black (plug fs t)"
    using plug_red_black [OF assms(2,3,5)] assms(4) by (cases fs) (auto simp: red_black_def subtree_ok_def)
  then show ?thesis using focus_plug [OF assms(1)] unfolding erase_done_def by auto
qed

lemma focus_root_addr: "focus m h fs x t \<Longrightarrow> x = root_addr t"
  by (auto simp: focus_def dest: tree_at_root)

lemma focus_black: "focus m h fs x t \<Longrightarrow> is_black m x = top_black t"
  using is_black_root unfolding focus_def by blast

lemma erase_stop:
  assumes F: "focus m h fs x t" and ok: "nearly_ok t" "path_ok (blacks t + 1) fs \<or> fs = []"
    and stop: "fs = [] \<or> \<not> top_black t"
  shows "erase_done h m (plug fs t) (settle (erase_loop h x xp m))"
proof -
  have "fs = [] \<Longrightarrow> x = node_parent m h" using F by (simp add: focus_def)
  then have loop: "erase_loop h x xp m = Some (x, m)"
    using stop focus_black [OF F] by (subst erase_loop.simps) auto
  show ?thesis
  proof (cases t)
    case Leaf
    then have "x = 0" "fs = []" using focus_root_addr [OF F] stop by auto
    then show ?thesis using erase_done_plug [OF F] Leaf loop by (simp add: settle_def)
  next
    case (Node l a c v r)
    have x: "x = a" "x \<noteq> 0" using F Node by (auto simp: focus_def)
    have F': "focus (set_color m x RB_TREE_BLACK) h fs a (Node l a True v r)"
      using set_color_ok [OF F [unfolded Node x(1)]] unfolding x(1) RB_TREE_BLACK_def .
    have "untouched h (region fs t) m (set_color m x RB_TREE_BLACK)"
      by (simp add: untouched_set region_def Node x)
    moreover have "erase_done h (set_color m x RB_TREE_BLACK) (plug fs (Node l a True v r))
        (Some (set_color m x RB_TREE_BLACK))"
      by (rule erase_done_plug [OF F']) (use ok stop Node in auto)
    moreover have "settle (erase_loop h x xp m) = Some (set_color m x RB_TREE_BLACK)"
      using loop x by (simp add: settle_def)
    ultimately show ?thesis
      using erase_done_step [of h fs t m "set_color m x RB_TREE_BLACK" "Node l a True v r"] Node
      by simp
  qed
qed

text \<open>The rest of a round, by its answer.\<close>

definition follow :: "nat \<Rightarrow> (nat \<times> nat \<times> 'v rb_nodes) \<times> bool \<Rightarrow> 'v rb_nodes option" where
  "follow h res = (case res of ((x, xp, m), go) \<Rightarrow>
     settle (if go then erase_loop h x xp m else Some (x, m)))"

lemma settle_loop:
  "x \<noteq> node_parent m h \<Longrightarrow> is_black m x \<Longrightarrow>
    settle (erase_loop h x xp m) = follow h (erase_round h x xp m)"
  by (subst erase_loop.simps) (auto simp: follow_def split: prod.split)

lemma settle_black: "is_black m x \<Longrightarrow> settle (Some (x, m)) = Some m"
  by (auto simp: settle_def is_black_def set_color_def fun_upd_idem)

text \<open>The tree after a round that ends with \<open>break\<close>.\<close>

lemma follow_break:
  assumes "focus m' h fs q T" "entries T = entries t" "untouched h (region fs t) m m'"
    "subtree_ok T" "path_ok (blacks T) fs" "top_black T = c" "c \<or> fs \<noteq> [] \<and> frame_color (hd fs)"
    "is_black m' x"
  shows "erase_done h m (plug fs t) (follow h ((x, xp, m'), False))"
proof -
  have "erase_done h m' (plug fs T) (Some m')"
    using erase_done_plug [OF assms(1,5,4)] assms(6,7) by auto
  then show ?thesis
    using erase_done_step [OF assms(3,2)] settle_black [OF assms(8)] by (simp add: follow_def)
qed

lemma repair_left_done:
  assumes F: "focus m h fs p (Node t p c v (Node wl w True vw wr))"
    and t: "subtree_ok t" "top_black t" "subtree_ok (Node wl w True vw wr)" "blacks wl = blacks t"
      "blacks wr = blacks t"
    and path: "path_ok (blacks t + 1 + (if c then 1 else 0)) fs" "c \<or> fs \<noteq> [] \<and> frame_color (hd fs)"
    and up: "\<And>m'. focus m' h fs p (Node t p c v (Node wl w False vw wr)) \<Longrightarrow> top_black wl \<Longrightarrow> top_black wr \<Longrightarrow>
      erase_done h m' (plug fs (Node t p c v (Node wl w False vw wr))) (settle (erase_loop h p (above h fs) m'))"
    and x: "x = root_addr t"
  shows "erase_done h m (plug fs (Node t p c v (Node wl w True vw wr))) (follow h (repair_left h x p w m))"
proof (cases "top_black wr")
  case True
  show ?thesis
  proof (cases "top_black wl")
    case wl: True
    obtain m' where m': "repair_left h x p w m = ((p, above h fs, m'), True)"
      "focus m' h fs p (Node t p c v (Node wl w False vw wr))"
      "untouched h (region fs (Node t p c v (Node wl w True vw wr))) m m'"
      using repair_left_up [OF F wl True] by blast
    show ?thesis
      using erase_done_step [OF m'(3) _ up [OF m'(2) wl True]] m'(1) by (simp add: follow_def)
  next
    case False
    then obtain l1 b vb l2 where wl: "wl = Node l1 b False vb l2" by (cases wl) auto
    obtain m' where m': "repair_left h x p w m = ((x, p, m'), False)"
      "focus m' h fs b (Node (Node t p True v l1) b c vb (Node l2 w True vw wr))"
      "untouched h (region fs (Node t p c v (Node wl w True vw wr))) m m'"
      using repair_left_inner [OF F [unfolded wl] True] unfolding wl by blast
    have "is_black m' x"
      using focus_black [OF focus_down_left [OF focus_down_left [OF m'(2), simplified root_addr.simps]]] t(2) x by simp
    then show ?thesis unfolding m'(1)
      by (intro follow_break [OF m'(2) _ m'(3)]) (use t path True in \<open>auto simp: wl\<close>)
  qed
next
  case False
  then obtain r1 b vb r2 where wr: "wr = Node r1 b False vb r2" by (cases wr) auto
  obtain m' where m': "repair_left h x p w m = ((x, p, m'), False)"
    "focus m' h fs w (Node (Node t p True v wl) w c vw (Node r1 b True vb r2))"
    "untouched h (region fs (Node t p c v (Node wl w True vw wr))) m m'"
    using repair_left_outer [OF F [unfolded wr]] unfolding wr by blast
  have "is_black m' x"
    using focus_black [OF focus_down_left [OF focus_down_left [OF m'(2), simplified root_addr.simps]]] t(2) x by simp
  then show ?thesis unfolding m'(1)
    by (intro follow_break [OF m'(2) _ m'(3)]) (use t path in \<open>auto simp: wr\<close>)
qed

lemma round_left:
  assumes F: "focus m h fs p (Node t p c v (Node wl w cw vw wr))"
    and t: "subtree_ok t" "top_black t" and path: "path_ok (blacks t + 1) (InLeft p c v (Node wl w cw vw wr) # fs)"
    and IH: "\<And>m' T. focus m' h fs p T \<Longrightarrow> nearly_ok T \<Longrightarrow> path_ok (blacks T + 1) fs \<Longrightarrow>
      erase_done h m' (plug fs T) (settle (erase_loop h p (above h fs) m'))"
  shows "erase_done h m (plug fs (Node t p c v (Node wl w cw vw wr)))
    (settle (erase_loop h (root_addr t) p m))"
proof -
  note P = focus_reads [OF F]
  note Fx = focus_down_left [OF F]
  have not0: "p \<noteq> 0" "w \<noteq> 0" using P(6) focus_reads(6) [OF focus_down_right [OF F, simplified root_addr.simps]] by simp_all
  have x: "root_addr t \<noteq> node_parent m h"
  proof (cases t)
    case (Node t1 a ca va t2)
    then show ?thesis using focus_reads(8) [OF Fx [unfolded Node root_addr.simps]] by auto
  next
    case Leaf
    show ?thesis
    proof (cases "fs = []")
      case True
      then show ?thesis using P(6,8) Leaf by simp
    next
      case False
      have "node_parent m h \<in> set (path_addrs fs)"
        using root_top [of m h p fs] F False by (simp add: focus_def)
      moreover have "path_at m h q gs \<Longrightarrow> 0 \<notin> set (path_addrs gs)" for q gs
      proof (induction gs arbitrary: q)
        case (Cons g gs)
        have "tree_at m par q u \<Longrightarrow> 0 \<notin> set (addrs u)" for par q u
          by (induction u arbitrary: par q) auto
        then show ?case using Cons by (cases g) auto
      qed simp
      ultimately show ?thesis using F Leaf by (auto simp: focus_def)
    qed
  qed
  have other: "root_addr t \<noteq> w"
  proof (cases t)
    case (Node t1 a ca va t2)
    then show ?thesis using P(9) by auto
  qed (use not0 in simp)
  have black: "is_black m (root_addr t)" using focus_black [OF Fx] t(2) by simp
  have links: "node_left m p = root_addr t" "node_right m p = w" using P(4,5) by simp_all
  have round: "erase_round h (root_addr t) p m =
    (let (w', m') = sibling_left h p w m in repair_left h (root_addr t) p w' m')"
    using links not0 other by (simp add: erase_round_def)
  note step = settle_loop [OF x black, of p, unfolded round]
  show ?thesis
  proof (cases cw)
    case True
    have "sibling_left h p w m = (w, m)"
      using focus_reads(2) [OF focus_down_right [OF F, simplified root_addr.simps]] True by (simp add: sibling_left_def RB_TREE_RED_def)
    then have "settle (erase_loop h (root_addr t) p m) = follow h (repair_left h (root_addr t) p w m)"
      using step by simp
    moreover have "erase_done h m (plug fs (Node t p c v (Node wl w True vw wr)))
        (follow h (repair_left h (root_addr t) p w m))"
    proof (rule repair_left_done)
      show "focus m h fs p (Node t p c v (Node wl w True vw wr))" using F True by simp
      show "path_ok (blacks t + 1 + (if c then 1 else 0)) fs" "c \<or> fs \<noteq> [] \<and> frame_color (hd fs)"
        using path by auto
      fix m'
      assume F': "focus m' h fs p (Node t p c v (Node wl w False vw wr))" and "top_black wl" "top_black wr"
      show "erase_done h m' (plug fs (Node t p c v (Node wl w False vw wr)))
          (settle (erase_loop h p (above h fs) m'))"
        by (rule IH [OF F']) (use path t True not0 \<open>top_black wl\<close> \<open>top_black wr\<close> in \<open>auto split: if_splits\<close>)
    qed (use t path True in auto)
    ultimately show ?thesis using True by simp
  next
    case False
    then have c: "c" using path by auto
    have wl_black: "top_black wl" "top_black wr" and ok: "subtree_ok wl" "subtree_ok wr"
      "blacks wl = blacks t + 1" "blacks wr = blacks t + 1"
      using path False by auto
    then obtain l1 b vb l2 where wl: "wl = Node l1 b True vb l2" by (cases wl) auto
    obtain m1 where m1: "sibling_left h p w m = (b, m1)"
      "focus m1 h fs w (Node (Node t p False v wl) w True vw wr)"
      "untouched h (region fs (Node t p True v (Node wl w False vw wr))) m m1"
      using sibling_left_red [of m h fs p] F c False wl by fastforce
    let ?fs = "InLeft w True vw wr # fs"
    have F1: "focus m1 h ?fs p (Node t p False v wl)"
      using focus_down_left [OF m1(2), simplified root_addr.simps] .
    have "erase_done h m1 (plug ?fs (Node t p False v (Node l1 b True vb l2)))
      (follow h (repair_left h (root_addr t) p b m1))"
    proof (rule repair_left_done)
      show "focus m1 h ?fs p (Node t p False v (Node l1 b True vb l2))" using F1 wl by simp
      fix m'
      assume "focus m' h ?fs p (Node t p False v (Node l1 b False vb l2))" "top_black l1" "top_black l2"
      then show "erase_done h m' (plug ?fs (Node t p False v (Node l1 b False vb l2)))
          (settle (erase_loop h p (above h ?fs) m'))"
        by (intro erase_stop) (use path t ok wl c False \<open>top_black l1\<close> \<open>top_black l2\<close> in auto)
    qed (use t ok wl path c False in auto)
    then have "erase_done h m1 (plug fs (Node (Node t p False v wl) w True vw wr))
      (settle (erase_loop h (root_addr t) p m))"
      using step m1(1) wl by simp
    then show ?thesis
      using erase_done_step [of h fs "Node t p c v (Node wl w cw vw wr)" m m1
        "Node (Node t p False v wl) w True vw wr"] m1(3) c False by simp
  qed
qed

lemma repair_right_done:
  assumes F: "focus m h fs p (Node (Node wr w True vw wl) p c v t)"
    and t: "subtree_ok t" "top_black t" "subtree_ok (Node wr w True vw wl)" "blacks wl = blacks t"
      "blacks wr = blacks t"
    and path: "path_ok (blacks t + 1 + (if c then 1 else 0)) fs" "c \<or> fs \<noteq> [] \<and> frame_color (hd fs)"
    and up: "\<And>m'. focus m' h fs p (Node (Node wr w False vw wl) p c v t) \<Longrightarrow> top_black wl \<Longrightarrow> top_black wr \<Longrightarrow>
      erase_done h m' (plug fs (Node (Node wr w False vw wl) p c v t)) (settle (erase_loop h p (above h fs) m'))"
    and x: "x = root_addr t"
  shows "erase_done h m (plug fs (Node (Node wr w True vw wl) p c v t)) (follow h (repair_right h x p w m))"
proof (cases "top_black wr")
  case True
  show ?thesis
  proof (cases "top_black wl")
    case wl: True
    obtain m' where m': "repair_right h x p w m = ((p, above h fs, m'), True)"
      "focus m' h fs p (Node (Node wr w False vw wl) p c v t)"
      "untouched h (region fs (Node (Node wr w True vw wl) p c v t)) m m'"
      using repair_right_up [OF F wl True] by blast
    show ?thesis
      using erase_done_step [OF m'(3) _ up [OF m'(2) wl True]] m'(1) by (simp add: follow_def)
  next
    case False
    then obtain l1 b vb l2 where wl: "wl = Node l2 b False vb l1" by (cases wl) auto
    obtain m' where m': "repair_right h x p w m = ((x, p, m'), False)"
      "focus m' h fs b (Node (Node wr w True vw l2) b c vb (Node l1 p True v t))"
      "untouched h (region fs (Node (Node wr w True vw wl) p c v t)) m m'"
      using repair_right_inner [OF F [unfolded wl] True] unfolding wl by blast
    have "is_black m' x"
      using focus_black [OF focus_down_right [OF focus_down_right [OF m'(2), simplified root_addr.simps]]] t(2) x by simp
    then show ?thesis unfolding m'(1)
      by (intro follow_break [OF m'(2) _ m'(3)]) (use t path True in \<open>auto simp: wl\<close>)
  qed
next
  case False
  then obtain r1 b vb r2 where wr: "wr = Node r2 b False vb r1" by (cases wr) auto
  obtain m' where m': "repair_right h x p w m = ((x, p, m'), False)"
    "focus m' h fs w (Node (Node r2 b True vb r1) w c vw (Node wl p True v t))"
    "untouched h (region fs (Node (Node wr w True vw wl) p c v t)) m m'"
    using repair_right_outer [OF F [unfolded wr]] unfolding wr by blast
  have "is_black m' x"
    using focus_black [OF focus_down_right [OF focus_down_right [OF m'(2), simplified root_addr.simps]]] t(2) x by simp
  then show ?thesis unfolding m'(1)
    by (intro follow_break [OF m'(2) _ m'(3)]) (use t path in \<open>auto simp: wr\<close>)
qed

lemma round_right:
  assumes F: "focus m h fs p (Node (Node wr w cw vw wl) p c v t)"
    and t: "subtree_ok t" "top_black t" and path: "path_ok (blacks t + 1) (InRight (Node wr w cw vw wl) p c v # fs)"
    and IH: "\<And>m' T. focus m' h fs p T \<Longrightarrow> nearly_ok T \<Longrightarrow> path_ok (blacks T + 1) fs \<Longrightarrow>
      erase_done h m' (plug fs T) (settle (erase_loop h p (above h fs) m'))"
  shows "erase_done h m (plug fs (Node (Node wr w cw vw wl) p c v t))
    (settle (erase_loop h (root_addr t) p m))"
proof -
  note P = focus_reads [OF F]
  note Fx = focus_down_right [OF F]
  have not0: "p \<noteq> 0" "w \<noteq> 0" using P(6) focus_reads(6) [OF focus_down_left [OF F, simplified root_addr.simps]] by simp_all
  have x: "root_addr t \<noteq> node_parent m h"
  proof (cases t)
    case (Node t1 a ca va t2)
    then show ?thesis using focus_reads(8) [OF Fx [unfolded Node root_addr.simps]] by auto
  next
    case Leaf
    show ?thesis
    proof (cases "fs = []")
      case True
      then show ?thesis using P(6,8) Leaf by simp
    next
      case False
      have "node_parent m h \<in> set (path_addrs fs)"
        using root_top [of m h p fs] F False by (simp add: focus_def)
      moreover have "path_at m h q gs \<Longrightarrow> 0 \<notin> set (path_addrs gs)" for q gs
      proof (induction gs arbitrary: q)
        case (Cons g gs)
        have "tree_at m par q u \<Longrightarrow> 0 \<notin> set (addrs u)" for par q u
          by (induction u arbitrary: par q) auto
        then show ?case using Cons by (cases g) auto
      qed simp
      ultimately show ?thesis using F Leaf by (auto simp: focus_def)
    qed
  qed
  have other: "root_addr t \<noteq> w"
  proof (cases t)
    case (Node t1 a ca va t2)
    then show ?thesis using P(9) by auto
  qed (use not0 in simp)
  have black: "is_black m (root_addr t)" using focus_black [OF Fx] t(2) by simp
  have links: "node_right m p = root_addr t" "node_left m p = w" using P(4,5) by simp_all
  have round: "erase_round h (root_addr t) p m =
    (let (w', m') = sibling_right h p w m in repair_right h (root_addr t) p w' m')"
    using links not0 other by (simp add: erase_round_def)
  note step = settle_loop [OF x black, of p, unfolded round]
  show ?thesis
  proof (cases cw)
    case True
    have "sibling_right h p w m = (w, m)"
      using focus_reads(2) [OF focus_down_left [OF F, simplified root_addr.simps]] True by (simp add: sibling_right_def RB_TREE_RED_def)
    then have "settle (erase_loop h (root_addr t) p m) = follow h (repair_right h (root_addr t) p w m)"
      using step by simp
    moreover have "erase_done h m (plug fs (Node (Node wr w True vw wl) p c v t))
        (follow h (repair_right h (root_addr t) p w m))"
    proof (rule repair_right_done)
      show "focus m h fs p (Node (Node wr w True vw wl) p c v t)" using F True by simp
      show "path_ok (blacks t + 1 + (if c then 1 else 0)) fs" "c \<or> fs \<noteq> [] \<and> frame_color (hd fs)"
        using path by auto
      fix m'
      assume F': "focus m' h fs p (Node (Node wr w False vw wl) p c v t)" and "top_black wl" "top_black wr"
      show "erase_done h m' (plug fs (Node (Node wr w False vw wl) p c v t))
          (settle (erase_loop h p (above h fs) m'))"
        by (rule IH [OF F']) (use path t True not0 \<open>top_black wl\<close> \<open>top_black wr\<close> in \<open>auto split: if_splits\<close>)
    qed (use t path True in auto)
    ultimately show ?thesis using True by simp
  next
    case False
    then have c: "c" using path by auto
    have wl_black: "top_black wl" "top_black wr" and ok: "subtree_ok wl" "subtree_ok wr"
      "blacks wl = blacks t + 1" "blacks wr = blacks t + 1"
      using path False by auto
    then obtain l1 b vb l2 where wl: "wl = Node l2 b True vb l1" by (cases wl) auto
    obtain m1 where m1: "sibling_right h p w m = (b, m1)"
      "focus m1 h fs w (Node wr w True vw (Node wl p False v t))"
      "untouched h (region fs (Node (Node wr w False vw wl) p True v t)) m m1"
      using sibling_right_red [of m h fs p] F c False wl by fastforce
    let ?fs = "InRight wr w True vw # fs"
    have F1: "focus m1 h ?fs p (Node wl p False v t)"
      using focus_down_right [OF m1(2), simplified root_addr.simps] .
    have "erase_done h m1 (plug ?fs (Node (Node l2 b True vb l1) p False v t))
      (follow h (repair_right h (root_addr t) p b m1))"
    proof (rule repair_right_done)
      show "focus m1 h ?fs p (Node (Node l2 b True vb l1) p False v t)" using F1 wl by simp
      fix m'
      assume "focus m' h ?fs p (Node (Node l2 b False vb l1) p False v t)" "top_black l1" "top_black l2"
      then show "erase_done h m' (plug ?fs (Node (Node l2 b False vb l1) p False v t))
          (settle (erase_loop h p (above h ?fs) m'))"
        by (intro erase_stop) (use path t ok wl c False \<open>top_black l1\<close> \<open>top_black l2\<close> in auto)
    qed (use t ok wl path c False in auto)
    then have "erase_done h m1 (plug fs (Node wr w True vw (Node wl p False v t)))
      (settle (erase_loop h (root_addr t) p m))"
      using step m1(1) wl by simp
    then show ?thesis
      using erase_done_step [of h fs "Node (Node wr w cw vw wl) p c v t" m m1
        "Node wr w True vw (Node wl p False v t)"] m1(3) c False by simp
  qed
qed

lemma erase_loop_ok:
  "focus m h fs x t \<Longrightarrow> nearly_ok t \<Longrightarrow> path_ok (blacks t + 1) fs \<Longrightarrow>
    erase_done h m (plug fs t) (settle (erase_loop h x (above h fs) m))"
proof (induction fs arbitrary: m x t)
  case Nil
  then show ?case by (intro erase_stop) auto
next
  case (Cons f fs)
  show ?case
  proof (cases "top_black t")
    case False
    then show ?thesis using Cons.prems by (intro erase_stop) auto
  next
    case True
    have t: "subtree_ok t" using Cons.prems(2) True by (cases t) auto
    have x: "x = root_addr t" by (rule focus_root_addr [OF Cons.prems(1)])
    have "blacks (sibling f) = blacks t + 1" using Cons.prems(3) by simp
    then obtain wl w cw vw wr where s: "sibling f = Node wl w cw vw wr" by (cases "sibling f") auto
    show ?thesis
    proof (cases f)
      case (InLeft p c v r)
      have "focus m h fs p (Node t p c v (Node wl w cw vw wr))"
        using Cons.prems(1) s InLeft by (simp add: focus_up)
      from round_left [OF this t True _ Cons.IH] Cons.prems(3)
      show ?thesis using InLeft s x by simp
    next
      case (InRight l p c v)
      have "focus m h fs p (Node (Node wl w cw vw wr) p c v t)"
        using Cons.prems(1) s InRight by (simp add: focus_up)
      from round_right [OF this t True _ Cons.IH] Cons.prems(3)
      show ?thesis using InRight s x by simp
    qed
  qed
qed

end
