(* ===== verification/RbUnlink.thy ===== *)
theory RbUnlink
  imports RbErase
begin

text \<open>
The whole of \<open>rb_tree_erase_rebalance\<close> (\<open>include/NeForce/core/container/rb_tree.hpp\<close>):
taking a node out of the tree, then the loop of \<open>RbErase\<close>.
\<close>

section \<open>The code\<close>

text \<open>The part before the loop: the node \<open>erase\<close> leaves the tree, its place is taken by its only
child or by its successor, which also takes its colour.\<close>

definition relink :: "nat \<Rightarrow> nat \<Rightarrow> nat \<Rightarrow> 'v rb_nodes \<Rightarrow> 'v rb_nodes" where
  "relink header e y m =
    (if node_parent m header = e then set_parent m header y
     else if node_left m (node_parent m e) = e then set_left m (node_parent m e) y
     else set_right m (node_parent m e) y)"

definition hoist_left :: "nat \<Rightarrow> nat \<Rightarrow> 'v rb_nodes \<Rightarrow> 'v rb_nodes" where
  "hoist_left e y m = (let m = set_parent m (node_left m e) y in set_left m y (node_left m e))"

definition hoist_right :: "nat \<Rightarrow> nat \<Rightarrow> nat \<Rightarrow> 'v rb_nodes \<Rightarrow> nat \<times> 'v rb_nodes" where
  "hoist_right e y x m =
    (if y \<noteq> node_right m e then
       (let xp = node_parent m y;
            m = (if x \<noteq> 0 then set_parent m x (node_parent m y) else m);
            m = set_left m (node_parent m y) x;
            m = set_right m y (node_right m e);
            m = set_parent m (node_right m e) y
        in (xp, m))
     else (y, m))"

definition take_place :: "nat \<Rightarrow> nat \<Rightarrow> nat \<Rightarrow> 'v rb_nodes \<Rightarrow> 'v rb_nodes" where
  "take_place header e y m =
    (let m = relink header e y m;
         m = set_parent m y (node_parent m e);
         c = node_color m y;
         m = set_color m y (node_color m e)
     in set_color m e c)"

definition unlink_inner :: "nat \<Rightarrow> nat \<Rightarrow> nat \<Rightarrow> nat \<Rightarrow> 'v rb_nodes \<Rightarrow> nat \<times> 'v rb_nodes" where
  "unlink_inner header e y x m =
    (case hoist_right e y x (hoist_left e y m) of (xp, m) \<Rightarrow> (xp, take_place header e y m))"

definition unlink_outer :: "nat \<Rightarrow> nat \<Rightarrow> nat \<Rightarrow> 'v rb_nodes \<Rightarrow> (nat \<times> 'v rb_nodes) option" where
  "unlink_outer header e x m =
    (let xp = node_parent m e;
         m = (if x \<noteq> 0 then set_parent m x (node_parent m e) else m);
         m = relink header e x m
     in case (if node_left m header = e then
                (if node_right m e = 0 then Some (set_left m header (node_parent m e))
                 else map_option (set_left m header) (minimum m x))
              else Some m) of
          None \<Rightarrow> None
        | Some m \<Rightarrow>
            (case (if node_right m header = e then
                     (if node_left m e = 0 then Some (set_right m header (node_parent m e))
                      else map_option (set_right m header) (maximum m x))
                   else Some m) of
               None \<Rightarrow> None
             | Some m \<Rightarrow> Some (xp, m)))"

definition erase_unlink :: "nat \<Rightarrow> nat \<Rightarrow> 'v rb_nodes \<Rightarrow> (nat \<times> nat \<times> 'v rb_nodes) option" where
  "erase_unlink header e m =
    (if node_left m e = 0 then
       map_option (Pair (node_right m e)) (unlink_outer header e (node_right m e) m)
     else if node_right m e = 0 then
       map_option (Pair (node_left m e)) (unlink_outer header e (node_left m e) m)
     else
       (case min_loop m (node_right m e) of
          None \<Rightarrow> None
        | Some y \<Rightarrow> (case unlink_inner header e y (node_right m y) m of
            (xp, m') \<Rightarrow> Some (node_right m y, xp, m'))))"

definition rb_tree_erase_rebalance :: "nat \<Rightarrow> nat \<Rightarrow> 'v rb_nodes \<Rightarrow> (nat \<times> 'v rb_nodes) option" where
  "rb_tree_erase_rebalance header e m =
    (case erase_unlink header e m of
       None \<Rightarrow> None
     | Some (x, xp, m) \<Rightarrow>
         (if node_color m e \<noteq> RB_TREE_RED then
            (case erase_loop header x xp m of
               None \<Rightarrow> None
             | Some (x, m) \<Rightarrow> Some (e, if x \<noteq> 0 then set_color m x RB_TREE_BLACK else m))
          else Some (e, m)))"

section \<open>Taking a node out\<close>

lemma relink_form:
  "relink h e y m = relink_left h (node_parent m e) e y (node_parent m h) (node_left m (node_parent m e)) m"
  by (auto simp: relink_def relink_left_def)

text \<open>Only the root has no frame above it, and only leftmost nodes have nothing before them.\<close>

lemma above_first: "before fs = [] \<Longrightarrow> above h fs = first_addr h (after fs)"
  by (cases fs; cases "hd fs") auto

lemma above_last: "after fs = [] \<Longrightarrow> above h fs = last_addr h (before fs)"
  by (cases fs; cases "hd fs") auto

lemma entry_addr_last: "es \<noteq> [] \<Longrightarrow> last_addr h es \<in> fst ` set es"
  by (simp add: last_addr_def)

lemma entry_addr_first: "es \<noteq> [] \<Longrightarrow> first_addr h es \<in> fst ` set es"
  by (simp add: first_addr_def)

lemma entries_Nil: "entries t = [] \<longleftrightarrow> t = Leaf"
  by (cases t) auto

text \<open>The end of a list does not depend on what would stand for an empty one.\<close>

lemma first_addr_ne: "es \<noteq> [] \<Longrightarrow> first_addr a es = first_addr b es"
  by (simp add: first_addr_def)

lemma last_addr_ne: "es \<noteq> [] \<Longrightarrow> last_addr a es = last_addr b es"
  by (simp add: last_addr_def)

lemma relink_fields:
  assumes "focus m h fs e (Node l e c v r)"
  shows "node_left (relink_left h (above h fs) e y (node_parent m h) side m') h = node_left m' h"
    "node_right (relink_left h (above h fs) e y (node_parent m h) side m') h = node_right m' h"
    "a \<noteq> h \<Longrightarrow> a \<notin> set (path_addrs fs) \<Longrightarrow>
      same_node m' (relink_left h (above h fs) e y (node_parent m h) side m') a"
proof -
  have "fs = [] \<longleftrightarrow> e = node_parent m h" using is_root [OF assms] by simp
  moreover have "fs \<noteq> [] \<Longrightarrow> above h fs \<noteq> h \<and> above h fs \<in> set (path_addrs fs)"
    using assms by (cases fs) (auto simp: focus_def)
  ultimately show "node_left (relink_left h (above h fs) e y (node_parent m h) side m') h = node_left m' h"
    "node_right (relink_left h (above h fs) e y (node_parent m h) side m') h = node_right m' h"
    "a \<noteq> h \<Longrightarrow> a \<notin> set (path_addrs fs) \<Longrightarrow>
      same_node m' (relink_left h (above h fs) e y (node_parent m h) side m') a"
    by (cases "fs = []"; auto simp: relink_left_def same_node_def)+
qed

lemma root_addr_in: "root_addr t = 0 \<or> root_addr t \<in> set (addrs t)"
  by (cases t) auto

lemma splice_ok:
  assumes F: "focus m h fs e (Node l e c v r)" and t: "l = Leaf \<and> t = r \<or> r = Leaf \<and> t = l"
    and m': "m' = relink h e (root_addr t)
      (if root_addr t \<noteq> 0 then set_parent m (root_addr t) (above h fs) else m)"
  shows "focus m' h fs (root_addr t) t" "node_color m' = node_color m" "node_data m' = node_data m"
    "node_left m' h = node_left m h" "node_right m' h = node_right m h"
    "a \<noteq> h \<Longrightarrow> a \<notin> region fs t \<Longrightarrow> same_node m m' a"
proof -
  let ?x = "root_addr t"
  define m1 where "m1 = (if ?x \<noteq> 0 then set_parent m ?x (above h fs) else m)"
  note E = focus_reads [OF F]
  have e: "e \<notin> set (addrs t)" "h \<notin> set (addrs t)" "above h fs \<notin> set (addrs t)"
    "set (path_addrs fs) \<inter> set (addrs t) = {}" "distinct (h # path_addrs fs @ addrs t)" "h \<noteq> 0"
    using F focus_above [OF F] t by (auto simp: focus_def)
  have x: "?x = 0 \<or> ?x \<noteq> e \<and> ?x \<noteq> h \<and> ?x \<notin> set (path_addrs fs)"
    using root_addr_in [of t] e by auto
  have m1: "node_parent m1 e = above h fs" "node_parent m1 h = node_parent m h"
    "node_left m1 = node_left m" "node_right m1 = node_right m" "node_color m1 = node_color m"
    "node_data m1 = node_data m" "path_at m1 h e fs"
    using x E(1) F by (auto simp: m1_def focus_def)
  have m2: "m' = relink_left h (above h fs) e ?x (node_parent m h) (node_left m (above h fs)) m1"
    unfolding m' relink_form m1_def [symmetric] m1(1,2,3) ..
  note fields = relink_fields [OF F, where y = ?x and side = "node_left m (above h fs)" and m' = m1, folded m2]
  have path: "path_at m' h ?x fs" unfolding m2 by (rule relink_left_path [OF F m1(7)])
  have tm: "tree_at m e ?x t"
    using F t E(4,5) by (auto simp: focus_def dest: tree_at_root)
  have "tree_at m1 (above h fs) ?x t"
  proof (cases t)
    case (Node t1 b d w t2)
    then show ?thesis using tm e(5) by (auto simp: m1_def)
  qed (use tm in \<open>simp add: m1_def\<close>)
  then have tree: "tree_at m' (above h fs) ?x t" unfolding m2 using e(2,3) by simp
  show "focus m' h fs ?x t" using path tree e by (simp add: focus_def)
  show "node_color m' = node_color m" "node_data m' = node_data m" unfolding m2 by (simp_all add: m1)
  show "node_left m' h = node_left m h" "node_right m' h = node_right m h"
    using fields(1,2) m1 by simp_all
  show "same_node m m' a" if "a \<noteq> h" "a \<notin> region fs t"
  proof -
    have "same_node m1 m' a" using fields(3) that by (simp add: region_def)
    moreover have "same_node m m1 a"
      using that root_addr_in [of t] by (auto simp: m1_def same_node_def region_def)
    ultimately show ?thesis by (simp add: same_node_def)
  qed
qed

lemma unlink_outer_ok:
  assumes F: "focus m h fs e (Node l e c v r)" and t: "l = Leaf \<and> t = r \<or> r = Leaf \<and> t = l"
    and left: "node_left m h = first_addr h (entries (plug fs (Node l e c v r)))"
    and right: "node_right m h = last_addr h (entries (plug fs (Node l e c v r)))"
    and branch: "t = (if l = Leaf then r else l)"
  shows "\<exists>m'. unlink_outer h e (root_addr t) m = Some (above h fs, m') \<and> focus m' h fs (root_addr t) t \<and>
    node_color m' = node_color m \<and> node_data m' = node_data m \<and>
    node_left m' h = first_addr h (entries (plug fs t)) \<and>
    node_right m' h = last_addr h (entries (plug fs t)) \<and>
    (\<forall>a. a \<noteq> h \<longrightarrow> a \<notin> region fs t \<longrightarrow> same_node m m' a)"
proof -
  let ?x = "root_addr t"
  note E = focus_reads [OF F]
  define m2 where "m2 = relink h e ?x (if ?x \<noteq> 0 then set_parent m ?x (above h fs) else m)"
  note S = splice_ok [OF F t m2_def]
  have "e \<notin> region fs t" "h \<notin> set (addrs t)" "h \<notin> set (path_addrs fs)"
    using F t by (auto simp: focus_def region_def)
  then have e2: "node_left m2 e = root_addr l" "node_right m2 e = root_addr r"
    "node_parent m2 e = above h fs"
    using S(6) [of e] E by (auto simp: same_node_def)
  have dist: "distinct (map fst (entries (plug fs (Node l e c v r))))" "h \<notin> fst ` set (entries (plug fs (Node l e c v r)))"
    using distinct_entries [OF F] by auto
  have ne: "e \<notin> fst ` set (before fs @ entries l)" "e \<notin> fst ` set (entries r @ after fs)"
    using dist(1) by (auto simp: entries_plug)
  have first: "node_left m2 h = e \<longleftrightarrow> before fs = [] \<and> l = Leaf"
  proof (cases "before fs @ entries l = []")
    case True
    then show ?thesis using S(4) left by (simp add: entries_plug entries_Nil)
  next
    case False
    then have "first_addr h (entries (plug fs (Node l e c v r))) \<in> fst ` set (before fs @ entries l)"
      using entry_addr_first [OF False, of "first_addr h ((e, v) # entries r @ after fs)"]
      by (simp add: entries_plug)
    then have "node_left m2 h \<noteq> e" using S(4) left ne(1) by metis
    then show ?thesis using False by (auto simp: entries_Nil)
  qed
  have last: "node_right m2 h = e \<longleftrightarrow> after fs = [] \<and> r = Leaf"
  proof (cases "entries r @ after fs = []")
    case True
    then show ?thesis using S(5) right by (simp add: entries_plug entries_Nil)
  next
    case False
    then have "last_addr h (entries (plug fs (Node l e c v r))) \<in> fst ` set (entries r @ after fs)"
      using entry_addr_last [OF False, of "last_addr h (before fs @ entries l @ [(e, v)])"]
      by (simp add: entries_plug)
    then have "node_right m2 h \<noteq> e" using S(5) right ne(2) by metis
    then show ?thesis using False by (auto simp: entries_Nil)
  qed
  have tr: "tree_at m2 (above h fs) ?x t" using S(1) by (simp add: focus_def)
  have x0: "?x = 0 \<longleftrightarrow> t = Leaf" using tr by (cases t) auto
  have l0: "root_addr l = 0 \<longleftrightarrow> l = Leaf" "root_addr r = 0 \<longleftrightarrow> r = Leaf"
    using E(10) by (cases l; cases r; simp)+
  define first' where "first' = first_addr h (entries (plug fs t))"
  define m3 where "m3 = (if node_left m2 h = e then set_left m2 h first' else m2)"
  have step1: "(if node_left m2 h = e then
        (if node_right m2 e = 0 then Some (set_left m2 h (node_parent m2 e))
         else map_option (set_left m2 h) (minimum m2 ?x)) else Some m2) = Some m3"
  proof (cases "node_left m2 h = e")
    case True
    then have b: "before fs = []" "l = Leaf" "t = r" using first branch by auto
    show ?thesis
    proof (cases "r = Leaf")
      case True
      then show ?thesis
        using e2 l0 b above_first [OF b(1), of h] by (simp add: m3_def first'_def entries_plug)
    next
      case False
      then have "minimum m2 ?x = Some (first_addr (first_addr h (after fs)) (entries t))"
        using min_loop_ok [OF tr] x0 b(3) by (simp add: minimum_def)
      then show ?thesis using e2 l0 b False by (simp add: m3_def first'_def entries_plug)
    qed
  qed (simp add: m3_def)
  have m3: "node_right m3 = node_right m2" "node_parent m3 = node_parent m2" "node_left m3 e = node_left m2 e"
    "node_left m3 h = first'" "tree_at m3 (above h fs) ?x t" "path_at m3 h ?x fs"
    "a \<noteq> h \<Longrightarrow> same_node m2 m3 a" "node_color m3 = node_color m2" "node_data m3 = node_data m2" for a
  proof -
    show "node_left m3 h = first'"
    proof (cases "node_left m2 h = e")
      case False
      then have "before fs \<noteq> [] \<or> l \<noteq> Leaf" using first by simp
      then have "node_left m2 h = first'"
        using S(4) left branch t
          first_addr_ne [of "before fs" e "first_addr (first_addr h (after fs)) (entries r)"]
          first_addr_ne [of "entries l" e "first_addr h (after fs)"]
        by (cases "l = Leaf") (auto simp: first'_def entries_plug entries_Nil)
      then show ?thesis using False by (simp add: m3_def)
    qed (simp add: m3_def)
    show "tree_at m3 (above h fs) ?x t" using tr \<open>h \<notin> set (addrs t)\<close> by (simp add: m3_def)
    show "path_at m3 h ?x fs" using S(1) \<open>h \<notin> set (path_addrs fs)\<close> by (simp add: m3_def focus_def)
  qed (use E(7) in \<open>simp_all add: m3_def same_node_def\<close>)
  define last' where "last' = last_addr h (entries (plug fs t))"
  define m4 where "m4 = (if node_right m3 h = e then set_right m3 h last' else m3)"
  have step2: "(if node_right m3 h = e then
        (if node_left m3 e = 0 then Some (set_right m3 h (node_parent m3 e))
         else map_option (set_right m3 h) (maximum m3 ?x)) else Some m3) = Some m4"
  proof (cases "node_right m3 h = e")
    case True
    then have b: "after fs = []" "r = Leaf" using last m3(1) by auto
    show ?thesis
    proof (cases "l = Leaf")
      case True
      then show ?thesis
        using True b e2 l0 m3 branch above_last [OF b(1), of h] by (simp add: m4_def last'_def entries_plug)
    next
      case False
      then have tl: "t = l" using branch by simp
      have "maximum m3 ?x = Some (last_addr (last_addr h (before fs)) (entries t))"
        using max_loop_ok [OF m3(5)] x0 tl False by (simp add: maximum_def)
      then show ?thesis using e2 l0 m3 b False by (simp add: m4_def last'_def entries_plug)
    qed
  qed (simp add: m4_def)
  have m4: "node_left m4 = node_left m3" "node_right m4 h = last'" "focus m4 h fs ?x t"
    "a \<noteq> h \<Longrightarrow> same_node m3 m4 a" "node_color m4 = node_color m3" "node_data m4 = node_data m3" for a
  proof -
    show "node_right m4 h = last'"
    proof (cases "node_right m3 h = e")
      case False
      then have "after fs \<noteq> [] \<or> r \<noteq> Leaf" using last m3(1) by simp
      then have "node_right m3 h = last'"
        using S(5) right branch t m3(1)
          last_addr_ne [of "after fs" e "last_addr (last_addr h (before fs)) (entries l)"]
          last_addr_ne [of "entries r" e "last_addr h (before fs)"]
        by (cases "r = Leaf") (auto simp: last'_def entries_plug entries_Nil)
      then show ?thesis using False by (simp add: m4_def)
    qed (simp add: m4_def)
    show "focus m4 h fs ?x t"
      using m3(5,6) S(1) \<open>h \<notin> set (addrs t)\<close> \<open>h \<notin> set (path_addrs fs)\<close>
      by (auto simp: m4_def focus_def)
  qed (auto simp: m4_def same_node_def)
  have "unlink_outer h e ?x m = Some (above h fs, m4)"
    unfolding unlink_outer_def Let_def E(1) m2_def [symmetric] step1 by (simp only: option.case step2)
  moreover have "same_node m m4 a" if "a \<noteq> h" "a \<notin> region fs t" for a
    using S(6) [OF that] m3(7) [OF that(1)] m4(4) [OF that(1)] by (simp add: same_node_def)
  ultimately show ?thesis
    using m4 m3 S(2,3) by (auto simp: first'_def last'_def)
qed

text \<open>A node with two children leaves in two steps, up to its own fields, which nobody reads
afterwards: its successor \<open>y\<close> is taken out as a node without a left child, then put in its place.\<close>

definition swap_in :: "nat \<Rightarrow> nat \<Rightarrow> 'v rb_nodes \<Rightarrow> 'v rb_nodes" where
  "swap_in e y m = set_right (set_left (set_parent
      (if node_right m e \<noteq> 0 then set_parent m (node_right m e) y else m)
      (node_left m e) y) y (node_left m e)) y (node_right m e)"

lemma hoist_left_fields:
  "node_parent (hoist_left e y m) = (node_parent m)(node_left m e := y)"
  "node_left (hoist_left e y m) = (node_left m)(y := node_left m e)"
  "node_right (hoist_left e y m) = node_right m" "node_color (hoist_left e y m) = node_color m"
  "node_data (hoist_left e y m) = node_data m"
  by (simp_all add: hoist_left_def)

lemma hoist_right_fields:
  assumes "y \<noteq> node_right m e" "x \<noteq> y" "e \<noteq> y" "node_parent m y = p"
  shows "fst (hoist_right e y x m) = p"
    "node_parent (snd (hoist_right e y x m)) =
      (if x = 0 then node_parent m else (node_parent m)(x := p))(node_right m e := y)"
    "node_left (snd (hoist_right e y x m)) = (node_left m)(p := x)"
    "node_right (snd (hoist_right e y x m)) = (node_right m)(y := node_right m e)"
    "node_color (snd (hoist_right e y x m)) = node_color m"
    "node_data (snd (hoist_right e y x m)) = node_data m"
  using assms by (simp_all add: hoist_right_def)

lemma relink_reads:
  "node_parent (relink h e y m) = (if node_parent m h = e then (node_parent m)(h := y) else node_parent m)"
  "node_left (relink h e y m) =
    (if node_parent m h \<noteq> e \<and> node_left m (node_parent m e) = e
     then (node_left m)(node_parent m e := y) else node_left m)"
  "node_right (relink h e y m) =
    (if node_parent m h \<noteq> e \<and> node_left m (node_parent m e) \<noteq> e
     then (node_right m)(node_parent m e := y) else node_right m)"
  "node_color (relink h e y m) = node_color m" "node_data (relink h e y m) = node_data m"
  by (simp_all add: relink_def)

lemma take_place_fields:
  assumes "e \<noteq> h"
  shows "node_parent (take_place h e y m) = (node_parent (relink h e y m))(y := node_parent m e)"
    "node_left (take_place h e y m) = node_left (relink h e y m)"
    "node_right (take_place h e y m) = node_right (relink h e y m)"
    "node_color (take_place h e y m) = (node_color m)(y := node_color m e, e := node_color m y)"
    "node_data (take_place h e y m) = node_data m"
  using assms by (simp_all add: take_place_def Let_def relink_reads)

lemma unlink_inner_proj:
  "fst (unlink_inner h e y x m) = fst (hoist_right e y x (hoist_left e y m))"
  "snd (unlink_inner h e y x m) = take_place h e y (snd (hoist_right e y x (hoist_left e y m)))"
  by (simp_all add: unlink_inner_def split_beta)

text \<open>The nodes that take part are apart; \<open>p\<close> and \<open>g\<close> are the parents of \<open>y\<close> and of \<open>e\<close>.\<close>

definition unlink_apart :: "nat \<Rightarrow> nat \<Rightarrow> nat \<Rightarrow> nat \<Rightarrow> nat \<Rightarrow> nat \<Rightarrow> 'v rb_nodes \<Rightarrow> bool" where
  "unlink_apart h e y x p g m \<longleftrightarrow>
    y \<noteq> e \<and> y \<noteq> h \<and> y \<noteq> 0 \<and> e \<noteq> h \<and> node_left m e \<noteq> y \<and> node_left m e \<noteq> e \<and> node_left m e \<noteq> h \<and>
    node_left m e \<noteq> g \<and> g \<noteq> e \<and> g \<noteq> y \<and> node_parent m y = p \<and> node_parent m e = g \<and>
    node_parent m h \<noteq> y \<and> node_left m e \<noteq> p \<and> node_left m e \<noteq> node_right m e \<and> node_right m y = x \<and>
    x \<noteq> y \<and> x \<noteq> e \<and> x \<noteq> h \<and> x \<noteq> g \<and> x \<noteq> p \<and> x \<noteq> node_left m e"

lemma take_place_cong:
  assumes "\<And>b. b \<noteq> e \<Longrightarrow> same_node m m' b" "node_parent m' e = node_parent m e"
    "node_color m' e = node_color m e" "node_parent m e \<noteq> e" "e \<noteq> h" "y \<noteq> e" "a \<noteq> e"
  shows "same_node (take_place h e y m) (take_place h e y m') a"
proof -
  have "same_node m m' h" "same_node m m' (node_parent m e)" "same_node m m' y" "same_node m m' a"
    using assms by auto
  then show ?thesis using assms(2-7) by (simp add: same_node_def take_place_fields relink_reads)
qed

lemma unlink_inner_near:
  assumes "unlink_apart h e y x p g m" "node_right m e = y" "p = e" "x \<noteq> 0 \<Longrightarrow> node_parent m x = y" "a \<noteq> e"
  shows "same_node (snd (unlink_inner h e y x m))
    (take_place h e y (swap_in e y (relink h y x (if x \<noteq> 0 then set_parent m x p else m)))) a"
    "fst (unlink_inner h e y x m) = y"
proof -
  define n where "n = relink h y x (if x \<noteq> 0 then set_parent m x p else m)"
  note A = assms(1) [unfolded unlink_apart_def]
  have near: "hoist_right e y x (hoist_left e y m) = (y, hoist_left e y m)"
    using assms(2) by (simp add: hoist_right_def hoist_left_fields)
  show "fst (unlink_inner h e y x m) = y" by (simp add: unlink_inner_proj near)
  have n': "node_parent n = (if x = 0 then node_parent m else (node_parent m)(x := e))"
    "node_left n = node_left m" "node_right n = (node_right m)(e := x)" "node_color n = node_color m"
    "node_data n = node_data m"
    using A assms(2,3) by (auto simp: n_def relink_reads)
  have "same_node (hoist_left e y m) (swap_in e y n) b" if "b \<noteq> e" for b
    using A assms(2,3,4) that by (cases "x = 0") (simp_all add: same_node_def hoist_left_fields swap_in_def n')
  then show "same_node (snd (unlink_inner h e y x m))
    (take_place h e y (swap_in e y (relink h y x (if x \<noteq> 0 then set_parent m x p else m)))) a"
    unfolding unlink_inner_proj near snd_conv n_def [symmetric]
    by (rule take_place_cong) (use A assms(5) in \<open>auto simp: hoist_left_fields swap_in_def n'\<close>)
qed

lemma unlink_inner_far:
  assumes "unlink_apart h e y x p g m" "node_right m e = r" "r \<noteq> y" "node_left m p = y"
    "p \<noteq> e" "p \<noteq> y" "r \<noteq> 0" "r \<noteq> e" "x \<noteq> r" "a \<noteq> e"
  shows "same_node (snd (unlink_inner h e y x m))
    (take_place h e y (swap_in e y (relink h y x (if x \<noteq> 0 then set_parent m x p else m)))) a"
    "fst (unlink_inner h e y x m) = p"
proof -
  define n where "n = relink h y x (if x \<noteq> 0 then set_parent m x p else m)"
  note A = assms(1) [unfolded unlink_apart_def]
  have far: "y \<noteq> node_right (hoist_left e y m) e" "x \<noteq> y" "e \<noteq> y" "node_parent (hoist_left e y m) y = p"
    using A assms(2,3) by (auto simp: hoist_left_fields)
  define q where "q = snd (hoist_right e y x (hoist_left e y m))"
  note H = hoist_right_fields [OF far, folded q_def]
  show "fst (unlink_inner h e y x m) = p" by (simp add: unlink_inner_proj H)
  have n': "node_parent n = (if x = 0 then node_parent m else (node_parent m)(x := p))"
    "node_left n = (node_left m)(p := x)" "node_right n = node_right m" "node_color n = node_color m"
    "node_data n = node_data m"
    using A assms(4) by (auto simp: n_def relink_reads)
  have "same_node q (swap_in e y n) b" if "b \<noteq> e" for b
    using A assms(2,3,5-9) that
    by (cases "x = 0"; elim conjE) (simp_all add: same_node_def H hoist_left_fields swap_in_def n')
  then show "same_node (snd (unlink_inner h e y x m))
    (take_place h e y (swap_in e y (relink h y x (if x \<noteq> 0 then set_parent m x p else m)))) a"
    unfolding unlink_inner_proj n_def [symmetric] q_def [symmetric]
    by (rule take_place_cong) (use A assms in \<open>auto simp: H hoist_left_fields swap_in_def n'\<close>)
qed

text \<open>Putting a node in the place of another.\<close>

lemma swap_in_fields:
  "node_parent (swap_in e y m) = (if node_right m e = 0 then node_parent m
      else (node_parent m)(node_right m e := y))(node_left m e := y)"
  "node_left (swap_in e y m) = (node_left m)(y := node_left m e)"
  "node_right (swap_in e y m) = (node_right m)(y := node_right m e)"
  "node_color (swap_in e y m) = node_color m" "node_data (swap_in e y m) = node_data m"
  by (simp_all add: swap_in_def)

lemma tree_at_parent:
  "tree_at m par p t \<Longrightarrow> distinct (addrs t) \<Longrightarrow> p \<noteq> 0 \<Longrightarrow> tree_at (set_parent m p q) q p t"
  by (cases t) auto

lemma path_at_same: "(\<And>a. a \<in> set (path_addrs fs) \<Longrightarrow> same_node m m' a) \<Longrightarrow>
    node_parent m' h = node_parent m h \<Longrightarrow> path_at m' h p fs \<longleftrightarrow> path_at m h p fs"
proof (induction fs arbitrary: p)
  case (Cons f fs)
  have "frame_at m' (above h fs) p f \<longleftrightarrow> frame_at m (above h fs) p f"
    using Cons.prems(1) tree_at_same [of "sibling f" m m'] by (cases f) (auto simp: same_node_def)
  then show ?case using Cons by simp
qed simp

lemma swap_in_ok:
  assumes F: "focus m h fs e (Node l e c v r)" and y: "y \<noteq> 0" "y \<noteq> h" "y \<notin> region fs (Node l e c v r)"
    and l: "l \<noteq> Leaf" and m': "m' = take_place h e y (swap_in e y m)"
  shows "focus m' h fs y (Node l y c (node_data m y) r)" "node_color m' e = node_color m y"
    "node_data m' = node_data m"
    "node_left m' h = node_left m h" "node_right m' h = node_right m h"
    "a \<noteq> h \<Longrightarrow> a \<noteq> y \<Longrightarrow> a \<notin> region fs (Node l e c v r) \<Longrightarrow> same_node m m' a"
proof -
  note E = focus_reads [OF F]
  let ?s = "swap_in e y m"
  have le: "root_addr l \<in> set (addrs l)" "root_addr l \<noteq> 0" using l E(10) by (cases l; simp)+
  have re: "root_addr r = 0 \<or> root_addr r \<in> set (addrs r)" by (rule root_addr_in)
  have d: "distinct (h # path_addrs fs @ addrs (Node l e c v r))" using F by (simp add: focus_def)
  have g: "above h fs \<in> insert h (set (path_addrs fs))" by (rule above_in)
  have s: "node_parent ?s = (if root_addr r = 0 then node_parent m
      else (node_parent m)(root_addr r := y))(root_addr l := y)"
    "node_left ?s = (node_left m)(y := root_addr l)"
    "node_right ?s = (node_right m)(y := root_addr r)"
    "node_color ?s = node_color m" "node_data ?s = node_data m"
    by (simp_all add: swap_in_fields E)
  let ?m0 = "if root_addr r \<noteq> 0 then set_parent m (root_addr r) y else m"
  have s': "?s = set_right (set_left (set_parent ?m0 (root_addr l) y) y (root_addr l)) y (root_addr r)"
    by (simp add: swap_in_def E)
  have out: "y \<notin> set (addrs l)" "y \<notin> set (addrs r)" "e \<notin> set (addrs l)" "e \<notin> set (addrs r)"
    "above h fs \<notin> set (addrs l)" "above h fs \<notin> set (addrs r)" "h \<notin> set (addrs l)" "h \<notin> set (addrs r)"
    "y \<notin> set (path_addrs fs)" "e \<notin> set (path_addrs fs)" "h \<notin> set (path_addrs fs)"
    "root_addr l \<notin> set (path_addrs fs)" "root_addr l \<notin> set (addrs r)" "y \<noteq> e" "h \<noteq> e"
    using d y(3) focus_above [OF F] le(1) by (auto simp: region_def)
  have ra: "root_addr r = 0 \<or> root_addr r \<notin> set (path_addrs fs) \<and> root_addr r \<notin> set (addrs l) \<and>
      root_addr r \<noteq> h \<and> root_addr r \<noteq> e \<and> root_addr r \<noteq> y \<and> root_addr r \<noteq> above h fs"
    using re d out by auto
  have apart: "root_addr l \<noteq> e" "root_addr l \<noteq> h" "above h fs \<noteq> y" "above h fs \<noteq> e"
    "above h fs \<noteq> root_addr l" "root_addr l \<noteq> y" "e \<noteq> 0"
    using le out g y E(6) by auto
  have "path_at m h e fs" using F by (simp add: focus_def)
  then have path: "path_at ?s h e fs"
    unfolding s' using out ra apart by (cases "root_addr r = 0") simp_all
  have tm: "tree_at m e (root_addr l) l" "tree_at m e (root_addr r) r"
    using F E(4,5) by (simp_all add: focus_def)
  have dl: "distinct (addrs l)" "distinct (addrs r)" using d by auto
  have "tree_at ?m0 e (root_addr l) l" using tm(1) ra by auto
  then have tl: "tree_at ?s y (root_addr l) l"
    using tree_at_parent [of ?m0 e "root_addr l" l y] le dl out unfolding s' by simp
  have "tree_at ?m0 y (root_addr r) r"
    using tree_at_parent [OF tm(2), of y] dl tm(2) by (cases r) auto
  then have tr: "tree_at ?s y (root_addr r) r" using out unfolding s' by simp
  define q where "q = relink_left h (above h fs) e y (node_parent m h) (node_left m (above h fs)) ?s"
  have se: "node_parent ?s e = above h fs" "node_parent ?s h = node_parent m h"
    "node_left ?s (above h fs) = node_left m (above h fs)"
    using ra apart y(2) by (auto simp: s E(1))
  then have rl: "relink h e y ?s = q" unfolding relink_form q_def by simp
  note tp = take_place_fields [OF E(7), of y ?s, unfolded relink_reads, unfolded se, unfolded s E(1,2), folded m']
  have qe: "node_parent q e = above h fs" "node_color q = node_color m" "node_data q = node_data m"
    using se(1) y(2) E(7) relink_reads [of h e y ?s] by (simp_all add: rl s)
  have m1: "m' = set_color (set_color (set_parent q y (above h fs)) y c) e (node_color m y)"
    unfolding m' take_place_def Let_def rl using qe out(14) E(2) by simp
  have "path_at q h y fs" unfolding q_def by (rule relink_left_path [OF F path])
  then have "path_at m' h y fs" using out y(2) by (simp add: m1)
  moreover have "tree_at m' y (root_addr l) l" "tree_at m' y (root_addr r) r"
    using tl tr out unfolding m1 q_def by simp_all
  moreover have "node_left m' y = root_addr l" "node_right m' y = root_addr r"
    "node_parent m' y = above h fs" "node_color m' y = c"
    using apart out by (auto simp: tp)
  ultimately show "focus m' h fs y (Node l y c (node_data m y) r)"
    using F y out by (auto simp: focus_def tp)
  show "node_color m' e = node_color m y" by (simp add: m1)
  show "node_data m' = node_data m" by (simp add: tp)
  have "node_parent m h \<noteq> e \<Longrightarrow> above h fs \<noteq> h" using E(8) out(11) g by (cases fs) auto
  then show "node_left m' h = node_left m h" "node_right m' h = node_right m h"
    using y(2) by (auto simp: tp)
  show "same_node m m' a" if "a \<noteq> h" "a \<noteq> y" "a \<notin> region fs (Node l e c v r)"
  proof -
    have "a \<noteq> above h fs" "a \<noteq> e" "a \<noteq> root_addr l" "root_addr r = 0 \<or> a \<noteq> root_addr r"
      using that g le re by (auto simp: region_def)
    then show ?thesis using that(1,2) by (auto simp: same_node_def tp)
  qed
qed

section \<open>The successor\<close>

lemma plug_append: "plug (gs @ fs) t = plug fs (plug gs t)"
  by (induction gs arbitrary: t) auto

lemma leftmost_focus:
  "r \<noteq> Leaf \<Longrightarrow> \<exists>gs y cy vy yr. r = plug gs (Node Leaf y cy vy yr) \<and> before gs = []"
proof (induction r)
  case (Node l a c v r)
  show ?case
  proof (cases "l = Leaf")
    case True
    then show ?thesis by (intro exI [of _ "[]"]) auto
  next
    case False
    then obtain gs y cy vy yr where "l = plug gs (Node Leaf y cy vy yr)" "before gs = []"
      using Node.IH(1) by blast
    moreover have "before (gs @ hs) = before hs @ before gs" for hs
      by (induction gs) (auto split: frame.splits)
    ultimately show ?thesis
      by (intro exI [of _ "gs @ [InLeft a c v r]"]) (auto simp: plug_append)
  qed
qed simp

lemma focus_down:
  "focus m h fs p (plug gs t) \<Longrightarrow> focus m h (gs @ fs) (root_addr t) t"
proof (induction gs arbitrary: t)
  case Nil
  then show ?case using focus_root_addr by force
next
  case (Cons g gs)
  then have "focus m h (gs @ fs) (root_addr (plug_frame g t)) (plug_frame g t)" by simp
  then show ?case by (cases g) (auto intro: focus_down_left focus_down_right)
qed

lemma focus_lift:
  "focus m h (gs @ fs) p t \<Longrightarrow> focus m h fs (root_addr (plug gs t)) (plug gs t)"
proof (induction gs arbitrary: p t)
  case Nil
  then show ?case using focus_root_addr by force
next
  case (Cons g gs)
  then show ?case by (cases g) (auto simp: focus_up)
qed

lemma focus_same:
  "focus m h fs p t \<Longrightarrow> (\<And>a. a \<in> region fs t \<Longrightarrow> same_node m m' a) \<Longrightarrow>
    node_parent m' h = node_parent m h \<Longrightarrow> focus m' h fs p t"
  using tree_at_same [of t m m'] path_at_same [of fs m m' h] by (simp add: focus_def region_def)

lemma region_append: "region (gs @ fs) t = region fs (plug gs t)"
  by (simp add: region_plug plug_append)

lemma path_addrs_append: "path_addrs (gs @ fs) = path_addrs gs @ path_addrs fs"
  by (induction gs) auto

lemma root_addr_plug: "gs \<noteq> [] \<Longrightarrow> root_addr (plug gs t) \<in> set (path_addrs gs)"
proof (induction gs arbitrary: t)
  case (Cons g gs)
  then show ?case by (cases "gs = []"; cases g) auto
qed simp

lemma region_nonzero:
  assumes "focus m h fs p t"
  shows "0 \<notin> region fs t"
proof -
  have z: "tree_at m par q u \<Longrightarrow> 0 \<notin> set (addrs u)" for par q u
    by (induction u arbitrary: par q) auto
  obtain q where "focus m h [] q (plug fs t)" using focus_plug [OF assms] by blast
  then show ?thesis using z unfolding region_plug focus_def by blast
qed

lemma hoist_right_keeps:
  "node_color (snd (hoist_right e y x m)) = node_color m" "node_data (snd (hoist_right e y x m)) = node_data m"
  by (simp_all add: hoist_right_def Let_def)

lemma unlink_inner_ok:
  assumes F: "focus m h fs e (Node l e c v r)" and l: "l \<noteq> Leaf" and r: "r = plug gs (Node Leaf y cy vy yr)"
    and gs: "before gs = []" and u: "unlink_inner h e y (root_addr yr) m = (xp, m')"
  shows "xp = above h (gs @ InRight l y c vy # fs)"
    "focus m' h (gs @ InRight l y c vy # fs) (root_addr yr) yr"
    "node_color m' e = cy" "node_data m' = node_data m"
    "node_left m' h = node_left m h" "node_right m' h = node_right m h" "node_color m' h = node_color m h"
    "a \<noteq> h \<Longrightarrow> a \<notin> region fs (Node l e c v r) \<Longrightarrow> same_node m m' a"
proof -
  let ?x = "root_addr yr" and ?fs = "InRight l e c v # fs"
  define p where "p = above h (gs @ ?fs)"
  define m1 where "m1 = relink h y ?x (if ?x \<noteq> 0 then set_parent m ?x p else m)"
  define m2 where "m2 = take_place h e y (swap_in e y m1)"
  note E = focus_reads [OF F]
  have FR: "focus m h ?fs (root_addr r) r" by (rule focus_down_right [OF F])
  have FY: "focus m h (gs @ ?fs) y (Node Leaf y cy vy yr)"
    using focus_down [OF FR [unfolded r]] by simp
  note Y = focus_reads [OF FY]
  note S = splice_ok [OF FY _ m1_def [unfolded p_def], simplified]
  have d: "distinct (h # path_addrs gs @ e # addrs l @ path_addrs fs @ y # addrs yr)"
    using FY by (auto simp: focus_def path_addrs_append)
  have le: "root_addr l \<in> set (addrs l)" "root_addr l \<noteq> 0" using l E(10) by (cases l; simp)+
  have x: "?x = 0 \<or> ?x \<in> set (addrs yr)" by (rule root_addr_in)
  have g: "above h fs \<in> insert h (set (path_addrs fs))" by (rule above_in)
  have nz: "h \<noteq> 0" "y \<noteq> 0" "e \<noteq> 0" "above h fs \<noteq> 0"
    using E(6) Y(6) F g region_nonzero [OF F] by (auto simp: focus_def region_def)
  have p: "p = e \<and> gs = [] \<or> p \<in> set (path_addrs gs) \<and> gs \<noteq> [] \<and> node_left m p = y" "p \<noteq> 0"
  proof -
    show "p \<noteq> 0"
      using above_in [of h "gs @ ?fs"] region_nonzero [OF FY] nz(1) unfolding p_def region_def
      by (metis UnI1 insert_iff)
    show "p = e \<and> gs = [] \<or> p \<in> set (path_addrs gs) \<and> gs \<noteq> [] \<and> node_left m p = y"
    proof (cases gs)
      case (Cons f hs)
      then show ?thesis using gs FY by (cases f) (auto simp: p_def focus_up)
    qed (simp add: p_def)
  qed
  have yp: "node_parent m y = p" using Y(1) p_def by simp
  have rr: "gs = [] \<and> root_addr r = y \<or> gs \<noteq> [] \<and> root_addr r \<in> set (path_addrs gs)"
    using root_addr_plug [of gs] r by (cases "gs = []") auto
  have apart: "unlink_apart h e y ?x p (above h fs) m"
    unfolding unlink_apart_def E(1,4,5) yp Y(5)
    using d le x g p nz Y(8) rr by (elim disjE conjE) (auto simp: disjoint_iff)
  have near: "same_node (snd (unlink_inner h e y ?x m)) m2 b"
    "fst (unlink_inner h e y ?x m) = above h (gs @ InRight l y c vy # fs)"
    if "b \<noteq> e" for b
  proof -
    have "same_node (snd (unlink_inner h e y ?x m)) m2 b \<and> fst (unlink_inner h e y ?x m) = (if gs = [] then y else p)"
    proof (cases "gs = []")
      case True
      have "?x \<noteq> 0 \<Longrightarrow> node_parent m ?x = y" using FY by (cases yr) (auto simp: focus_def)
      then show ?thesis
        using unlink_inner_near [OF apart _ _ _ that] True r E(5) p(1) d by (simp add: m2_def m1_def)
    next
      case False
      have q: "p \<in> set (path_addrs gs)" "node_left m p = y" "root_addr r \<in> set (path_addrs gs)"
          using p(1) rr False by auto
        have "0 \<notin> set (path_addrs gs)" using region_nonzero [OF FY] by (simp add: region_def path_addrs_append)
      then have r0: "root_addr r \<noteq> 0" using q(3) by metis
      have f: "root_addr r \<noteq> y" "p \<noteq> e" "p \<noteq> y" "root_addr r \<noteq> e"
        using d q by (auto simp del: root_addr.simps)
      have f': "?x \<noteq> root_addr r" using d q x r0 by (metis IntI Un_iff distinct_append distinct.simps(2) empty_iff set_append list.set_intros(2))
      show ?thesis
        using unlink_inner_far [OF apart E(5) f(1) q(2) f(2,3) r0 f(4) f' that] False
        by (simp add: m2_def m1_def)
    qed
    moreover have "(if gs = [] then y else p) = above h (gs @ InRight l y c vy # fs)"
      by (cases gs) (simp_all add: p_def)
    ultimately show "same_node (snd (unlink_inner h e y ?x m)) m2 b"
      "fst (unlink_inner h e y ?x m) = above h (gs @ InRight l y c vy # fs)" by simp_all
  qed
  have m': "same_node m' m2 b" if "b \<noteq> e" for b using near(1) [OF that] u by simp
  show "xp = above h (gs @ InRight l y c vy # fs)" using near(2) [of 0] nz u by simp
  have F1: "focus m1 h fs e (Node l e c v (plug gs yr))"
    using focus_lift [OF S(1)] by (simp add: focus_up)
  have y: "y \<notin> region fs (Node l e c v (plug gs yr))"
  proof -
    have "region fs (Node l e c v (plug gs yr)) = region (gs @ ?fs) yr"
      by (simp add: region_plug plug_append)
    then show ?thesis using d by (auto simp: region_def path_addrs_append)
  qed
  have D1: "node_data m1 y = vy" using S(3) Y(3) by simp
  note W = swap_in_ok [OF F1 nz(2) Y(7) y l m2_def, unfolded D1]
  have F2: "focus m2 h fs y (Node l y c vy (plug gs yr))" by (rule W(1))
  have e2: "e \<notin> region fs (Node l y c vy (plug gs yr))"
  proof -
    have "region fs (Node l y c vy (plug gs yr)) = region (gs @ InRight l y c vy # fs) yr"
      by (simp add: region_plug plug_append)
    then show ?thesis using d by (auto simp: region_def path_addrs_append)
  qed
  have "focus m' h fs y (Node l y c vy (plug gs yr))"
  proof (rule focus_same [OF F2])
    show "same_node m2 m' a" if "a \<in> region fs (Node l y c vy (plug gs yr))" for a
    proof -
      have "a \<noteq> e" using that e2 by blast
      then show ?thesis using m' [of a] by (simp add: same_node_def)
    qed
    show "node_parent m' h = node_parent m2 h" using m' [of h] E(7) by (simp add: same_node_def)
  qed
  then have "focus m' h (InRight l y c vy # fs) (root_addr (plug gs yr)) (plug gs yr)"
    by (rule focus_down_right)
  then show "focus m' h (gs @ InRight l y c vy # fs) ?x yr" by (rule focus_down)
  have "m' = take_place h e y (snd (hoist_right e y ?x (hoist_left e y m)))"
    using u unlink_inner_proj(2) [of h e y ?x m] by simp
  then show "node_color m' e = cy" "node_data m' = node_data m" "node_color m' h = node_color m h"
    using Y(2) Y(7) E(7) by (simp_all add: take_place_fields [OF E(7)] hoist_right_keeps hoist_left_fields)
  show "node_left m' h = node_left m h" "node_right m' h = node_right m h"
    using m' [of h] W(4,5) S(4,5) E(7) by (simp_all add: same_node_def)
  show "same_node m m' a" if a: "a \<noteq> h" "a \<notin> region fs (Node l e c v r)"
  proof -
    have R: "region fs (Node l e c v r) = region (gs @ ?fs) (Node Leaf y cy vy yr)"
      by (simp add: region_plug plug_append r)
    have b: "a \<noteq> y" "a \<noteq> e" "a \<notin> region (gs @ ?fs) yr"
      using a(2) unfolding R by (auto simp: region_def path_addrs_append)
    moreover from this have "a \<notin> region fs (Node l e c v (plug gs yr))"
      by (simp add: region_plug plug_append)
    ultimately show ?thesis using S(6) [of a] W(6) [of a] m' [of a] a(1) by (simp add: same_node_def)
  qed
qed

section \<open>The whole of rb_tree_erase_rebalance\<close>

lemma red_black_parts:
  "red_black (plug fs t) \<Longrightarrow> subtree_ok t \<and> path_ok (blacks t) fs \<and>
    (top_black t \<or> fs \<noteq> [] \<and> frame_color (hd fs))"
proof (induction fs arbitrary: t)
  case Nil
  then show ?case by (simp add: red_black_def subtree_ok_def)
next
  case (Cons f fs)
  then have "subtree_ok (plug_frame f t) \<and> path_ok (blacks (plug_frame f t)) fs \<and>
      (top_black (plug_frame f t) \<or> fs \<noteq> [] \<and> frame_color (hd fs))"
    by simp
  then show ?case by (cases f) (auto split: if_splits)
qed

lemma red_black_gap:
  assumes "red_black (plug fs (Node l d c v r))" "l = Leaf \<and> t = r \<or> r = Leaf \<and> t = l"
  shows "subtree_ok t \<and> path_ok (blacks t + (if c then 1 else 0)) fs \<and> (\<not> c \<longrightarrow> top_black t)"
  using red_black_parts [OF assms(1)] assms(2) by auto

lemma path_ok_renamed:
  "path_ok n (gs @ InRight l e c v # fs) \<longleftrightarrow> path_ok n (gs @ InRight l y c w # fs)"
proof (induction gs arbitrary: n)
  case (Cons g gs)
  then show ?case by (cases gs) auto
qed simp

lemma erase_finish:
  assumes "focus m h fs x t" "subtree_ok t" "path_ok (blacks t + (if c then 1 else 0)) fs" "\<not> c \<Longrightarrow> top_black t"
  shows "erase_done h m (plug fs t) (if c then settle (erase_loop h x (above h fs) m) else Some m)"
proof (cases c)
  case True
  have "nearly_ok t"
    using assms(1,2) by (cases t) (auto simp: focus_def)
  then show ?thesis using erase_loop_ok [OF assms(1)] assms(3) True by simp
next
  case False
  then show ?thesis using erase_done_plug [OF assms(1)] assms by simp
qed

lemma erase_rebalance_unlinked:
  assumes "erase_unlink h e m = Some (x, xp, m')" "node_color m' e = c"
  shows "rb_tree_erase_rebalance h e m =
    map_option (Pair e) (if c then settle (erase_loop h x xp m') else Some m')"
  using assms by (simp add: rb_tree_erase_rebalance_def settle_def RB_TREE_RED_def split: option.splits prod.splits)

lemma erase_unlink_ok:
  assumes F: "focus m h fs e (Node l e c v r)"
    and left: "node_left m h = first_addr h (entries (plug fs (Node l e c v r)))"
    and right: "node_right m h = last_addr h (entries (plug fs (Node l e c v r)))"
    and ok: "red_black (plug fs (Node l e c v r))"
  shows "\<exists>x gs t m' cd. erase_unlink h e m = Some (x, above h gs, m') \<and> node_color m' e = cd \<and>
    focus m' h gs x t \<and> entries (plug gs t) = before fs @ entries l @ entries r @ after fs \<and>
    subtree_ok t \<and> path_ok (blacks t + (if cd then 1 else 0)) gs \<and> (\<not> cd \<longrightarrow> top_black t) \<and>
    node_data m' = node_data m \<and> node_left m' h = first_addr h (entries (plug gs t)) \<and>
    node_right m' h = last_addr h (entries (plug gs t)) \<and> node_color m' h = node_color m h \<and>
    (\<forall>a. a \<noteq> h \<longrightarrow> a \<notin> region fs (Node l e c v r) \<longrightarrow> same_node m m' a)"
proof (cases "l = Leaf \<or> r = Leaf")
  case True
  let ?t = "if l = Leaf then r else l"
  note E = focus_reads [OF F]
  have t: "l = Leaf \<and> ?t = r \<or> r = Leaf \<and> ?t = l" using True by auto
  obtain m' where m': "unlink_outer h e (root_addr ?t) m = Some (above h fs, m')"
    "focus m' h fs (root_addr ?t) ?t" "node_color m' = node_color m" "node_data m' = node_data m"
    "node_left m' h = first_addr h (entries (plug fs ?t))" "node_right m' h = last_addr h (entries (plug fs ?t))"
    "\<And>a. a \<noteq> h \<Longrightarrow> a \<notin> region fs ?t \<Longrightarrow> same_node m m' a"
    using unlink_outer_ok [OF F t left right refl] by blast
  have l0: "root_addr l = 0 \<longleftrightarrow> l = Leaf" "root_addr r = 0 \<longleftrightarrow> r = Leaf"
    using E(10) by (cases l; cases r; simp)+
  have "erase_unlink h e m = Some (root_addr ?t, above h fs, m')"
    using m'(1) True l0 E(4,5) by (auto simp: erase_unlink_def)
  moreover have "entries (plug fs ?t) = before fs @ entries l @ entries r @ after fs"
    using True by (auto simp: entries_plug)
  moreover have "region fs ?t \<subseteq> region fs (Node l e c v r)"
    using True by (auto simp: region_def)
  ultimately show ?thesis
    using m' E(2) red_black_gap [OF ok t]
    by (intro exI [of _ "root_addr ?t"] exI [of _ fs] exI [of _ ?t] exI [of _ m'] exI [of _ c]) auto
next
  case False
  note E = focus_reads [OF F]
  obtain gs y cy vy yr where r: "r = plug gs (Node Leaf y cy vy yr)" and gs: "before gs = []"
    using leftmost_focus False by blast
  let ?gs = "gs @ InRight l y c vy # fs"
  obtain xp m' where u: "unlink_inner h e y (root_addr yr) m = (xp, m')" by fastforce
  note U = unlink_inner_ok [OF F _ r gs u]
  have FR: "focus m h (InRight l e c v # fs) (root_addr r) r" by (rule focus_down_right [OF F])
  have FY: "focus m h (gs @ InRight l e c v # fs) y (Node Leaf y cy vy yr)"
    using focus_down [OF FR [unfolded r]] by simp
  have l0: "root_addr l \<noteq> 0" "root_addr r \<noteq> 0"
    using E(10) False by (cases l; cases r; simp)+
  have "min_loop m (root_addr r) = Some y"
    using FR False gs min_loop_ok [of m e "root_addr r" r h] by (simp add: focus_def r entries_plug)
  then have "erase_unlink h e m = Some (root_addr yr, above h ?gs, m')"
    using l0 E(4,5) u U(1) focus_reads(5) [OF FY] False by (simp add: erase_unlink_def)
  moreover have P: "entries (plug ?gs yr) = before fs @ entries l @ entries r @ after fs"
    using gs by (simp add: plug_append entries_plug r)
  moreover have "subtree_ok yr \<and> path_ok (blacks yr + (if cy then 1 else 0)) ?gs \<and> (\<not> cy \<longrightarrow> top_black yr)"
  proof -
    have "red_black (plug (gs @ InRight l e c v # fs) (Node Leaf y cy vy yr))"
      using ok by (simp add: plug_append r)
    from red_black_gap [OF this, of yr] show ?thesis
      using path_ok_renamed [of _ gs l e c v fs y vy] by simp
  qed
  moreover have "node_left m' h = first_addr h (entries (plug ?gs yr))"
    "node_right m' h = last_addr h (entries (plug ?gs yr))"
  proof -
    have ne: "entries l \<noteq> []" "entries r \<noteq> []" using False by (simp_all add: entries_Nil)
    show "node_left m' h = first_addr h (entries (plug ?gs yr))"
      using U(5) left False first_addr_ne [OF ne(1), of e "first_addr (first_addr h (after fs)) (entries r)"]
      unfolding P by (simp add: entries_plug)
    show "node_right m' h = last_addr h (entries (plug ?gs yr))"
      using U(6) right False last_addr_ne [OF ne(2), of e "last_addr (last_addr h (before fs)) (entries l)"]
      unfolding P by (simp add: entries_plug)
  qed
  ultimately show ?thesis
    using U False
    by (intro exI [of _ "root_addr yr"] exI [of _ ?gs] exI [of _ yr] exI [of _ m'] exI [of _ cy]) auto
qed

theorem erase_rebalance_ok:
  assumes F: "focus m h fs e (Node l e c v r)"
    and left: "node_left m h = first_addr h (entries (plug fs (Node l e c v r)))"
    and right: "node_right m h = last_addr h (entries (plug fs (Node l e c v r)))"
    and ok: "red_black (plug fs (Node l e c v r))"
  shows "\<exists>m' q t. rb_tree_erase_rebalance h e m = Some (e, m') \<and> focus m' h [] q t \<and> red_black t \<and>
    entries t = before fs @ entries l @ entries r @ after fs \<and> node_data m' = node_data m \<and>
    node_left m' h = first_addr h (entries t) \<and> node_right m' h = last_addr h (entries t) \<and>
    node_color m' h = node_color m h \<and>
    (\<forall>a. a \<noteq> h \<longrightarrow> a \<notin> region fs (Node l e c v r) \<longrightarrow> same_node m m' a)"
proof -
  obtain x gs t m1 cd where U: "erase_unlink h e m = Some (x, above h gs, m1)" "node_color m1 e = cd"
    "focus m1 h gs x t" "entries (plug gs t) = before fs @ entries l @ entries r @ after fs"
    "subtree_ok t" "path_ok (blacks t + (if cd then 1 else 0)) gs" "\<not> cd \<longrightarrow> top_black t"
    "node_data m1 = node_data m" "node_left m1 h = first_addr h (entries (plug gs t))"
    "node_right m1 h = last_addr h (entries (plug gs t))" "node_color m1 h = node_color m h"
    "\<And>a. a \<noteq> h \<Longrightarrow> a \<notin> region fs (Node l e c v r) \<Longrightarrow> same_node m m1 a"
    using erase_unlink_ok [OF assms] by metis
  have "erase_done h m1 (plug gs t) (if cd then settle (erase_loop h x (above h gs) m1) else Some m1)"
    using U(3,5,6,7) by (intro erase_finish) auto
  then obtain m' q t' where L: "(if cd then settle (erase_loop h x (above h gs) m1) else Some m1) = Some m'"
    "focus m' h [] q t'" "entries t' = entries (plug gs t)" "red_black t'"
    "untouched h (set (addrs (plug gs t))) m1 m'"
    unfolding erase_done_def by metis
  have h: "h \<notin> set (addrs (plug gs t))"
    using U(3) unfolding focus_def region_plug [symmetric] region_def by simp
  have in_old: "a \<notin> set (addrs (plug gs t))" if "a \<notin> region fs (Node l e c v r)" for a
    using that unfolding set_addrs region_plug U(4) by (auto simp: entries_plug)
  have "rb_tree_erase_rebalance h e m = Some (e, m')"
    using erase_rebalance_unlinked [OF U(1,2)] L(1) by simp
  moreover have "same_node m m' a" if "a \<noteq> h" "a \<notin> region fs (Node l e c v r)" for a
    using U(12) [OF that] L(5) in_old [OF that(2)] that(1) by (simp add: untouched_def same_node_def)
  moreover have "node_left m' h = node_left m1 h" "node_right m' h = node_right m1 h"
    "node_data m' = node_data m1" "node_color m' h = node_color m1 h"
    using L(5) h by (simp_all add: untouched_def)
  ultimately show ?thesis
    using L(2-4) U(4,8-11) by (intro exI [of _ m'] exI [of _ q] exI [of _ t']) auto
qed

end
