(* ===== verification/RbRemove.thy ===== *)
theory RbRemove
  imports RbUnlink
begin

text \<open>
The removing operations of \<open>rb_tree\<close> (\<open>include/NeForce/core/container/rb_tree.hpp\<close>): \<open>erase\<close> of a
position, of a range and of a key, and \<open>clear\<close>.
\<close>

section \<open>The code\<close>

definition rt_erase :: "nat \<Rightarrow> ('k, 'v) rb_tree \<Rightarrow> ('k, 'v) rb_tree option" where
  "rt_erase position s =
    (case rb_tree_erase_rebalance (rt_header s) position (rt_nodes s) of
       None \<Rightarrow> None
     | Some (y, m) \<Rightarrow>
         (let s = destroy_node y (s\<lparr>rt_nodes := m\<rparr>)
          in Some (s\<lparr>rt_size := rt_size s - 1\<rparr>)))"

partial_function (option) erase_under :: "nat \<Rightarrow> ('k, 'v) rb_tree \<Rightarrow> ('k, 'v) rb_tree option" where
  "erase_under root s =
    (if root = 0 then Some s
     else Option.bind (erase_under (node_right (rt_nodes s) root) s)
       (\<lambda>s. Option.bind (erase_under (node_left (rt_nodes s) root) s)
         (\<lambda>s. Some (destroy_node root s))))"

partial_function (option) release_loop :: "('k, 'v) rb_tree \<Rightarrow> ('k, 'v) rb_tree option" where
  "release_loop s =
    (if rt_chunks s \<noteq> 0 then release_loop (s\<lparr>rt_chunks := node_right (rt_nodes s) (rt_chunks s)\<rparr>)
     else Some s)"

definition release_nodes :: "('k, 'v) rb_tree \<Rightarrow> ('k, 'v) rb_tree option" where
  "release_nodes s = (case release_loop s of None \<Rightarrow> None | Some s \<Rightarrow> Some (s\<lparr>rt_free := 0\<rparr>))"

definition rt_clear :: "('k, 'v) rb_tree \<Rightarrow> ('k, 'v) rb_tree option" where
  "rt_clear s =
    (if rt_header s = 0 \<or> rt_size s = 0 then Some s
     else (case erase_under (rt_root s) s of
             None \<Rightarrow> None
           | Some s \<Rightarrow>
               (let m = rt_nodes s; h = rt_header s;
                    m = set_left m h h;
                    m = set_parent m h 0;
                    m = set_right m h h
                in release_nodes (s\<lparr>rt_nodes := m, rt_size := 0\<rparr>))))"

partial_function (option) erase_range_loop ::
    "nat \<Rightarrow> nat \<Rightarrow> ('k, 'v) rb_tree \<Rightarrow> ('k, 'v) rb_tree option" where
  "erase_range_loop first stop s =
    (if first \<noteq> stop then
       Option.bind (iter_increment (rt_nodes s) first)
         (\<lambda>after. Option.bind (rt_erase first s) (erase_range_loop after stop))
     else Some s)"

definition rt_erase_range :: "nat \<Rightarrow> nat \<Rightarrow> ('k, 'v) rb_tree \<Rightarrow> ('k, 'v) rb_tree option" where
  "rt_erase_range first stop s =
    (if first = rt_begin s \<and> stop = rt_end s then rt_clear s else erase_range_loop first stop s)"

partial_function (option) distance_loop :: "'v rb_nodes \<Rightarrow> nat \<Rightarrow> nat \<Rightarrow> nat \<Rightarrow> nat option" where
  "distance_loop m first stop n =
    (if first \<noteq> stop then
       (case iter_increment m first of None \<Rightarrow> None | Some first \<Rightarrow> distance_loop m first stop (n + 1))
     else Some n)"

definition rt_erase_key :: "'k \<Rightarrow> ('k, 'v) rb_tree \<Rightarrow> (nat \<times> ('k, 'v) rb_tree) option" where
  "rt_erase_key k s =
    (case rt_equal_range s k of
       None \<Rightarrow> None
     | Some (first, stop) \<Rightarrow> (case distance_loop (rt_nodes s) first stop 0 of
         None \<Rightarrow> None
       | Some n \<Rightarrow> (case rt_erase_range first stop s of None \<Rightarrow> None | Some s \<Rightarrow> Some (n, s))))"

section \<open>One entry\<close>

lemma rt_erase_ok:
  assumes inv: "rt_inv s t free" and t: "entries t = ds @ e # es"
  shows "\<exists>s' t'. rt_erase (fst e) s = Some s' \<and> rt_inv s' t' (fst e # free) \<and> same_class s s' \<and>
    entries t' = ds @ es \<and> rt_chunks s' = rt_chunks s \<and>
    (\<forall>a. a \<noteq> rt_header s \<longrightarrow> a \<notin> set (addrs t) \<longrightarrow> same_node (rt_nodes s) (rt_nodes s') a)"
proof -
  let ?h = "rt_header s" and ?m = "rt_nodes s"
  have holds: "rt_holds s t" and pool: "rt_pool s t free" using inv by (simp_all add: rt_inv_def)
  obtain fs l c r where F: "focus ?m ?h fs (fst e) (Node l (fst e) c (snd e) r)"
    "plug fs (Node l (fst e) c (snd e) r) = t" "before fs @ entries l = ds" "entries r @ after fs = es"
    using focus_entry [of ?m ?h "[]" "rt_root s" t ds e es] holds t by (auto simp: rt_holds_def)
  obtain m' q t' where R: "rb_tree_erase_rebalance ?h (fst e) ?m = Some (fst e, m')" "focus m' ?h [] q t'"
    "red_black t'" "entries t' = ds @ es" "node_data m' = node_data ?m"
    "node_left m' ?h = first_addr ?h (entries t')" "node_right m' ?h = last_addr ?h (entries t')"
    "node_color m' ?h = node_color ?m ?h"
    "\<And>a. a \<noteq> ?h \<Longrightarrow> a \<notin> set (addrs t) \<Longrightarrow> same_node ?m m' a"
    using erase_rebalance_ok [OF F(1)] holds unfolding region_plug F(2)
    by (auto simp: rt_holds_def rt_leftmost_def rt_rightmost_def F(3,4) [symmetric])
  define s1 where "s1 = s\<lparr>rt_nodes := m', rt_size := rt_size s - 1\<rparr>"
  have d: "distinct (?h # addrs t @ free)" and fr: "free_at ?m (rt_free s) free"
    using pool by (simp_all add: rt_pool_def)
  have sub: "set (addrs t') \<subseteq> set (addrs t)" and mem: "fst e \<in> set (addrs t)"
    unfolding set_addrs R(4) t by auto
  have gone: "fst e \<notin> set (addrs t')"
    using distinct_entries [OF F(1)] unfolding F(2) t set_addrs R(4) by auto
  have h1: "rt_holds s1 t'"
    using R holds t by (simp add: rt_holds_def s1_def rt_root_def rt_leftmost_def rt_rightmost_def focus_def)
  have keep: "same_node ?m (rt_nodes s1) a" if "a \<in> set free" for a
    using R(9) [of a] that d by (auto simp: s1_def)
  then have "free_at (rt_nodes s1) (rt_free s1) free"
    using fr by (subst free_at_same [where m = ?m]) (auto simp: s1_def same_node_def)
  moreover have "distinct (?h # addrs t' @ free)"
    using d sub h1 by (auto simp: rt_holds_def focus_def s1_def)
  ultimately have p1: "rt_pool s1 t' free" by (simp add: rt_pool_def s1_def)
  have tk: "taken s1 t' free (fst e)"
    using gone mem d F(1) by (auto simp: taken_def s1_def focus_def)
  have D: "rt_holds (destroy_node (fst e) s1) t'" "rt_pool (destroy_node (fst e) s1) t' (fst e # free)"
    "same_class s1 (destroy_node (fst e) s1)"
    using destroy_node_ok [OF h1 p1 tk] by simp_all
  have cls: "same_class s (destroy_node (fst e) s1)" using D(3) by (simp add: same_class_def s1_def)
  have "in_order s (ds @ es)" using inv t by (auto simp: rt_inv_def in_order_def sorted_wrt_append)
  then have "rt_inv (destroy_node (fst e) s1) t' (fst e # free)"
    using D inv same_class_simps [OF cls] R(4) by (simp add: rt_inv_def)
  moreover have "rt_erase (fst e) s = Some (destroy_node (fst e) s1)"
    using R(1) by (simp add: rt_erase_def s1_def destroy_node_def Let_def)
  moreover have "rt_chunks (destroy_node (fst e) s1) = rt_chunks s"
    by (simp add: destroy_node_def s1_def)
  moreover have "same_node ?m (rt_nodes (destroy_node (fst e) s1)) a"
    if "a \<noteq> ?h" "a \<notin> set (addrs t)" for a
  proof -
    have "a \<noteq> fst e" using that(2) mem by blast
    then show ?thesis using R(9) [OF that] by (auto simp: destroy_node_def s1_def same_node_def)
  qed
  ultimately show ?thesis using cls R(4) by (intro exI [of _ "destroy_node (fst e) s1"] exI [of _ t']) auto
qed

section \<open>All entries\<close>

lemma erase_under_ok:
  "tree_at (rt_nodes s) par p t \<Longrightarrow> free_at (rt_nodes s) (rt_free s) free \<Longrightarrow> distinct (addrs t @ free) \<Longrightarrow>
    \<exists>m' f. erase_under p s = Some (s\<lparr>rt_nodes := m', rt_free := f\<rparr>) \<and> free_at m' f (addrs t @ free) \<and>
      (\<forall>a. a \<notin> set (addrs t) \<longrightarrow> same_node (rt_nodes s) m' a)"
proof (induction t arbitrary: s par p free)
  case Leaf
  then show ?case by (subst erase_under.simps) (auto simp: same_node_def intro!: exI [of _ "rt_nodes s"] exI [of _ "rt_free s"])
next
  case (Node l a c v r)
  have a: "p = a" "a \<noteq> 0" "tree_at (rt_nodes s) a (node_right (rt_nodes s) a) r"
    "tree_at (rt_nodes s) a (node_left (rt_nodes s) a) l"
    using Node.prems(1) by auto
  have d: "a \<notin> set (addrs l)" "a \<notin> set (addrs r)" "a \<notin> set free" "distinct (addrs r @ free)"
    "distinct (addrs l @ addrs r @ free)"
    using Node.prems(3) by auto
  obtain m1 f1 where R: "erase_under (node_right (rt_nodes s) a) s = Some (s\<lparr>rt_nodes := m1, rt_free := f1\<rparr>)"
    "free_at m1 f1 (addrs r @ free)" "\<And>b. b \<notin> set (addrs r) \<Longrightarrow> same_node (rt_nodes s) m1 b"
    using Node.IH(2) [OF a(3) Node.prems(2) d(4)] by blast
  let ?s1 = "s\<lparr>rt_nodes := m1, rt_free := f1\<rparr>"
  have "node_left m1 a = node_left (rt_nodes s) a" using R(3) [OF d(2)] by (simp add: same_node_def)
  moreover have "tree_at m1 a (node_left (rt_nodes s) a) l"
    using a(4) tree_at_same [of l "rt_nodes s" m1] R(3) d(5) by (auto simp: disjoint_iff)
  ultimately have l1: "tree_at (rt_nodes ?s1) a (node_left m1 a) l" by simp
  obtain m2 f2 where L: "erase_under (node_left m1 a) ?s1 = Some (?s1\<lparr>rt_nodes := m2, rt_free := f2\<rparr>)"
    "free_at m2 f2 (addrs l @ addrs r @ free)" "\<And>b. b \<notin> set (addrs l) \<Longrightarrow> same_node m1 m2 b"
    using Node.IH(1) [OF l1, of "addrs r @ free"] R(2) d(5) by auto
  have "erase_under p s = Some (s\<lparr>rt_nodes := set_right m2 a f2, rt_free := a\<rparr>)"
    using a R(1) L(1) by (subst erase_under.simps) (simp add: destroy_node_def)
  moreover have "free_at (set_right m2 a f2) a (a # addrs l @ addrs r @ free)"
  proof -
    have "free_at (set_right m2 a f2) f2 (addrs l @ addrs r @ free)"
      using L(2) d by (subst free_at_same [where m = m2]) auto
    then show ?thesis using a(2) by simp
  qed
  moreover have "same_node (rt_nodes s) (set_right m2 a f2) b" if "b \<notin> set (addrs (Node l a c v r))" for b
    using R(3) [of b] L(3) [of b] that by (auto simp: same_node_def)
  ultimately show ?case by auto
qed

text \<open>The blocks the nodes were taken from form a list of their own.\<close>

definition rt_blocks :: "('k, 'v) rb_tree \<Rightarrow> 'v shape \<Rightarrow> nat list \<Rightarrow> nat list \<Rightarrow> bool" where
  "rt_blocks s t free chunks \<longleftrightarrow> free_at (rt_nodes s) (rt_chunks s) chunks \<and>
    set chunks \<inter> insert (rt_header s) (set (addrs t) \<union> set free) = {}"

lemma release_loop_ok:
  "free_at (rt_nodes s) (rt_chunks s) chunks \<Longrightarrow> release_loop s = Some (s\<lparr>rt_chunks := 0\<rparr>)"
proof (induction chunks arbitrary: s)
  case (Cons a chunks)
  then show ?case using Cons.IH [of "s\<lparr>rt_chunks := node_right (rt_nodes s) a\<rparr>"]
    by (subst release_loop.simps) simp
qed (subst release_loop.simps, simp)

lemma release_nodes_ok:
  "free_at (rt_nodes s) (rt_chunks s) chunks \<Longrightarrow>
    release_nodes s = Some (s\<lparr>rt_chunks := 0, rt_free := 0\<rparr>)"
  by (simp add: release_nodes_def release_loop_ok)

lemma rt_clear_ok:
  assumes inv: "rt_inv s t free" and blocks: "rt_blocks s t free chunks"
  shows "\<exists>s'. rt_clear s = Some s' \<and> rt_inv s' Leaf (if t = Leaf then free else []) \<and> same_class s s' \<and>
    rt_chunks s' = (if t = Leaf then rt_chunks s else 0)"
proof (cases "t = Leaf")
  case True
  then have "rt_size s = 0" using inv by (simp add: rt_inv_def rt_holds_def)
  then show ?thesis using inv True by (auto simp: rt_clear_def same_class_def)
next
  case False
  let ?h = "rt_header s"
  have holds: "rt_holds s t" and pool: "rt_pool s t free" using inv by (simp_all add: rt_inv_def)
  have size: "rt_size s \<noteq> 0" using holds False by (cases t) (auto simp: rt_holds_def)
  have d: "distinct (addrs t @ free)" "?h \<notin> set (addrs t)" "?h \<noteq> 0"
    using holds pool by (auto simp: rt_pool_def rt_holds_def focus_def)
  obtain m f where E: "erase_under (rt_root s) s = Some (s\<lparr>rt_nodes := m, rt_free := f\<rparr>)"
    "\<And>a. a \<notin> set (addrs t) \<Longrightarrow> same_node (rt_nodes s) m a"
    using erase_under_ok [of s ?h "rt_root s" t free] holds pool d(1)
    by (auto simp: rt_holds_def focus_def rt_pool_def)
  define m' where "m' = set_right (set_parent (set_left m ?h ?h) ?h 0) ?h ?h"
  define s1 where "s1 = s\<lparr>rt_free := f, rt_nodes := m', rt_size := 0\<rparr>"
  have "free_at (rt_nodes s1) (rt_chunks s1) chunks"
  proof -
    have "node_right m' a = node_right (rt_nodes s) a" if "a \<in> set chunks" for a
      using that blocks E(2) [of a] by (auto simp: rt_blocks_def m'_def same_node_def)
    then show ?thesis
      using blocks by (subst free_at_same [where m = "rt_nodes s"]) (auto simp: s1_def rt_blocks_def)
  qed
  from release_nodes_ok [OF this] have code: "rt_clear s = Some (s1\<lparr>rt_chunks := 0, rt_free := 0\<rparr>)"
    using size d(3) E(1) by (simp add: rt_clear_def s1_def m'_def Let_def)
  have "node_color m ?h = RB_TREE_RED"
    using E(2) [OF d(2)] holds by (simp add: same_node_def rt_holds_def)
  then have "rt_inv (s1\<lparr>rt_chunks := 0, rt_free := 0\<rparr>) Leaf []"
    using inv d(3) by (simp add: rt_inv_def rt_holds_def rt_pool_def s1_def m'_def focus_def rt_root_def
        rt_leftmost_def rt_rightmost_def red_black_def in_order_def)
  then show ?thesis using code False by (auto simp: same_class_def s1_def)
qed

section \<open>A range of entries\<close>

lemma end_of_range:
  assumes holds: "rt_holds s t" and t: "entries t = ds @ e # ms @ es"
  shows "fst e \<noteq> first_addr (rt_header s) es"
proof -
  have "distinct (map fst (entries t))" "rt_header s \<notin> fst ` set (entries t)"
    using distinct_entries [of "rt_nodes s" "rt_header s" "[]" "rt_root s" t] holds
    by (simp_all add: rt_holds_def)
  then show ?thesis unfolding t by (cases es) auto
qed

lemma erase_range_loop_ok:
  "rt_inv s t free \<Longrightarrow> entries t = ds @ ms @ es \<Longrightarrow>
    \<exists>s' t' free'. erase_range_loop (first_addr (first_addr (rt_header s) es) ms) (first_addr (rt_header s) es) s =
      Some s' \<and> rt_inv s' t' free' \<and> entries t' = ds @ es \<and> same_class s s' \<and> rt_chunks s' = rt_chunks s"
proof (induction ms arbitrary: s t free)
  case Nil
  then show ?case by (subst erase_range_loop.simps) (auto simp: same_class_def)
next
  case (Cons e ms)
  have holds: "rt_holds s t" using Cons.prems(1) by (simp add: rt_inv_def)
  have next_e: "iter_increment (rt_nodes s) (fst e) = Some (first_addr (rt_header s) (ms @ es))"
    using step_next [OF holds, of ds e "ms @ es"] Cons.prems(2) by simp
  obtain s1 t1 where E: "rt_erase (fst e) s = Some s1" "rt_inv s1 t1 (fst e # free)" "same_class s s1"
    "entries t1 = ds @ ms @ es" "rt_chunks s1 = rt_chunks s"
    using rt_erase_ok [OF Cons.prems(1), of ds e "ms @ es"] Cons.prems(2) by auto
  have h: "rt_header s1 = rt_header s" using E(3) by (simp add: same_class_def)
  obtain s' t' free' where L: "erase_range_loop (first_addr (first_addr (rt_header s) es) ms)
      (first_addr (rt_header s) es) s1 = Some s'" "rt_inv s' t' free'" "entries t' = ds @ es"
    "same_class s1 s'" "rt_chunks s' = rt_chunks s1"
    using Cons.IH [OF E(2,4)] unfolding h by blast
  have "erase_range_loop (fst e) (first_addr (rt_header s) es) s = Some s'"
    using next_e E(1) L(1) end_of_range [OF holds Cons.prems(2) [unfolded append_Cons]]
    by (subst erase_range_loop.simps) simp
  then show ?case using L E same_class_trans [OF E(3) L(4)] by auto
qed

lemma distance_loop_ok:
  "rt_holds s t \<Longrightarrow> entries t = ds @ ms @ es \<Longrightarrow>
    distance_loop (rt_nodes s) (first_addr (first_addr (rt_header s) es) ms) (first_addr (rt_header s) es) n =
      Some (n + length ms)"
proof (induction ms arbitrary: ds n)
  case (Cons e ms)
  have "iter_increment (rt_nodes s) (fst e) = Some (first_addr (rt_header s) (ms @ es))"
    using step_next [OF Cons.prems(1), of ds e "ms @ es"] Cons.prems(2) by simp
  then show ?case
    using Cons.IH [OF Cons.prems(1), of "ds @ [e]" "n + 1"] Cons.prems(2)
      end_of_range [OF Cons.prems(1) Cons.prems(2) [unfolded append_Cons]]
    by (subst distance_loop.simps) simp
qed (subst distance_loop.simps, simp)

lemma rt_erase_range_ok:
  assumes inv: "rt_inv s t free" and blocks: "rt_blocks s t free chunks" and t: "entries t = ds @ ms @ es"
  shows "\<exists>s' t' free'. rt_erase_range (first_addr (first_addr (rt_header s) es) ms) (first_addr (rt_header s) es) s =
    Some s' \<and> rt_inv s' t' free' \<and> entries t' = ds @ es \<and> same_class s s'"
proof (cases "first_addr (first_addr (rt_header s) es) ms = rt_begin s \<and> first_addr (rt_header s) es = rt_end s")
  case False
  then show ?thesis using erase_range_loop_ok [OF inv t] unfolding rt_erase_range_def by metis
next
  case True
  have holds: "rt_holds s t" using inv by (simp add: rt_inv_def)
  have d: "distinct (map fst (ds @ ms @ es))" "rt_header s \<notin> fst ` set (ds @ ms @ es)"
    using distinct_entries [of "rt_nodes s" "rt_header s" "[]" "rt_root s" t] holds t
    by (simp_all add: rt_holds_def)
  have "es = []" using True d(2) by (cases es) (auto simp: rt_end_def)
  moreover have "rt_begin s = first_addr (rt_header s) (ds @ ms @ es)"
    using holds t by (simp add: rt_begin_def rt_holds_def)
  ultimately have "ds = []" using True d by (cases ds; cases ms) auto
  with \<open>es = []\<close> obtain s' where "rt_clear s = Some s'" "rt_inv s' Leaf (if t = Leaf then free else [])" "same_class s s'"
    using rt_clear_ok [OF inv blocks] by blast
  moreover have "rt_erase_range (first_addr (first_addr (rt_header s) es) ms) (first_addr (rt_header s) es) s =
      rt_clear s"
    unfolding rt_erase_range_def by (rule if_P [OF True])
  ultimately show ?thesis using \<open>ds = []\<close> \<open>es = []\<close>
    by (intro exI [of _ s'] exI [of _ Leaf] exI [of _ "if t = Leaf then free else []"]) simp
qed

section \<open>What the operations do\<close>

text \<open>C31 (erase_correct): erasing the entry at an iterator ends and takes that entry and no other
out; the others keep their nodes, so iterators to them stay valid, and their order; the tree is a
red-black tree again, and the node goes back to the pool.\<close>

theorem erase_correct:
  assumes "rt_inv s t free" "entries t = ds @ e # es"
  shows "\<exists>s' t'. rt_erase (fst e) s = Some s' \<and> rt_inv s' t' (fst e # free) \<and> same_class s s' \<and>
    entries t' = ds @ es \<and> rt_size s' = length (ds @ es)"
  using rt_erase_ok [OF assms] by (fastforce simp: rt_inv_def rt_holds_def)

lemma erase_correct_witness:
  "\<exists>s' t'. rt_erase 3 three_tree = Some s' \<and> rt_inv s' t' [3] \<and> entries t' = [(4, 3), (5, 9)]"
proof -
  have "entries three_shape = [(4, 3)] @ (3, 7) # [(5, 9)]" by (simp add: three_shape_def)
  from erase_correct [OF three_tree_inv this] show ?thesis by auto
qed

text \<open>C32 (erase_key_correct): erasing a key ends, answers how many entries were equivalent to
it, and leaves exactly the others, in order, whether it empties the container or not.\<close>

theorem erase_key_correct:
  assumes inv: "rt_inv s t free" and blocks: "rt_blocks s t free chunks"
  shows "\<exists>s' t' free'. rt_erase_key k s = Some (length (filter (equivalent s k) (entries t)), s') \<and>
    rt_inv s' t' free' \<and> same_class s s' \<and> entries t' = filter (\<lambda>e. \<not> equivalent s k e) (entries t)"
proof -
  have holds: "rt_holds s t" and swo: "strict_weak_order (rt_compare s)" and ord: "in_order s (entries t)"
    using inv by (auto simp: rt_inv_def)
  have at: "tree_at (rt_nodes s) (rt_header s) (rt_root s) t"
    using holds by (simp add: rt_holds_def focus_def)
  let ?low = "\<lambda>e. rt_compare s (entry_key s e) k" and ?high = "\<lambda>e. \<not> rt_compare s k (entry_key s e)"
  define ds where "ds = takeWhile ?low (entries t)"
  define ms where "ms = takeWhile ?high (dropWhile ?low (entries t))"
  define es where "es = dropWhile ?high (dropWhile ?low (entries t))"
  have t: "entries t = ds @ ms @ es" and low: "dropWhile ?low (entries t) = ms @ es"
    by (simp_all add: ds_def ms_def es_def)
  have "\<forall>e \<in> set ds. ?high e" unfolding ds_def by (metis (no_types, lifting) set_takeWhileD swo swo_asym)
  then have "dropWhile ?high (ds @ ms @ es) = dropWhile ?high (ms @ es)" by (intro dropWhile_append2) auto
  then have high: "dropWhile ?high (entries t) = es"
    unfolding t unfolding low [symmetric] es_def [symmetric] .
  have eq: "filter (equivalent s k) (entries t) = ms"
    unfolding ms_def by (rule divided [OF swo ord])
  have neq: "filter (\<lambda>e. \<not> equivalent s k e) (entries t) = ds @ es"
  proof -
    have "\<forall>e \<in> set ms. equivalent s k e" unfolding eq [symmetric] by simp
    then have m: "filter (equivalent s k) ms = ms" "filter (\<lambda>e. \<not> equivalent s k e) ms = []"
      by (simp_all add: filter_empty_conv)
    then have "filter (equivalent s k) ds = [] \<and> filter (equivalent s k) es = []"
      using arg_cong [OF eq [unfolded t], of length] by simp
    then show ?thesis unfolding t filter_append m(2) by (auto simp: filter_empty_conv filter_id_conv)
  qed
  have "rt_equal_range s k = Some (first_addr (first_addr (rt_header s) es) ms, first_addr (rt_header s) es)"
  proof -
    have "lower_loop s k (rt_root s) (rt_header s) = Some (first_addr (rt_header s) (ms @ es))"
      unfolding low [symmetric] by (rule lower_loop_ok [OF at swo ord])
    moreover have "upper_loop s k (rt_root s) (rt_header s) = Some (first_addr (rt_header s) es)"
      unfolding high [symmetric] by (rule upper_loop_ok [OF at swo ord])
    ultimately show ?thesis by (simp add: rt_equal_range_def rt_lower_bound_def rt_upper_bound_def)
  qed
  moreover note distance_loop_ok [OF holds t, of 0]
  moreover obtain s' t' free' where
    "rt_erase_range (first_addr (first_addr (rt_header s) es) ms) (first_addr (rt_header s) es) s = Some s'"
    "rt_inv s' t' free'" "entries t' = ds @ es" "same_class s s'"
    using rt_erase_range_ok [OF inv blocks t] by blast
  ultimately show ?thesis unfolding eq neq
    by (intro exI [of _ s'] exI [of _ t'] exI [of _ free']) (simp add: rt_erase_key_def)
qed

lemma erase_key_correct_witness:
  "\<exists>s' t' free'. rt_erase_key 9 three_tree = Some (1, s') \<and> rt_inv s' t' free' \<and>
    entries t' = [(4, 3), (3, 7)]"
proof -
  have "rt_blocks three_tree three_shape [] []" by (simp add: rt_blocks_def three_tree_def)
  from erase_key_correct [OF three_tree_inv this, of 9] show ?thesis
    by (auto simp: three_shape_def equivalent_def entry_key_def three_tree_simps)
qed

section \<open>Containers that are reached\<close>

text \<open>
Every container that calls of \<open>emplace_unique\<close> or \<open>emplace_equal\<close> and of \<open>erase\<close> make from an empty one.
The allocator promises that a new block does not overlap the nodes in use, and the position of an
erasure is that of an entry.
\<close>

datatype 'v tree_call = Emplace nat 'v | Erase nat

fun tree_step :: "bool \<Rightarrow> 'v tree_call \<Rightarrow> ('k, 'v) rb_tree \<Rightarrow> ('k, 'v) rb_tree option" where
  "tree_step uniq (Emplace chunk v) s =
    (if uniq then map_option snd (emplace_unique chunk v s) else map_option snd (emplace_equal chunk v s))"
| "tree_step uniq (Erase position) s = rt_erase position s"

fun tree_allowed :: "'v tree_call \<Rightarrow> ('k, 'v) rb_tree \<Rightarrow> bool" where
  "tree_allowed (Emplace chunk v) s \<longleftrightarrow> (\<forall>t. rt_inv s t [] \<longrightarrow> fresh_chunk s t chunk)"
| "tree_allowed (Erase position) s \<longleftrightarrow> (\<forall>t free. rt_inv s t free \<longrightarrow> position \<in> set (addrs t))"

inductive tree_reached :: "bool \<Rightarrow> ('k, 'v) rb_tree \<Rightarrow> ('k, 'v) rb_tree \<Rightarrow> bool" for uniq s0 where
  Reached_start: "tree_reached uniq s0 s0"
| Reached_step: "tree_reached uniq s0 s \<Longrightarrow> tree_allowed c s \<Longrightarrow> tree_step uniq c s = Some s' \<Longrightarrow>
    tree_reached uniq s0 s'"

text \<open>What holds of each of them, for a shape.\<close>

definition tree_good :: "bool \<Rightarrow> ('k, 'v) rb_tree \<Rightarrow> 'v shape \<Rightarrow> bool" where
  "tree_good uniq s t \<longleftrightarrow> (\<exists>free. rt_inv s t free) \<and> (uniq \<longrightarrow> strictly_ordered s (entries t))"

lemma tree_emplace_ok:
  assumes "tree_good uniq s t" "tree_allowed (Emplace chunk v) s"
  shows "\<exists>s' t'. tree_step uniq (Emplace chunk v) s = Some s' \<and> tree_good uniq s' t'"
proof -
  obtain free where inv: "rt_inv s t free" using assms(1) by (auto simp: tree_good_def)
  have fresh: "free = [] \<Longrightarrow> fresh_chunk s t chunk" using assms(2) inv by auto
  show ?thesis
  proof (cases uniq)
    case False
    then show ?thesis using emplace_equal_ok [OF inv fresh, of v] by (auto simp: tree_good_def)
  next
    case True
    then have so: "strictly_ordered s (entries t)" using assms(1) by (simp add: tree_good_def)
    show ?thesis
    proof (cases "List.find (equivalent s (rt_key s v)) (entries t)")
      case None
      then show ?thesis using emplace_unique_ok [OF inv so fresh, of v] True by (auto simp: tree_good_def)
    next
      case (Some e)
      then obtain s' free' where s': "emplace_unique chunk v s = Some ((fst e, False), s')" "rt_inv s' t free'"
        "same_class s s'"
        using emplace_unique_ok [OF inv so fresh, of v] by auto
      then show ?thesis using True so same_class_simps(5) [OF s'(3)] by (auto simp: tree_good_def)
    qed
  qed
qed

lemma tree_erase_ok:
  assumes "tree_good uniq s t" "tree_allowed (Erase p) s"
  shows "\<exists>s' t'. tree_step uniq (Erase p) s = Some s' \<and> tree_good uniq s' t'"
proof -
  obtain free where inv: "rt_inv s t free" using assms(1) by (auto simp: tree_good_def)
  then have "p \<in> fst ` set (entries t)" using assms(2) by (auto simp: set_addrs)
  then obtain e where e: "e \<in> set (entries t)" "fst e = p" by auto
  then obtain ds es where t: "entries t = ds @ e # es" by (meson split_list)
  from rt_erase_ok [OF inv t] e(2) obtain s' t' where s': "rt_erase p s = Some s'" "rt_inv s' t' (p # free)"
    "same_class s s'" "entries t' = ds @ es" by auto
  have "strictly_ordered s' (entries t')" if uniq
    using assms(1) that t s'(4) same_class_simps(5) [OF s'(3)]
    by (auto simp: tree_good_def strictly_ordered_def sorted_wrt_append)
  then show ?thesis using s' by (auto simp: tree_good_def)
qed

lemma tree_call_ok:
  "tree_good uniq s t \<Longrightarrow> tree_allowed c s \<Longrightarrow> \<exists>s' t'. tree_step uniq c s = Some s' \<and> tree_good uniq s' t'"
  by (cases c) (simp_all only: tree_emplace_ok tree_erase_ok)

lemma reached_good:
  "tree_reached uniq s0 s \<Longrightarrow> tree_good uniq s0 t0 \<Longrightarrow> \<exists>t. tree_good uniq s t"
proof (induction rule: tree_reached.induct)
  case (Reached_step s c s')
  then obtain t where "tree_good uniq s t" by blast
  from tree_call_ok [OF this Reached_step.hyps(2)] show ?case using Reached_step.hyps(3) by auto
qed blast

lemma header_init_inv:
  assumes "strict_weak_order (rt_compare s)" "rt_size s = 0" "rt_free s = 0" "h \<noteq> 0"
  shows "tree_good uniq (header_init s h) Leaf"
  using assms
  by (auto simp: tree_good_def header_init_def rt_inv_def rt_holds_def rt_pool_def focus_def rt_root_def
      rt_leftmost_def rt_rightmost_def red_black_def in_order_def strictly_ordered_def RB_TREE_RED_def
      intro!: exI [of _ "[]"])

text \<open>C35 (rb_tree_stays_balanced): whatever allowed calls of \<open>emplace_unique\<close> (or of \<open>emplace_equal\<close>) and
of \<open>erase\<close> were made on an empty container, its memory holds a red-black tree in key order, without
equivalent keys when they were unique insertions, whose height is at most \<open>2 log (n + 1)\<close> for \<open>n\<close>
entries, and every further allowed call ends.\<close>

theorem rb_tree_stays_balanced:
  assumes "tree_reached uniq (header_init s0 h) s" "strict_weak_order (rt_compare s0)" "rt_size s0 = 0"
    "rt_free s0 = 0" "h \<noteq> 0"
  shows "(\<exists>t free. rt_inv s t free \<and> (uniq \<longrightarrow> strictly_ordered s (entries t)) \<and>
      2 ^ shape_height t \<le> (rt_size s + 1) ^ 2) \<and>
    (\<forall>c. tree_allowed c s \<longrightarrow> (\<exists>s'. tree_step uniq c s = Some s'))"
proof -
  obtain t where t: "tree_good uniq s t" using reached_good [OF assms(1) header_init_inv [OF assms(2-5)]] ..
  then obtain free where inv: "rt_inv s t free" by (auto simp: tree_good_def)
  then show ?thesis using t height_logarithmic [OF inv] tree_call_ok [OF t] by (auto simp: tree_good_def)
qed

lemma rb_tree_stays_balanced_witness:
  "\<exists>s t free. tree_reached True empty_tree s \<and> rt_size s = 1 \<and> rt_inv s t free \<and> 2 ^ shape_height t \<le> (4::nat)"
proof -
  let ?s0 = "\<lparr>rt_nodes = \<lparr>node_color = \<lambda>_. False, node_parent = \<lambda>_. 0,
     node_left = \<lambda>_. 0, node_right = \<lambda>_. 0, node_data = \<lambda>_. 0\<rparr>, rt_header = 0, rt_compare = (<),
     rt_key = id, rt_size = 0, rt_free = 0, rt_chunks = 0\<rparr> :: (nat, nat) rb_tree"
  obtain a s t free where e: "emplace_unique 2 7 empty_tree = Some ((a, True), s)" "rt_inv s t free"
    "entries t = [(a, 7)]"
    using emplace_unique_ok [of empty_tree Leaf "[]" 2 7] empty_tree_inv by fastforce
  have "t = Leaf" if "rt_inv empty_tree t []" for t :: "nat shape"
    using that by (cases t) (auto simp: rt_inv_def rt_holds_def empty_tree_def header_init_def)
  then have "tree_allowed (Emplace 2 7) empty_tree" using empty_tree_inv(3) by auto
  then have r: "tree_reached True empty_tree s"
    using Reached_step [OF Reached_start, of "Emplace 2 7" empty_tree True s] e(1) by simp
  have size: "rt_size s = 1" using e(2,3) by (simp add: rt_inv_def rt_holds_def)
  then obtain t free where "rt_inv s t free" "2 ^ shape_height t \<le> (rt_size s + 1) ^ 2"
    using rb_tree_stays_balanced [of True ?s0 1 s, THEN conjunct1] r
    by (auto simp: empty_tree_def strict_weak_order_def)
  then show ?thesis using r size by (intro exI [of _ s] exI [of _ t] exI [of _ free]) (simp add: power2_eq_square)
qed

end
