(* ===== verification/ByteCursor.thy ===== *)
theory ByteCursor
  imports Prelude
begin

section \<open>Byte order and the bounds-checked cursor\<close>

text \<open>
  \<open>include/NeForce/core/memory/endian.hpp\<close> and \<open>byte_cursor.hpp\<close>. A pointer into a buffer is
  the rest of the byte list; a write through a pointer returns the updated list. The cursor
  keeps its position as a natural number, with the comparison \<open>pos_ + count > size_\<close> taken
  modulo \<open>2 ^ 64\<close> as the code takes it. A byte view is the list of the bytes it covers.
\<close>

subsection \<open>endian\<close>

definition byteswap16 :: "u16 \<Rightarrow> u16" where
  "byteswap16 value = drop_bit 8 value OR push_bit 8 value"

definition byteswap32 :: "u32 \<Rightarrow> u32" where
  "byteswap32 value =
     (drop_bit 24 value AND 0x000000FF) OR (drop_bit 8 value AND 0x0000FF00) OR
     (push_bit 8 value AND 0x00FF0000) OR (push_bit 24 value AND 0xFF000000)"

definition byteswap64 :: "u64 \<Rightarrow> u64" where
  "byteswap64 value =
     (drop_bit 56 value AND 0x00000000000000FF) OR (drop_bit 40 value AND 0x000000000000FF00) OR
     (drop_bit 24 value AND 0x0000000000FF0000) OR (drop_bit 8 value AND 0x00000000FF000000) OR
     (push_bit 8 value AND 0x000000FF00000000) OR (push_bit 24 value AND 0x0000FF0000000000) OR
     (push_bit 40 value AND 0x00FF000000000000) OR (push_bit 56 value AND 0xFF00000000000000)"

definition read_le16 :: "byte list \<Rightarrow> u16" where
  "read_le16 data = ucast (data ! 0) OR push_bit 8 (ucast (data ! 1))"

definition read_le24 :: "byte list \<Rightarrow> u32" where
  "read_le24 data =
     ucast (data ! 0) OR push_bit 8 (ucast (data ! 1)) OR push_bit 16 (ucast (data ! 2))"

definition read_le32 :: "byte list \<Rightarrow> u32" where
  "read_le32 data =
     ucast (data ! 0) OR push_bit 8 (ucast (data ! 1)) OR push_bit 16 (ucast (data ! 2)) OR
     push_bit 24 (ucast (data ! 3))"

definition read_le64 :: "byte list \<Rightarrow> u64" where
  "read_le64 data =
     ucast (data ! 0) OR push_bit 8 (ucast (data ! 1)) OR push_bit 16 (ucast (data ! 2)) OR
     push_bit 24 (ucast (data ! 3)) OR push_bit 32 (ucast (data ! 4)) OR
     push_bit 40 (ucast (data ! 5)) OR push_bit 48 (ucast (data ! 6)) OR
     push_bit 56 (ucast (data ! 7))"

definition read_be16 :: "byte list \<Rightarrow> u16" where
  "read_be16 data = push_bit 8 (ucast (data ! 0)) OR ucast (data ! 1)"

definition read_be24 :: "byte list \<Rightarrow> u32" where
  "read_be24 data =
     push_bit 16 (ucast (data ! 0)) OR push_bit 8 (ucast (data ! 1)) OR ucast (data ! 2)"

definition read_be32 :: "byte list \<Rightarrow> u32" where
  "read_be32 data =
     push_bit 24 (ucast (data ! 0)) OR push_bit 16 (ucast (data ! 1)) OR
     push_bit 8 (ucast (data ! 2)) OR ucast (data ! 3)"

definition read_be64 :: "byte list \<Rightarrow> u64" where
  "read_be64 data =
     push_bit 56 (ucast (data ! 0)) OR push_bit 48 (ucast (data ! 1)) OR
     push_bit 40 (ucast (data ! 2)) OR push_bit 32 (ucast (data ! 3)) OR
     push_bit 24 (ucast (data ! 4)) OR push_bit 16 (ucast (data ! 5)) OR
     push_bit 8 (ucast (data ! 6)) OR ucast (data ! 7)"

definition write_le16 :: "byte list \<Rightarrow> u16 \<Rightarrow> byte list" where
  "write_le16 dest value =
     dest[0 := ucast (value AND 0xFF), 1 := ucast (drop_bit 8 value AND 0xFF)]"

definition write_le24 :: "byte list \<Rightarrow> u32 \<Rightarrow> byte list" where
  "write_le24 dest value =
     dest[0 := ucast (value AND 0xFF), 1 := ucast (drop_bit 8 value AND 0xFF),
          2 := ucast (drop_bit 16 value AND 0xFF)]"

definition write_le32 :: "byte list \<Rightarrow> u32 \<Rightarrow> byte list" where
  "write_le32 dest value =
     foldl (\<lambda>d i. d[i := ucast (drop_bit (i * 8) value AND 0xFF)]) dest [0..<4]"

definition write_le64 :: "byte list \<Rightarrow> u64 \<Rightarrow> byte list" where
  "write_le64 dest value =
     foldl (\<lambda>d i. d[i := ucast (drop_bit (i * 8) value AND 0xFF)]) dest [0..<8]"

definition write_be16 :: "byte list \<Rightarrow> u16 \<Rightarrow> byte list" where
  "write_be16 dest value =
     dest[0 := ucast (drop_bit 8 value AND 0xFF), 1 := ucast (value AND 0xFF)]"

definition write_be32 :: "byte list \<Rightarrow> u32 \<Rightarrow> byte list" where
  "write_be32 dest value =
     foldl (\<lambda>d i. d[i := ucast (drop_bit ((3 - i) * 8) value AND 0xFF)]) dest [0..<4]"

definition write_be64 :: "byte list \<Rightarrow> u64 \<Rightarrow> byte list" where
  "write_be64 dest value =
     foldl (\<lambda>d i. d[i := ucast (drop_bit ((7 - i) * 8) value AND 0xFF)]) dest [0..<8]"

subsection \<open>byte_cursor\<close>

record byte_cursor =
  bc_data :: "byte list"
  bc_pos :: nat
  bc_bit_buf :: u64
  bc_bits :: nat

definition cursor_of :: "byte list \<Rightarrow> byte_cursor" where
  "cursor_of data = \<lparr>bc_data = data, bc_pos = 0, bc_bit_buf = 0, bc_bits = 0\<rparr>"

definition bc_size :: "byte_cursor \<Rightarrow> nat" where
  "bc_size c = length (bc_data c)"

definition cur_remaining :: "byte_cursor \<Rightarrow> nat" where
  "cur_remaining c = bc_size c - bc_pos c"

definition exhausted :: "byte_cursor \<Rightarrow> bool" where
  "exhausted c \<longleftrightarrow> bc_pos c \<ge> bc_size c"

definition try_read_byte :: "byte_cursor \<Rightarrow> byte_cursor \<times> byte option" where
  "try_read_byte c =
     (if bc_pos c \<ge> bc_size c then (c, None)
      else (c\<lparr>bc_pos := bc_pos c + 1\<rparr>, Some (bc_data c ! bc_pos c)))"

definition peek_byte :: "byte_cursor \<Rightarrow> byte option" where
  "peek_byte c = (if bc_pos c \<ge> bc_size c then None else Some (bc_data c ! bc_pos c))"

text \<open>The test \<open>pos_ + count > size_\<close> on \<open>size_t\<close>, and a read of a fixed number of bytes.\<close>

definition runs_past :: "nat \<Rightarrow> byte_cursor \<Rightarrow> bool" where
  "runs_past cnt c \<longleftrightarrow> (bc_pos c + cnt) mod 2 ^ 64 > bc_size c"

definition advance :: "nat \<Rightarrow> byte_cursor \<Rightarrow> byte_cursor" where
  "advance cnt c = c\<lparr>bc_pos := (bc_pos c + cnt) mod 2 ^ 64\<rparr>"

definition try_read_fixed ::
  "nat \<Rightarrow> (byte list \<Rightarrow> 'a) \<Rightarrow> byte_cursor \<Rightarrow> byte_cursor \<times> 'a option" where
  "try_read_fixed cnt read c =
     (if runs_past cnt c then (c, None)
      else (advance cnt c, Some (read (drop (bc_pos c) (bc_data c)))))"

definition try_read_be16 :: "byte_cursor \<Rightarrow> byte_cursor \<times> u16 option" where
  "try_read_be16 c = try_read_fixed 2 read_be16 c"

definition try_read_be24 :: "byte_cursor \<Rightarrow> byte_cursor \<times> u32 option" where
  "try_read_be24 c = try_read_fixed 3 read_be24 c"

definition try_read_be32 :: "byte_cursor \<Rightarrow> byte_cursor \<times> u32 option" where
  "try_read_be32 c = try_read_fixed 4 read_be32 c"

definition try_read_be64 :: "byte_cursor \<Rightarrow> byte_cursor \<times> u64 option" where
  "try_read_be64 c = try_read_fixed 8 read_be64 c"

definition try_read_le16 :: "byte_cursor \<Rightarrow> byte_cursor \<times> u16 option" where
  "try_read_le16 c = try_read_fixed 2 read_le16 c"

definition try_read_le32 :: "byte_cursor \<Rightarrow> byte_cursor \<times> u32 option" where
  "try_read_le32 c = try_read_fixed 4 read_le32 c"

definition try_read_le64 :: "byte_cursor \<Rightarrow> byte_cursor \<times> u64 option" where
  "try_read_le64 c = try_read_fixed 8 read_le64 c"

definition try_read_bytes :: "nat \<Rightarrow> byte_cursor \<Rightarrow> byte_cursor \<times> byte list option" where
  "try_read_bytes cnt c =
     (if runs_past cnt c then (c, None)
      else (advance cnt c, Some (take cnt (drop (bc_pos c) (bc_data c)))))"

definition cur_skip :: "nat \<Rightarrow> byte_cursor \<Rightarrow> byte_cursor \<times> bool" where
  "cur_skip cnt c = (if runs_past cnt c then (c, False) else (advance cnt c, True))"

definition bit_mask :: "nat \<Rightarrow> u64" where
  "bit_mask n = (if n = 64 then - 1 else push_bit n 1 - 1)"

text \<open>The loop of \<open>try_read_bits\<close> that fetches bytes while fewer than \<open>n\<close> bits are buffered.\<close>

function fetch_bits :: "nat \<Rightarrow> byte_cursor \<Rightarrow> byte_cursor \<times> bool" where
  "fetch_bits n c =
     (if bc_bits c < n
      then (case try_read_byte c of
              (c', None) \<Rightarrow> (c', False)
            | (c', Some b) \<Rightarrow>
                fetch_bits n (c'\<lparr>bc_bit_buf := push_bit 8 (bc_bit_buf c') OR ucast b,
                                 bc_bits := bc_bits c' + 8\<rparr>))
      else (c, True))"
  by pat_completeness auto

termination
  by (relation "measure (\<lambda>(n, c). n - bc_bits c)")
    (auto simp: try_read_byte_def split: if_splits)

declare fetch_bits.simps [simp del]

definition try_read_bits :: "nat \<Rightarrow> byte_cursor \<Rightarrow> byte_cursor \<times> u64 option" where
  "try_read_bits n c =
     (if n > 64 then (c, None)
      else (case fetch_bits n c of
              (c, False) \<Rightarrow> (c, None)
            | (c, True) \<Rightarrow>
                (let c = c\<lparr>bc_bits := bc_bits c - n\<rparr>
                 in (c, Some (drop_bit (bc_bits c) (bc_bit_buf c) AND bit_mask n)))))"

definition try_peek_bits :: "nat \<Rightarrow> byte_cursor \<Rightarrow> u64 option" where
  "try_peek_bits n c =
     (if n > 64 \<or> bc_bits c < n then None
      else Some (drop_bit (bc_bits c - n) (bc_bit_buf c) AND bit_mask n))"

definition skip_bits :: "nat \<Rightarrow> byte_cursor \<Rightarrow> byte_cursor" where
  "skip_bits n c = (if n \<le> bc_bits c then c\<lparr>bc_bits := bc_bits c - n\<rparr> else c\<lparr>bc_bits := 0\<rparr>)"

definition bits_remaining :: "byte_cursor \<Rightarrow> nat" where
  "bits_remaining c = bc_bits c"

definition refill_bits :: "byte_cursor \<Rightarrow> byte_cursor \<times> bool" where
  "refill_bits c =
     (if exhausted c then (c, False)
      else (c\<lparr>bc_bit_buf := push_bit 8 (bc_bit_buf c) OR ucast (bc_data c ! bc_pos c),
              bc_pos := bc_pos c + 1, bc_bits := bc_bits c + 8\<rparr>, True))"

subsection \<open>Words and their bytes\<close>

text \<open>The lemmas that decide an equation of words bit by bit.\<close>

lemma and_FF [simp]: "(w AND 255 :: 'a::len word) = take_bit 8 w"
  by (simp add: take_bit_eq_mask mask_eq_exp_minus_1)

lemmas word_bit_simps = bit_simps bit_take_bit_iff bit_drop_bit_eq bit_push_bit_iff bit_unsigned_iff

lemma byte_bitD: "bit (b :: byte) n \<Longrightarrow> n < 8"
  using bit_imp_le_length [of b n] by simp

lemma byte_bit_ge [simp]: "8 \<le> n \<Longrightarrow> \<not> bit (b :: byte) n"
  using byte_bitD [of b n] by auto

lemma foldl_update_nth:
  "n \<le> length d \<Longrightarrow> length (foldl (\<lambda>d i. d[i := f i]) d [0..<n]) = length d \<and>
    (\<forall>i < length d. foldl (\<lambda>d i. d[i := f i]) d [0..<n] ! i = (if i < n then f i else d ! i))"
  by (induction n) (auto simp: nth_list_update less_Suc_eq)

lemma list_of_2: "2 \<le> length d \<Longrightarrow> \<exists>a b r. d = a # b # r"
  by (cases d; cases "tl d") auto

lemma list_of_3:
  assumes "3 \<le> length d"
  shows "\<exists>a b c r. d = a # b # c # r"
proof -
  obtain a b r where d: "d = a # b # r" using list_of_2 [of d] assms by auto
  then show ?thesis using assms by (cases r) auto
qed

lemma write_be32_nth:
  assumes "4 \<le> length dest" "i < 4"
  shows "write_be32 dest v ! i = ucast (take_bit 8 (drop_bit ((3 - i) * 8) v))"
    "write_le32 dest v ! i = ucast (take_bit 8 (drop_bit (i * 8) v))"
  using foldl_update_nth [OF assms(1)] assms by (simp_all add: write_be32_def write_le32_def)

lemma write_be64_nth:
  assumes "8 \<le> length dest" "i < 8"
  shows "write_be64 dest v ! i = ucast (take_bit 8 (drop_bit ((7 - i) * 8) v))"
    "write_le64 dest v ! i = ucast (take_bit 8 (drop_bit (i * 8) v))"
  using foldl_update_nth [OF assms(1)] assms by (simp_all add: write_be64_def write_le64_def)

text \<open>The byte a bit lies in.\<close>

lemma be16_roundtrip:
  assumes "2 \<le> length dest"
  shows "read_be16 (write_be16 dest v) = v" "read_le16 (write_le16 dest v) = v"
proof -
  obtain a b r where d: "dest = a # b # r" using list_of_2 [OF assms] by blast
  show "read_be16 (write_be16 dest v) = v"
  proof (rule bit_word_eqI)
    fix n assume "n < LENGTH(16)"
    then show "bit (read_be16 (write_be16 dest v)) n \<longleftrightarrow> bit v n"
      by (cases "n < 8") (auto simp: d read_be16_def write_be16_def word_bit_simps)
  qed
  show "read_le16 (write_le16 dest v) = v"
  proof (rule bit_word_eqI)
    fix n assume "n < LENGTH(16)"
    then show "bit (read_le16 (write_le16 dest v)) n \<longleftrightarrow> bit v n"
      by (cases "n < 8") (auto simp: d read_le16_def write_le16_def word_bit_simps)
  qed
qed

lemma le24_roundtrip:
  assumes "3 \<le> length dest"
  shows "read_le24 (write_le24 dest v) = take_bit 24 v"
proof (rule bit_word_eqI)
  fix n assume "n < LENGTH(32)"
  obtain a b c r where d: "dest = a # b # c # r" using list_of_3 [OF assms] by blast
  show "bit (read_le24 (write_le24 dest v)) n \<longleftrightarrow> bit (take_bit 24 v) n"
    by (cases "n < 8"; cases "n < 16"; cases "n < 24")
      (auto simp: d read_le24_def write_le24_def word_bit_simps)
qed

lemma be32_roundtrip:
  assumes "4 \<le> length dest"
  shows "read_be32 (write_be32 dest v) = v" "read_le32 (write_le32 dest v) = v"
proof -
  show "read_be32 (write_be32 dest v) = v"
  proof (rule bit_word_eqI)
    fix n assume "n < LENGTH(32)"
    then show "bit (read_be32 (write_be32 dest v)) n \<longleftrightarrow> bit v n"
      by (cases "n < 8"; cases "n < 16"; cases "n < 24")
        (auto simp: read_be32_def write_be32_nth [OF assms] word_bit_simps)
  qed
  show "read_le32 (write_le32 dest v) = v"
  proof (rule bit_word_eqI)
    fix n assume "n < LENGTH(32)"
    then show "bit (read_le32 (write_le32 dest v)) n \<longleftrightarrow> bit v n"
      by (cases "n < 8"; cases "n < 16"; cases "n < 24")
        (auto simp: read_le32_def write_be32_nth [OF assms] word_bit_simps)
  qed
qed

text \<open>The byte of a value that holds its bit \<open>n\<close>.\<close>

lemma bit_push_byte:
  "k + 8 \<le> LENGTH('a) \<Longrightarrow>
   bit (push_bit k (ucast (b :: byte)) :: 'a::len word) n \<longleftrightarrow> k \<le> n \<and> n < k + 8 \<and> bit b (n - k)"
  by (cases "n - k < 8") (auto simp: word_bit_simps)

lemma bit_ucast_byte:
  "8 \<le> LENGTH('a) \<Longrightarrow> bit (ucast (b :: byte) :: 'a::len word) n \<longleftrightarrow> n < 8 \<and> bit b n"
  by (cases "n < 8") (auto simp: word_bit_simps)

lemma bit_written_byte:
  "bit (ucast (take_bit 8 (drop_bit k v)) :: byte) m \<longleftrightarrow> m < 8 \<and> bit v (k + m)"
  "bit (ucast (take_bit 8 v) :: byte) m \<longleftrightarrow> m < 8 \<and> bit v m"
  by (auto simp: word_bit_simps)

lemma be64_roundtrip:
  assumes "8 \<le> length dest"
  shows "read_be64 (write_be64 dest v) = v" "read_le64 (write_le64 dest v) = v"
proof -
  have n: "n < 8 \<or> 8 \<le> n \<and> n < 16 \<or> 16 \<le> n \<and> n < 24 \<or> 24 \<le> n \<and> n < 32 \<or>
    32 \<le> n \<and> n < 40 \<or> 40 \<le> n \<and> n < 48 \<or> 48 \<le> n \<and> n < 56 \<or> 56 \<le> n" for n :: nat by linarith
  show "read_be64 (write_be64 dest v) = v"
  proof (rule bit_word_eqI)
    fix n assume "n < LENGTH(64)"
    then show "bit (read_be64 (write_be64 dest v)) n \<longleftrightarrow> bit v n"
      using n [of n] by (elim disjE conjE)
        (simp_all add: read_be64_def write_be64_nth [OF assms] bit_or_iff bit_push_byte bit_ucast_byte
          bit_written_byte less_diff_conv2 bit_drop_bit_eq)
  qed
  show "read_le64 (write_le64 dest v) = v"
  proof (rule bit_word_eqI)
    fix n assume "n < LENGTH(64)"
    then show "bit (read_le64 (write_le64 dest v)) n \<longleftrightarrow> bit v n"
      using n [of n] by (elim disjE conjE)
        (simp_all add: read_le64_def write_be64_nth [OF assms] bit_or_iff bit_push_byte bit_ucast_byte
          bit_written_byte less_diff_conv2 bit_drop_bit_eq)
  qed
qed

lemma byte_cases64:
  "n < 8 \<or> 8 \<le> n \<and> n < 16 \<or> 16 \<le> n \<and> n < 24 \<or> 24 \<le> n \<and> n < 32 \<or>
    32 \<le> n \<and> n < 40 \<or> 40 \<le> n \<and> n < 48 \<or> 48 \<le> n \<and> n < 56 \<or> 56 \<le> (n :: nat)"
  by linarith

lemma byte_masks32:
  "(0x0000FF00 :: u32) = push_bit 8 (mask 8)" "(0x00FF0000 :: u32) = push_bit 16 (mask 8)"
  "(0xFF000000 :: u32) = push_bit 24 (mask 8)"
  by (simp_all add: mask_eq_exp_minus_1 push_bit_eq_mult)

lemma byte_masks64:
  "(0x000000000000FF00 :: u64) = push_bit 8 (mask 8)" "(0x0000000000FF0000 :: u64) = push_bit 16 (mask 8)"
  "(0x00000000FF000000 :: u64) = push_bit 24 (mask 8)" "(0x000000FF00000000 :: u64) = push_bit 32 (mask 8)"
  "(0x0000FF0000000000 :: u64) = push_bit 40 (mask 8)" "(0x00FF000000000000 :: u64) = push_bit 48 (mask 8)"
  "(0xFF00000000000000 :: u64) = push_bit 56 (mask 8)"
  by (simp_all add: mask_eq_exp_minus_1 push_bit_eq_mult)

lemma byteswap16_read: "byteswap16 (read_be16 d) = read_le16 d"
proof (rule bit_word_eqI)
  fix n assume "n < LENGTH(16)"
  then show "bit (byteswap16 (read_be16 d)) n \<longleftrightarrow> bit (read_le16 d) n"
    by (cases "n < 8") (auto simp: byteswap16_def read_be16_def read_le16_def word_bit_simps)
qed

lemma byteswap32_read: "byteswap32 (read_be32 d) = read_le32 d"
proof (rule bit_word_eqI)
  fix n assume "n < LENGTH(32)"
  then show "bit (byteswap32 (read_be32 d)) n \<longleftrightarrow> bit (read_le32 d) n"
    by (cases "n < 8"; cases "n < 16"; cases "n < 24")
      (auto simp: byteswap32_def byte_masks32 read_be32_def read_le32_def word_bit_simps)
qed

lemma byteswap64_read: "byteswap64 (read_be64 d) = read_le64 d"
proof (rule bit_word_eqI)
  fix n assume "n < LENGTH(64)"
  then show "bit (byteswap64 (read_be64 d)) n \<longleftrightarrow> bit (read_le64 d) n"
    using byte_cases64 [of n] unfolding byteswap64_def byte_masks64
    by (elim disjE conjE) (auto simp: read_be64_def read_le64_def word_bit_simps)
qed
subsection \<open>The cursor as a stream of bits\<close>

text \<open>The low \<open>n\<close> bits of a word, most significant first, and the bits a cursor has left.\<close>

definition word_bits :: "nat \<Rightarrow> 'a::len word \<Rightarrow> bool list" where
  "word_bits n w = map (bit w) (rev [0..<n])"

definition bytes_bits :: "byte list \<Rightarrow> bool list" where
  "bytes_bits bs = concat (map (word_bits 8) bs)"

definition cursor_bits :: "byte_cursor \<Rightarrow> bool list" where
  "cursor_bits c = word_bits (bc_bits c) (bc_bit_buf c) @ bytes_bits (drop (bc_pos c) (bc_data c))"

lemma length_word_bits [simp]: "length (word_bits n w) = n"
  by (simp add: word_bits_def)

lemma word_bits_0 [simp]: "word_bits 0 w = []"
  by (simp add: word_bits_def)

lemma word_bits_add: "word_bits (n + m) w = word_bits n (drop_bit m w) @ word_bits m w"
proof -
  have "[0..<m + n] = [0..<m] @ map (\<lambda>i. i + m) [0..<n]"
    using upt_add_eq_append [of 0 m n] by (simp add: map_add_upt add.commute [of m n])
  then have "[0..<n + m] = [0..<m] @ map (\<lambda>i. i + m) [0..<n]" by (simp only: add.commute)
  then show ?thesis
    by (simp add: word_bits_def bit_drop_bit_eq rev_map comp_def add.commute [of m])
qed

lemma word_bits_cong: "(\<And>i. i < n \<Longrightarrow> bit v i = bit w i) \<Longrightarrow> word_bits n v = word_bits n w"
  by (simp add: word_bits_def)

lemma word_bits_eq_iff: "word_bits n v = word_bits n w \<longleftrightarrow> (\<forall>i<n. bit v i = bit w i)"
  by (auto simp: word_bits_def)

lemma take_word_bits: "k \<le> n \<Longrightarrow> take k (word_bits n w) = word_bits k (drop_bit (n - k) w)"
  using word_bits_add [of k "n - k" w] by simp

lemma drop_word_bits: "k \<le> n \<Longrightarrow> drop k (word_bits n w) = word_bits (n - k) w"
  using word_bits_add [of k "n - k" w] by simp

lemma word_bits_push:
  assumes "n + m \<le> 64"
  shows "word_bits (n + m) (push_bit m w OR v :: u64) = word_bits n (w OR drop_bit m v) @ word_bits m v"
  unfolding word_bits_add using assms
  by (intro arg_cong2 [of _ _ _ _ "(@)"] word_bits_cong) (auto simp: word_bit_simps)

lemma word_bits_refill:
  assumes "n + 8 \<le> 64"
  shows "word_bits (n + 8) (push_bit 8 w OR ucast (b :: byte) :: u64) = word_bits n w @ word_bits 8 b"
proof -
  have "word_bits n (w OR drop_bit 8 (ucast b) :: u64) = word_bits n w"
    by (rule word_bits_cong) (auto simp: word_bit_simps)
  moreover have "word_bits 8 (ucast b :: u64) = word_bits 8 b"
    by (rule nth_equalityI) (auto simp: word_bits_def word_bit_simps rev_nth)
  ultimately show ?thesis using word_bits_push [OF assms, of w "ucast b"] by simp
qed

lemma bytes_bits_simps [simp]:
  "bytes_bits [] = []" "bytes_bits (b # bs) = word_bits 8 b @ bytes_bits bs"
  "bytes_bits (xs @ ys) = bytes_bits xs @ bytes_bits ys"
  by (simp_all add: bytes_bits_def)

lemma length_bytes_bits [simp]: "length (bytes_bits bs) = 8 * length bs"
  by (induction bs) auto

lemma bit_mask_bit: "n \<le> 64 \<Longrightarrow> bit (bit_mask n) i \<longleftrightarrow> i < n"
proof -
  assume n: "n \<le> 64"
  have "bit_mask n = mask n" using n
    by (auto simp: bit_mask_def mask_eq_exp_minus_1 push_bit_eq_mult) (simp add: minus_1_eq_mask mask_eq_exp_minus_1)?
  then show ?thesis using n by (auto simp: bit_mask_iff)
qed
text \<open>How many bits are buffered when \<open>n\<close> have been asked for: whole bytes are fetched, and those
  beyond 64 push the oldest bits out of the 64-bit buffer, so that they read as zero.\<close>

definition bits_after :: "nat \<Rightarrow> byte_cursor \<Rightarrow> nat" where
  "bits_after n c = (if n \<le> bc_bits c then bc_bits c else bc_bits c + 8 * ((n - bc_bits c + 7) div 8))"

definition bits_lost :: "nat \<Rightarrow> byte_cursor \<Rightarrow> nat" where
  "bits_lost n c = (if n \<le> bc_bits c then 0 else bits_after n c - 64)"

definition zero_bits :: "nat \<Rightarrow> bool list \<Rightarrow> bool list" where
  "zero_bits k bs = replicate k False @ drop k bs"

lemma zero_bits_0 [simp]: "zero_bits 0 bs = bs"
  by (simp add: zero_bits_def)

lemma length_zero_bits: "k \<le> length bs \<Longrightarrow> length (zero_bits k bs) = length bs"
  by (simp add: zero_bits_def)

lemma bits_after_refill:
  assumes "bc_bits c < n"
  shows "bits_after n c = bits_after n (c\<lparr>bc_pos := p, bc_bit_buf := w, bc_bits := bc_bits c + 8\<rparr>)"
proof (cases "n \<le> bc_bits c + 8")
  case True
  then have "(n - bc_bits c + 7) div 8 = 1" using assms by (intro div_nat_eqI) simp_all
  then show ?thesis using True assms by (simp add: bits_after_def)
next
  case False
  define m where "m = n - (bc_bits c + 8) + 7"
  have m: "n - bc_bits c + 7 = m + 8" "\<not> n \<le> bc_bits c" using False by (simp_all add: m_def)
  have "(m + 8) div 8 = Suc (m div 8)" by simp
  then show ?thesis using False m unfolding bits_after_def by (simp flip: m_def del: div_add_self2)
qed

lemma bits_lost_small: "n \<le> 57 \<Longrightarrow> bits_lost n c = 0"
  using div_times_less_eq_dividend [of "n - bc_bits c + 7" 8]
  by (auto simp: bits_lost_def bits_after_def)

text \<open>A refill of the buffer beyond its 64 bits.\<close>

lemma word_bits_overflow:
  assumes "n < 64" "56 < n"
  shows "word_bits (n + 8) (push_bit 8 w OR ucast (b :: byte) :: u64) =
    zero_bits (n - 56) (word_bits n w) @ word_bits 8 b"
proof -
  have "word_bits (n + 8) (push_bit 8 w OR ucast b :: u64) =
      word_bits ((n - 56) + 56) (drop_bit 8 (push_bit 8 w OR ucast b :: u64)) @ word_bits 8 (push_bit 8 w OR ucast b :: u64)"
    using assms(2) word_bits_add [of n 8 "push_bit 8 w OR ucast b :: u64"]
    by (simp del: drop_bit_or)
  also have "word_bits 8 (push_bit 8 w OR ucast b :: u64) = word_bits 8 b"
    by (rule nth_equalityI) (auto simp: word_bits_def word_bit_simps rev_nth)
  also have "word_bits ((n - 56) + 56) (drop_bit 8 (push_bit 8 w OR ucast b :: u64)) =
      replicate (n - 56) False @ word_bits 56 w"
    unfolding word_bits_add
  proof (rule arg_cong2 [of _ _ _ _ "(@)"])
    show "word_bits (n - 56) (drop_bit 56 (drop_bit 8 (push_bit 8 w OR ucast b :: u64))) = replicate (n - 56) False"
      by (rule nth_equalityI) (auto simp: word_bits_def word_bit_simps rev_nth)
    show "word_bits 56 (drop_bit 8 (push_bit 8 w OR ucast b :: u64)) = word_bits 56 w"
      by (rule word_bits_cong) (auto simp: word_bit_simps)
  qed
  also have "word_bits 56 w = drop (n - 56) (word_bits n w)" using assms by (simp add: drop_word_bits)
  finally show ?thesis by (simp add: zero_bits_def)
qed

lemma fetch_bits_ok:
  assumes "n \<le> 64" "fetch_bits n c = (c', ok)"
  shows "ok \<longleftrightarrow> n \<le> length (cursor_bits c)"
    "cursor_bits c' = (if ok then zero_bits (bits_lost n c) (cursor_bits c) else cursor_bits c)"
    "bc_data c' = bc_data c" "ok \<Longrightarrow> n \<le> bc_bits c'" "ok \<Longrightarrow> bits_lost n c < 8 \<and> bits_lost n c \<le> n"
    "bc_pos c \<le> bc_size c \<Longrightarrow> bc_pos c' \<le> bc_size c'"
proof -
  have "(ok \<longleftrightarrow> n \<le> length (cursor_bits c)) \<and>
      cursor_bits c' = (if ok then zero_bits (bits_lost n c) (cursor_bits c) else cursor_bits c) \<and>
      bc_data c' = bc_data c \<and> (ok \<longrightarrow> n \<le> bc_bits c') \<and> (ok \<longrightarrow> bits_lost n c < 8 \<and> bits_lost n c \<le> n) \<and>
      (bc_pos c \<le> bc_size c \<longrightarrow> bc_pos c' \<le> bc_size c')"
    using assms
  proof (induction n c rule: fetch_bits.induct)
    case (1 n c)
    show ?case
    proof (cases "bc_bits c < n")
      case False
      then show ?thesis using 1 by (subst (asm) fetch_bits.simps) (auto simp: cursor_bits_def bits_lost_def)
    next
      case less: True
      show ?thesis
      proof (cases "bc_pos c \<ge> bc_size c")
        case True
        then show ?thesis using 1 less
          by (subst (asm) fetch_bits.simps) (auto simp: cursor_bits_def try_read_byte_def bc_size_def)
      next
        case False
        let ?b = "bc_data c ! bc_pos c" and ?c1 = "c\<lparr>bc_pos := bc_pos c + 1\<rparr>"
        let ?c = "?c1\<lparr>bc_bit_buf := push_bit 8 (bc_bit_buf ?c1) OR ucast ?b, bc_bits := bc_bits ?c1 + 8\<rparr>"
        have rd: "try_read_byte c = (?c1, Some ?b)" using False by (simp add: try_read_byte_def)
        have run: "fetch_bits n ?c = (c', ok)"
          using 1(3) less rd by (subst (asm) fetch_bits.simps) simp
        note IH = 1(1) [OF less rd [symmetric] refl 1(2) run]
        have nx: "drop (bc_pos c) (bc_data c) = ?b # drop (bc_pos c + 1) (bc_data c)"
          using False by (simp add: bc_size_def Cons_nth_drop_Suc)
        have ba: "bits_after n ?c = bits_after n c" using bits_after_refill [OF less] by simp
        have pre: "bc_pos ?c \<le> bc_size ?c" "bc_data ?c = bc_data c"
          using False by (simp_all add: bc_size_def)
        show ?thesis
        proof (cases "bc_bits c \<le> 56")
          case True
          then have cb: "cursor_bits ?c = cursor_bits c"
            using word_bits_refill [of "bc_bits c" "bc_bit_buf c" ?b] nx by (simp add: cursor_bits_def)
          have "bits_lost n ?c = bits_lost n c"
          proof (cases "n \<le> bc_bits ?c")
            case n: True
            then have "bits_after n ?c = bc_bits c + 8" by (simp add: bits_after_def)
            then show ?thesis using ba True less n by (simp add: bits_lost_def)
          next
            case n: False
            then show ?thesis using ba less by (simp add: bits_lost_def)
          qed
          then show ?thesis using IH [unfolded cb pre(2)] pre(1) by auto
        next
          case False
          have dn: "n \<le> bc_bits ?c" using False 1(2) by simp
          then have c': "c' = ?c" "ok" using run by (auto simp: fetch_bits.simps)
          have "(n - bc_bits c + 7) div 8 = 1" using less False 1(2) by (intro div_nat_eqI) simp_all
          then have bl: "bits_lost n c = bc_bits c - 56" using less False by (simp add: bits_lost_def bits_after_def)
          have "cursor_bits ?c = zero_bits (bits_lost n c) (cursor_bits c)"
            using word_bits_overflow [of "bc_bits c" "bc_bit_buf c" ?b] less False 1(2) nx
            by (simp add: cursor_bits_def bl zero_bits_def)
          moreover have "n \<le> length (cursor_bits c)"
            using dn nx by (simp add: cursor_bits_def)
          moreover have "bits_lost n c < 8 \<and> bits_lost n c \<le> n" unfolding bl using less False 1(2) by arith
          ultimately show ?thesis using c' dn pre by simp
        qed
      qed
    qed
  qed
  then show "ok \<longleftrightarrow> n \<le> length (cursor_bits c)"
    "cursor_bits c' = (if ok then zero_bits (bits_lost n c) (cursor_bits c) else cursor_bits c)"
    "bc_data c' = bc_data c" "ok \<Longrightarrow> n \<le> bc_bits c'" "ok \<Longrightarrow> bits_lost n c < 8 \<and> bits_lost n c \<le> n"
    "bc_pos c \<le> bc_size c \<Longrightarrow> bc_pos c' \<le> bc_size c'" by blast+
qed

text \<open>Dropping and reading bits that are already in the buffer.\<close>

lemma cursor_bits_skip:
  "n \<le> bc_bits c \<Longrightarrow> cursor_bits (skip_bits n c) = drop n (cursor_bits c)"
  by (simp add: skip_bits_def cursor_bits_def drop_word_bits)

lemma peek_value:
  assumes "n \<le> bc_bits c" "n \<le> 64"
  shows "word_bits n (drop_bit (bc_bits c - n) (bc_bit_buf c) AND bit_mask n) = take n (cursor_bits c)"
proof -
  have "take n (cursor_bits c) = word_bits n (drop_bit (bc_bits c - n) (bc_bit_buf c))"
    using assms(1) by (simp add: cursor_bits_def take_word_bits)
  then show ?thesis using assms(2) by (auto simp: word_bits_eq_iff bit_and_iff bit_mask_bit)
qed

lemma cursor_bits_refill:
  assumes "bc_bits c \<le> 56" "\<not> exhausted c"
  shows "cursor_bits (fst (refill_bits c)) = cursor_bits c"
proof -
  have "drop (bc_pos c) (bc_data c) = bc_data c ! bc_pos c # drop (bc_pos c + 1) (bc_data c)"
    using assms(2) by (simp add: exhausted_def bc_size_def Cons_nth_drop_Suc)
  then show ?thesis
    using assms word_bits_refill [of "bc_bits c" "bc_bit_buf c" "bc_data c ! bc_pos c"]
    by (simp add: refill_bits_def cursor_bits_def)
qed

text \<open>C15 (try_read_bits_correct): up to 64 bits, \<open>try_read_bits\<close> returns the next \<open>n\<close> bits of the
  stream, most significant first, with all higher bits zero, and leaves the rest of the stream; it fails
  exactly when fewer than \<open>n\<close> bits are left, and then loses none of them. The first \<open>bits_lost\<close> of the
  \<open>n\<close> bits, fewer than 8, read as zero: that is none of them up to 57 bits, and from 58 bits on those
  that whole bytes fetched behind an unaligned read push out of the buffer. A request for more
  than 64 bits fails and changes nothing.\<close>

theorem try_read_bits_correct:
  assumes "try_read_bits n c = (c', r)"
  shows "(case r of
      None \<Rightarrow> (64 < n \<and> c' = c) \<or> (length (cursor_bits c) < n \<and> cursor_bits c' = cursor_bits c)
    | Some v \<Rightarrow> n \<le> 64 \<and> n \<le> length (cursor_bits c) \<and>
        word_bits n v = zero_bits (bits_lost n c) (take n (cursor_bits c)) \<and>
        unat v < 2 ^ n \<and> cursor_bits c' = drop n (cursor_bits c)) \<and>
    (n \<le> 57 \<longrightarrow> bits_lost n c = 0) \<and> (n \<le> 64 \<longrightarrow> bits_lost n c < 8)"
proof -
  have small: "(n \<le> 57 \<longrightarrow> bits_lost n c = 0) \<and> (n \<le> 64 \<longrightarrow> bits_lost n c < 8)"
    using bits_lost_small [of n c] div_times_less_eq_dividend [of "n - bc_bits c + 7" 8]
    by (auto simp: bits_lost_def bits_after_def)
  show ?thesis
  proof (cases "n \<le> 64")
    case False
    then show ?thesis using assms small by (auto simp: try_read_bits_def)
  next
    case n64: True
    obtain c1 ok where f: "fetch_bits n c = (c1, ok)" by (cases "fetch_bits n c")
    note fo = fetch_bits_ok [OF n64 f]
    show ?thesis
    proof (cases ok)
      case False
      then have "c' = c1" "r = None" using n64 assms f by (auto simp: try_read_bits_def)
      then show ?thesis using False fo small by simp
    next
      case True
      let ?v = "drop_bit (bc_bits c1 - n) (bc_bit_buf c1) AND bit_mask n"
      have r: "r = Some ?v" "c' = c1\<lparr>bc_bits := bc_bits c1 - n\<rparr>"
        using True n64 assms f by (auto simp: try_read_bits_def Let_def)
      have n: "n \<le> bc_bits c1" using True fo by simp
      have sk: "c' = skip_bits n c1" using r n by (simp add: skip_bits_def)
      have "take_bit n ?v = ?v"
        using n64 by (intro bit_word_eqI) (auto simp: bit_take_bit_iff bit_and_iff bit_mask_bit)
      then have "unat ?v < 2 ^ n" by (metis take_bit_nat_less_exp unsigned_take_bit_eq)
      moreover have "take n (zero_bits (bits_lost n c) (cursor_bits c)) =
          zero_bits (bits_lost n c) (take n (cursor_bits c))"
        "drop n (zero_bits (bits_lost n c) (cursor_bits c)) = drop n (cursor_bits c)"
        using fo(5) [OF True] by (simp_all add: zero_bits_def min_def drop_take)
      ultimately show ?thesis
        using True fo(1,2) r(1) peek_value [OF n n64] n64 cursor_bits_skip [OF n] sk small by simp
    qed
  qed
qed

theorem try_read_bits_correct_witness:
  "\<exists>c'. try_read_bits 12 (cursor_of [0xAB, 0xCD]) = (c', Some 0xABC) \<and> cursor_bits c' = [True, True, False, True]"
proof -
  obtain c' r where run: "try_read_bits 12 (cursor_of [0xAB, 0xCD]) = (c', r)"
    by (cases "try_read_bits 12 (cursor_of [0xAB, 0xCD])")
  have "r = snd (try_read_bits 12 (cursor_of [0xAB, 0xCD]))" using run by simp
  also have "\<dots> = Some 0xABC" by code_simp
  finally have r: "r = Some 0xABC" .
  have "drop 12 (cursor_bits (cursor_of [0xAB, 0xCD])) = [True, True, False, True]" by code_simp
  then show ?thesis using try_read_bits_correct [OF run] run r bits_lost_small [of 12] by simp
qed

lemma length_writes:
  "length (write_le16 dest h) = length dest" "length (write_le32 dest w) = length dest"
  "length (write_le64 dest d) = length dest"
  by (simp_all add: write_le16_def write_le32_def write_le64_def upt_rec)

lemma byteswap_read_le:
  assumes "8 \<le> length d"
  shows "byteswap16 (read_le16 d) = read_be16 d" "byteswap32 (read_le32 d) = read_be32 d"
    "byteswap64 (read_le64 d) = read_be64 d"
proof -
  obtain a b c e a' b' c' e' r where d: "d = a # b # c # e # a' # b' # c' # e' # r"
    using assms by (auto simp: numeral_eq_Suc Suc_le_length_iff)
  show "byteswap16 (read_le16 d) = read_be16 d"
    using byteswap16_read [of "[b, a]"] by (simp add: d read_le16_def read_be16_def or.commute)
  show "byteswap32 (read_le32 d) = read_be32 d"
    using byteswap32_read [of "[e, c, b, a]"] by (simp add: d read_le32_def read_be32_def or.assoc or.commute or.left_commute)
  show "byteswap64 (read_le64 d) = read_be64 d"
    using byteswap64_read [of "[e', c', b', a', e, c, b, a]"] by (simp add: d read_le64_def read_be64_def or.assoc or.commute or.left_commute)
qed

text \<open>C16 (endian_roundtrip): a write followed by a read of the same width and order gives the value
  back at 16, 32 and 64 bits, and its low 24 bits at 24; reading at 16, 32 or 64 bits in the opposite
  order, either way round, gives the value with its bytes reversed.\<close>

theorem endian_roundtrip:
  assumes "8 \<le> length dest"
  shows "read_be16 (write_be16 dest h) = h \<and> read_le16 (write_le16 dest h) = h \<and>
    read_le24 (write_le24 dest w) = take_bit 24 w \<and>
    read_be32 (write_be32 dest w) = w \<and> read_le32 (write_le32 dest w) = w \<and>
    read_be64 (write_be64 dest d) = d \<and> read_le64 (write_le64 dest d) = d \<and>
    read_le16 (write_be16 dest h) = byteswap16 h \<and> read_le32 (write_be32 dest w) = byteswap32 w \<and>
    read_le64 (write_be64 dest d) = byteswap64 d \<and>
    read_be16 (write_le16 dest h) = byteswap16 h \<and> read_be32 (write_le32 dest w) = byteswap32 w \<and>
    read_be64 (write_le64 dest d) = byteswap64 d"
  using assms byteswap16_read [of "write_be16 dest h"] byteswap32_read [of "write_be32 dest w"]
    byteswap64_read [of "write_be64 dest d"] byteswap_read_le(1) [of "write_le16 dest h"]
    byteswap_read_le(2) [of "write_le32 dest w"] byteswap_read_le(3) [of "write_le64 dest d"]
  by (simp add: be16_roundtrip be32_roundtrip be64_roundtrip le24_roundtrip length_writes)

theorem endian_roundtrip_witness:
  "read_be64 (write_be64 (replicate 8 0) 0x0123456789ABCDEF) = 0x0123456789ABCDEF \<and>
   read_le32 (write_be32 (replicate 8 0) 0x01020304) = byteswap32 0x01020304 \<and>
   byteswap32 0x01020304 = 0x04030201"
proof -
  have l: "8 \<le> length (replicate 8 (0 :: byte))" by simp
  have "byteswap32 0x01020304 = 0x04030201" by code_simp
  then show ?thesis using endian_roundtrip [OF l, where d = "0x0123456789ABCDEF" and w = "0x01020304"] by simp
qed

text \<open>A cursor inside its buffer; a buffer of \<open>2 ^ 63\<close> bytes does not exist.\<close>

definition cursor_ok :: "byte_cursor \<Rightarrow> bool" where
  "cursor_ok c \<longleftrightarrow> bc_pos c \<le> bc_size c \<and> bc_size c < 2 ^ 63"

lemma runs_past_ok:
  "cursor_ok c \<Longrightarrow> n \<le> 2 ^ 63 \<Longrightarrow> runs_past n c \<longleftrightarrow> cur_remaining c < n"
  by (auto simp: runs_past_def cursor_ok_def cur_remaining_def)

lemma advance_ok:
  "cursor_ok c \<Longrightarrow> n \<le> cur_remaining c \<Longrightarrow> advance n c = c\<lparr>bc_pos := bc_pos c + n\<rparr>"
  by (auto simp: advance_def cursor_ok_def cur_remaining_def)

text \<open>C17 (cursor_reads_bounded): on a cursor inside its buffer a read of \<open>n\<close> bytes, for any
  \<open>size_t\<close> value, returns exactly the next \<open>n\<close> bytes and moves past them when that many are left, and
  otherwise fails and does not move, except where \<open>pos + n\<close> does not fit a \<open>size_t\<close>: then the sum
  wraps, the call is not refused and the cursor moves back. A fixed-width read decodes the bytes at
  the cursor in the same way, and the cursor never leaves the buffer.\<close>

theorem cursor_reads_bounded:
  assumes "cursor_ok c" "n < 2 ^ 64"
  shows "(if bc_pos c + n < 2 ^ 64
     then try_read_bytes n c =
        (if n \<le> cur_remaining c
         then (c\<lparr>bc_pos := bc_pos c + n\<rparr>, Some (take n (drop (bc_pos c) (bc_data c)))) else (c, None)) \<and>
      cur_skip n c =
        (if n \<le> cur_remaining c then (c\<lparr>bc_pos := bc_pos c + n\<rparr>, True) else (c, False)) \<and>
      try_read_fixed n f c =
        (if n \<le> cur_remaining c
         then (c\<lparr>bc_pos := bc_pos c + n\<rparr>, Some (f (drop (bc_pos c) (bc_data c)))) else (c, None))
     else bc_pos c + n - 2 ^ 64 < bc_pos c \<and>
      fst (try_read_bytes n c) = c\<lparr>bc_pos := bc_pos c + n - 2 ^ 64\<rparr> \<and> snd (try_read_bytes n c) \<noteq> None \<and>
      cur_skip n c = (c\<lparr>bc_pos := bc_pos c + n - 2 ^ 64\<rparr>, True)) \<and>
    cursor_ok (fst (try_read_bytes n c)) \<and>
    cursor_ok (fst (try_read_fixed n f c)) \<and> cursor_ok (fst (cur_skip n c))"
proof -
  have pos: "bc_pos c \<le> bc_size c" "bc_size c < 2 ^ 63" using assms(1) by (simp_all add: cursor_ok_def)
  show ?thesis
  proof (cases "bc_pos c + n < 2 ^ 64")
    case True
    then have r: "runs_past n c \<longleftrightarrow> cur_remaining c < n"
      using pos by (auto simp: runs_past_def cur_remaining_def)
    show ?thesis
      using True r advance_ok [OF assms(1), of n] assms(1)
      by (auto simp: try_read_bytes_def try_read_fixed_def cur_skip_def cursor_ok_def cur_remaining_def bc_size_def)
  next
    case False
    then have "(bc_pos c + n) mod 2 ^ 64 = bc_pos c + n - 2 ^ 64"
      using pos assms(2) by (simp add: mod_if)
    moreover have "bc_pos c + n - 2 ^ 64 < bc_pos c" using False assms(2) by simp
    ultimately have r: "\<not> runs_past n c" "advance n c = c\<lparr>bc_pos := bc_pos c + n - 2 ^ 64\<rparr>"
      using pos by (simp_all add: runs_past_def advance_def)
    show ?thesis
      using False r \<open>bc_pos c + n - 2 ^ 64 < bc_pos c\<close> pos
      by (simp add: try_read_bytes_def try_read_fixed_def cur_skip_def cursor_ok_def bc_size_def)
  qed
qed

theorem cursor_reads_bounded_witness:
  "snd (try_read_bytes 2 (cursor_of [1, 2, 3])) = Some [1, 2] \<and>
   snd (try_read_bytes 4 (cursor_of [1, 2, 3])) = None"
proof -
  have ok: "cursor_ok (cursor_of [1, 2, 3])" by (simp add: cursor_ok_def cursor_of_def bc_size_def)
  show ?thesis
    using cursor_reads_bounded [OF ok, of 2 undefined, THEN conjunct1] cursor_reads_bounded [OF ok, of 4 undefined, THEN conjunct1]
    by (auto simp: cur_remaining_def bc_size_def cursor_of_def)
qed

text \<open>Fact (cursor_unchecked_wrap): outside those bounds the checks do not protect: a count near
  \<open>SIZE_MAX\<close> wraps the sum and moves the cursor backwards, and a read of 64 bits after an
  unaligned read pushes the top bits out of the buffer, so sixty-four one bits read as a number
  whose four top bits are zero.\<close>

theorem cursor_unchecked_wrap:
  "cur_skip (2 ^ 64 - 1) (c\<lparr>bc_pos := 1\<rparr>) = (c\<lparr>bc_pos := 0\<rparr>, True) \<and>
  snd (try_read_bits 64 (fst (try_read_bits 4 (cursor_of (replicate 9 0xFF))))) = Some 0x0FFFFFFFFFFFFFFF"
proof (rule conjI)
  show "cur_skip (2 ^ 64 - 1) (c\<lparr>bc_pos := 1\<rparr>) = (c\<lparr>bc_pos := 0\<rparr>, True)"
    by (simp add: cur_skip_def runs_past_def advance_def)
  show "snd (try_read_bits 64 (fst (try_read_bits 4 (cursor_of (replicate 9 0xFF))))) = Some 0x0FFFFFFFFFFFFFFF"
    by code_simp
qed

end
