(* ===== verification/HpackCodec.thy ===== *)
theory HpackCodec
  imports ByteCursor
begin

section \<open>HPACK integers and Huffman coded strings\<close>

text \<open>
  The coding functions of the anonymous namespace of \<open>src/network/http/http2_protocol.cpp\<close>:
  \<open>encode_integer\<close>, \<open>decode_integer\<close>, the static Huffman code, \<open>encode_huffman\<close>,
  \<open>decode_huffman\<close> with its 15-bit lookup table, and the string literals built from them. An
  output \<open>byte_vector&\<close> is passed and returned; a \<open>string\<close> is a list of characters, one for
  each byte.
\<close>

text \<open>Each code with its number of bits, for the bytes 0 to 255.\<close>

definition huffman_table :: "(u32 \<times> nat) list" where
  "huffman_table = [
      (0x1ff8, 13), (0x7fffd8, 23), (0xfffffe2, 28), (0xfffffe3, 28), (0xfffffe4, 28), (0xfffffe5, 28),
      (0xfffffe6, 28), (0xfffffe7, 28), (0xfffffe8, 28), (0xffffea, 24), (0x3ffffffc, 30), (0xfffffe9, 28),
      (0xfffffea, 28), (0x3ffffffd, 30), (0xfffffeb, 28), (0xfffffec, 28), (0xfffffed, 28), (0xfffffee, 28),
      (0xfffffef, 28), (0xffffff0, 28), (0xffffff1, 28), (0xffffff2, 28), (0x3ffffffe, 30), (0xffffff3, 28),
      (0xffffff4, 28), (0xffffff5, 28), (0xffffff6, 28), (0xffffff7, 28), (0xffffff8, 28), (0xffffff9, 28),
      (0xffffffa, 28), (0xffffffb, 28), (0x14, 6), (0x3f8, 10), (0x3f9, 10), (0xffa, 12),
      (0x1ff9, 13), (0x15, 6), (0xf8, 8), (0x7fa, 11), (0x3fa, 10), (0x3fb, 10),
      (0xf9, 8), (0x7fb, 11), (0xfa, 8), (0x16, 6), (0x17, 6), (0x18, 6),
      (0x0, 5), (0x1, 5), (0x2, 5), (0x19, 6), (0x1a, 6), (0x1b, 6),
      (0x1c, 6), (0x1d, 6), (0x1e, 6), (0x1f, 6), (0x5c, 7), (0xfb, 8),
      (0x7ffc, 15), (0x20, 6), (0xffb, 12), (0x3fc, 10), (0x1ffa, 13), (0x21, 6),
      (0x5d, 7), (0x5e, 7), (0x5f, 7), (0x60, 7), (0x61, 7), (0x62, 7),
      (0x63, 7), (0x64, 7), (0x65, 7), (0x66, 7), (0x67, 7), (0x68, 7),
      (0x69, 7), (0x6a, 7), (0x6b, 7), (0x6c, 7), (0x6d, 7), (0x6e, 7),
      (0x6f, 7), (0x70, 7), (0x71, 7), (0x72, 7), (0xfc, 8), (0x73, 7),
      (0xfd, 8), (0x1ffb, 13), (0x7fff0, 19), (0x1ffc, 13), (0x3ffc, 14), (0x22, 6),
      (0x7ffd, 15), (0x3, 5), (0x23, 6), (0x4, 5), (0x24, 6), (0x5, 5),
      (0x25, 6), (0x26, 6), (0x27, 6), (0x6, 5), (0x74, 7), (0x75, 7),
      (0x28, 6), (0x29, 6), (0x2a, 6), (0x7, 5), (0x2b, 6), (0x76, 7),
      (0x2c, 6), (0x8, 5), (0x9, 5), (0x2d, 6), (0x77, 7), (0x78, 7),
      (0x79, 7), (0x7a, 7), (0x7b, 7), (0x7ffe, 15), (0x7fc, 11), (0x3ffd, 14),
      (0x1ffd, 13), (0xffffffc, 28), (0xfffe6, 20), (0x3fffd2, 22), (0xfffe7, 20), (0xfffe8, 20),
      (0x3fffd3, 22), (0x3fffd4, 22), (0x3fffd5, 22), (0x7fffd9, 23), (0x3fffd6, 22), (0x7fffda, 23),
      (0x7fffdb, 23), (0x7fffdc, 23), (0x7fffdd, 23), (0x7fffde, 23), (0xffffeb, 24), (0x7fffdf, 23),
      (0xffffec, 24), (0xffffed, 24), (0x3fffd7, 22), (0x7fffe0, 23), (0xffffee, 24), (0x7fffe1, 23),
      (0x7fffe2, 23), (0x7fffe3, 23), (0x7fffe4, 23), (0x1fffdc, 21), (0x3fffd8, 22), (0x7fffe5, 23),
      (0x3fffd9, 22), (0x7fffe6, 23), (0x7fffe7, 23), (0xffffef, 24), (0x3fffda, 22), (0x1fffdd, 21),
      (0xfffe9, 20), (0x3fffdb, 22), (0x3fffdc, 22), (0x7fffe8, 23), (0x7fffe9, 23), (0x1fffde, 21),
      (0x7fffea, 23), (0x3fffdd, 22), (0x3fffde, 22), (0xfffff0, 24), (0x1fffdf, 21), (0x3fffdf, 22),
      (0x7fffeb, 23), (0x7fffec, 23), (0x1fffe0, 21), (0x1fffe1, 21), (0x3fffe0, 22), (0x1fffe2, 21),
      (0x7fffed, 23), (0x3fffe1, 22), (0x7fffee, 23), (0x7fffef, 23), (0xfffea, 20), (0x3fffe2, 22),
      (0x3fffe3, 22), (0x3fffe4, 22), (0x7ffff0, 23), (0x3fffe5, 22), (0x3fffe6, 22), (0x7ffff1, 23),
      (0x3ffffe0, 26), (0x3ffffe1, 26), (0xfffeb, 20), (0x7fff1, 19), (0x3fffe7, 22), (0x7ffff2, 23),
      (0x3fffe8, 22), (0x1ffffec, 25), (0x3ffffe2, 26), (0x3ffffe3, 26), (0x3ffffe4, 26), (0x7ffffde, 27),
      (0x7ffffdf, 27), (0x3ffffe5, 26), (0xfffff1, 24), (0x1ffffed, 25), (0x7fff2, 19), (0x1fffe3, 21),
      (0x3ffffe6, 26), (0x7ffffe0, 27), (0x7ffffe1, 27), (0x3ffffe7, 26), (0x7ffffe2, 27), (0xfffff2, 24),
      (0x1fffe4, 21), (0x1fffe5, 21), (0x3ffffe8, 26), (0x3ffffe9, 26), (0xffffffd, 28), (0x7ffffe3, 27),
      (0x7ffffe4, 27), (0x7ffffe5, 27), (0xfffec, 20), (0xfffff3, 24), (0xfffed, 20), (0x1fffe6, 21),
      (0x3fffe9, 22), (0x1fffe7, 21), (0x1fffe8, 21), (0x7ffff3, 23), (0x3fffea, 22), (0x3fffeb, 22),
      (0x1ffffee, 25), (0x1ffffef, 25), (0xfffff4, 24), (0xfffff5, 24), (0x3ffffea, 26), (0x7ffff4, 23),
      (0x3ffffeb, 26), (0x7ffffe6, 27), (0x3ffffec, 26), (0x3ffffed, 26), (0x7ffffe7, 27), (0x7ffffe8, 27),
      (0x7ffffe9, 27), (0x7ffffea, 27), (0x7ffffeb, 27), (0xffffffe, 28), (0x7ffffec, 27), (0x7ffffed, 27),
      (0x7ffffee, 27), (0x7ffffef, 27), (0x7fffff0, 27), (0x3ffffee, 26)
   ]"

subsection \<open>Integers\<close>

definition or_back :: "byte \<Rightarrow> byte list \<Rightarrow> byte list" where
  "or_back v output = output[length output - 1 := last output OR v]"

function encode_integer_rest :: "u32 \<Rightarrow> byte list \<Rightarrow> byte list" where
  "encode_integer_rest v output =
     (if v \<ge> 128 then encode_integer_rest (v div 128) (output @ [ucast (v mod 128 + 128)])
      else output @ [ucast v])"
  by pat_completeness auto

termination
proof (relation "measure (\<lambda>(v, output). unat v)", simp)
  fix v :: u32 and out :: "byte list"
  assume "128 \<le> v"
  then have "128 \<le> unat v" by (simp add: word_le_nat_alt)
  then show "((v div 128, out @ [ucast (v mod 128 + 128)]), v, out) \<in> measure (\<lambda>(v, output). unat v)"
    by (simp add: unat_div)
qed

declare encode_integer_rest.simps [simp del]

definition encode_integer :: "u32 \<Rightarrow> nat \<Rightarrow> byte list \<Rightarrow> byte list" where
  "encode_integer v prefix_bits output =
     (let max_prefix = (ucast (push_bit prefix_bits (1 :: u32) - 1) :: byte)
      in if v < ucast max_prefix then or_back (ucast v) output
         else encode_integer_rest (v - ucast max_prefix) (or_back max_prefix output))"

text \<open>The loop of \<open>decode_integer\<close>, with the number of octets it may still read.\<close>

fun decode_integer_loop :: "nat \<Rightarrow> u64 \<Rightarrow> nat \<Rightarrow> byte_cursor \<Rightarrow> byte_cursor \<times> u32" where
  "decode_integer_loop 0 v m cur = (cur, ucast v)"
| "decode_integer_loop (Suc octets) v m cur =
     (case try_read_byte cur of
        (cur, None) \<Rightarrow> (cur, ucast v)
      | (cur, Some b) \<Rightarrow>
          (let v = v + push_bit m (ucast (b AND 0x7F))
           in if v > 0xFFFFFFFF then (cur, 0xFFFFFFFF)
              else if b AND 0x80 = 0 then (cur, ucast v)
              else decode_integer_loop octets v (m + 7) cur))"

definition decode_integer :: "nat \<Rightarrow> byte_cursor \<Rightarrow> byte_cursor \<times> u32" where
  "decode_integer prefix_bits cur =
     (case try_read_byte cur of
        (cur, None) \<Rightarrow> (cur, 0)
      | (cur, Some b) \<Rightarrow>
          (let max_prefix = (ucast (push_bit prefix_bits (1 :: u32) - 1) :: byte);
               first = b AND max_prefix
           in if first < max_prefix then (cur, ucast first)
              else decode_integer_loop 10 (ucast max_prefix) 0 cur))"

subsection \<open>Huffman encoding\<close>

text \<open>The inner loop that writes out the full bytes of the bit buffer.\<close>

function flush_bits :: "u64 \<Rightarrow> nat \<Rightarrow> byte list \<Rightarrow> nat \<times> byte list" where
  "flush_bits bit_buf bits_in_buf output =
     (if bits_in_buf \<ge> 8
      then flush_bits bit_buf (bits_in_buf - 8)
             (output @ [ucast (drop_bit (bits_in_buf - 8) bit_buf AND 0xFF)])
      else (bits_in_buf, output))"
  by pat_completeness auto

termination by (relation "measure (\<lambda>(bit_buf, n, output). n)") auto

declare flush_bits.simps [simp del]

definition huffman_step :: "u64 \<times> nat \<times> byte list \<Rightarrow> char \<Rightarrow> u64 \<times> nat \<times> byte list" where
  "huffman_step = (\<lambda>(bit_buf, bits_in_buf, output) ch.
     (let (code, bits) = huffman_table ! of_char ch;
          bit_buf = push_bit bits bit_buf OR ucast code;
          (bits_in_buf, output) = flush_bits bit_buf (bits_in_buf + bits) output
      in (bit_buf, bits_in_buf, output)))"

definition encode_huffman :: "string \<Rightarrow> byte list \<Rightarrow> byte list" where
  "encode_huffman data output =
     (let total_bits = foldl (\<lambda>total ch. total + snd (huffman_table ! of_char ch)) 0 data;
          hdr_pos = length output;
          output = output @ [1];
          output = encode_integer (of_nat (total_bits div 8 + (if total_bits mod 8 \<noteq> 0 then 1 else 0))) 7 output;
          output = take hdr_pos output;
          encoded_len = of_nat ((total_bits + 7) div 8);
          output = encode_integer encoded_len 7 (output @ [0x80]);
          (bit_buf, bits_in_buf, output) = foldl huffman_step (0, 0, output) data
      in if bits_in_buf > 0
         then (let padding = (ucast (push_bit (8 - bits_in_buf) (1 :: u32) - 1) :: byte)
               in output @ [ucast (push_bit (8 - bits_in_buf) bit_buf AND 0xFF) OR padding])
         else output)"

definition encode_string :: "string \<Rightarrow> byte list \<Rightarrow> byte list" where
  "encode_string str output = encode_huffman str output"

subsection \<open>Huffman decoding\<close>

text \<open>The 15-bit lookup table: a symbol and the number of bits of its code, 0 for no entry.\<close>

definition fill_entries :: "(u16 \<times> nat) list \<Rightarrow> nat \<Rightarrow> (u16 \<times> nat) list" where
  "fill_entries result c =
     (let (code, bits) = huffman_table ! c
      in if bits > 15 then result
         else (let shift = 15 - bits; base = unat code * 2 ^ shift
               in foldl (\<lambda>result i. result[base + i := (of_nat c, bits)]) result [0..<2 ^ shift]))"

definition huffman_table_15 :: "(u16 \<times> nat) list" where
  "huffman_table_15 = foldl fill_entries (replicate (2 ^ 15) (0, 0)) [0..<256]"

function fill_cursor :: "byte_cursor \<Rightarrow> byte_cursor" where
  "fill_cursor cur =
     (if bits_remaining cur < 32 \<and> \<not> exhausted cur then fill_cursor (fst (refill_bits cur)) else cur)"
  by pat_completeness auto

termination
  by (relation "measure cur_remaining") (auto simp: refill_bits_def exhausted_def cur_remaining_def bc_size_def)

declare fill_cursor.simps [simp del]

definition lookup_fast :: "byte_cursor \<Rightarrow> (u16 \<times> nat) option" where
  "lookup_fast cur =
     (if bits_remaining cur \<ge> 15
      then (case try_peek_bits 15 cur of
              None \<Rightarrow> None
            | Some peeked \<Rightarrow>
                (let entry = huffman_table_15 ! unat peeked
                 in if snd entry \<noteq> 0 \<and> snd entry \<le> bits_remaining cur then Some entry else None))
      else None)"

definition scan_codes :: "byte_cursor \<Rightarrow> nat option" where
  "scan_codes cur =
     List.find (\<lambda>c. snd (huffman_table ! c) \<le> bits_remaining cur \<and>
                   try_peek_bits (snd (huffman_table ! c)) cur = Some (ucast (fst (huffman_table ! c))))
       [0..<256]"

subsection \<open>The bytes a cursor has left\<close>

definition cur_rest :: "byte_cursor \<Rightarrow> byte list" where
  "cur_rest c = drop (bc_pos c) (bc_data c)"

definition cur_adv :: "nat \<Rightarrow> byte_cursor \<Rightarrow> byte_cursor" where
  "cur_adv n c = c\<lparr>bc_pos := bc_pos c + n\<rparr>"

lemma cur_rest_adv [simp]: "cur_rest (cur_adv n c) = drop n (cur_rest c)"
  by (simp add: cur_rest_def cur_adv_def add.commute)

lemma cur_adv_adv [simp]: "cur_adv m (cur_adv n c) = cur_adv (n + m) c"
  by (simp add: cur_adv_def add.assoc)

lemma cur_adv_0 [simp]: "cur_adv 0 c = c"
  by (simp add: cur_adv_def)

lemma cur_rest_of [simp]: "cur_rest (cursor_of bs) = bs"
  by (simp add: cur_rest_def cursor_of_def)

lemma rest_Cons:
  assumes "cur_rest c = b # bs"
  shows "bc_pos c < bc_size c" "bc_data c ! bc_pos c = b"
proof -
  show *: "bc_pos c < bc_size c" using assms by (auto simp: cur_rest_def bc_size_def intro: ccontr)
  show "bc_data c ! bc_pos c = b"
    using assms * by (auto simp: cur_rest_def bc_size_def simp flip: Cons_nth_drop_Suc)
qed

lemma read_rest: "cur_rest c = b # bs \<Longrightarrow> try_read_byte c = (cur_adv 1 c, Some b)"
  using rest_Cons [of c b bs] by (simp add: try_read_byte_def cur_adv_def)

lemma peek_rest: "cur_rest c = b # bs \<Longrightarrow> peek_byte c = Some b"
  using rest_Cons [of c b bs] by (simp add: peek_byte_def)

lemma exhausted_rest: "exhausted c \<longleftrightarrow> cur_rest c = []"
  by (simp add: exhausted_def cur_rest_def bc_size_def)

lemma read_bytes_rest:
  assumes "cursor_ok c" "n \<le> length (cur_rest c)"
  shows "try_read_bytes n c = (cur_adv n c, Some (take n (cur_rest c)))" "cursor_ok (cur_adv n c)"
proof -
  have "n \<le> cur_remaining c" using assms(2) by (simp add: cur_remaining_def cur_rest_def bc_size_def)
  moreover from this have "n \<le> 2 ^ 63"
    using assms(1) unfolding cursor_ok_def cur_remaining_def by linarith
  ultimately show "try_read_bytes n c = (cur_adv n c, Some (take n (cur_rest c)))" "cursor_ok (cur_adv n c)"
    using runs_past_ok [OF assms(1)] advance_ok [OF assms(1)] assms(1)
    by (auto simp: try_read_bytes_def cur_rest_def cur_adv_def cursor_ok_def cur_remaining_def bc_size_def)
qed

subsection \<open>Integers: what is written is what is read\<close>

function int_octets :: "u32 \<Rightarrow> byte list" where
  "int_octets v = (if v \<ge> 128 then ucast (v mod 128 + 128) # int_octets (v div 128) else [ucast v])"
  by pat_completeness auto

termination
proof (relation "measure unat", simp)
  fix v :: u32
  assume "128 \<le> v"
  then have "128 \<le> unat v" by (simp add: word_le_nat_alt)
  then show "(v div 128, v) \<in> measure unat" by (simp add: unat_div)
qed

declare int_octets.simps [simp del]

lemma encode_integer_rest_eq: "encode_integer_rest v out = out @ int_octets v"
proof (induction v out rule: encode_integer_rest.induct)
  case (1 v out)
  then show ?case
    by (subst encode_integer_rest.simps, subst int_octets.simps) simp
qed

definition int_code :: "u32 \<Rightarrow> nat \<Rightarrow> byte \<Rightarrow> byte list" where
  "int_code v p b =
     (if unat v < 2 ^ p - 1 then [b OR ucast v] else (b OR mask p) # int_octets (v - mask p))"

lemma max_prefix_mask: "p \<le> 8 \<Longrightarrow> (ucast (2 ^ p - 1 :: u32) :: byte) = mask p"
proof -
  assume p: "p \<le> 8"
  have "2 ^ p - 1 = (mask p :: u32)" by (simp add: mask_eq_exp_minus_1)
  then show ?thesis using p by (auto intro!: bit_word_eqI simp: word_bit_simps bit_mask_iff)
qed

lemma ucast_mask: "p \<le> 8 \<Longrightarrow> (ucast (mask p :: byte) :: 'a::len word) = mask p"
  by (auto intro!: bit_word_eqI simp: word_bit_simps bit_mask_iff)

lemma unat_mask:
  assumes "p \<le> 8" "8 \<le> LENGTH('a)"
  shows "unat (mask p :: 'a::len word) = 2 ^ p - 1"
proof -
  have "(2 :: nat) ^ p \<le> 2 ^ LENGTH('a)" using assms by (intro power_increasing) auto
  moreover have "(mask p :: nat) < 2 ^ p" by (simp add: mask_eq_exp_minus_1)
  ultimately have "(mask p :: nat) < 2 ^ LENGTH('a)" by linarith
  then have "unat (of_nat (mask p) :: 'a word) = mask p" by (simp only: unat_of_nat mod_less)
  then show ?thesis by (simp add: of_nat_mask_eq mask_eq_exp_minus_1)
qed

lemma or_back_eq: "or_back v (pre @ [b]) = pre @ [b OR v]"
  by (simp add: or_back_def)

lemma encode_integer_eq:
  "p \<le> 8 \<Longrightarrow> encode_integer v p (pre @ [b]) = pre @ int_code v p b"
  by (simp add: encode_integer_def int_code_def max_prefix_mask ucast_mask or_back_eq
      encode_integer_rest_eq word_less_nat_alt unat_mask Let_def)

lemma octet_low: "unat (b AND 0x7F :: byte) = unat b mod 128"
proof -
  have "(0x7F :: byte) = mask 7" by (simp add: mask_eq_exp_minus_1)
  then have "b AND 0x7F = take_bit 7 b" by (simp add: take_bit_eq_mask)
  then show ?thesis by (simp only: unsigned_take_bit_eq) (simp add: take_bit_eq_mod)
qed

lemma octet_more: "(b AND 0x80 :: byte) = 0 \<longleftrightarrow> unat b < 128"
proof -
  have "(b AND 2 ^ 7 = 0) \<longleftrightarrow> \<not> bit b 7" by (rule and_exp_eq_0_iff_not_bit)
  moreover have "bit b 7 \<longleftrightarrow> bit (unat b) 7" by (simp add: bit_unsigned_iff)
  moreover have "bit (unat b) 7 \<longleftrightarrow> 128 \<le> unat b"
  proof -
    have "unat b < 2 ^ LENGTH(8)" by (rule unsigned_less)
    then have lt: "unat b < 256" by simp
    have "unat b div 128 = 1" if "128 \<le> unat b"
      by (rule div_nat_eqI) (use lt that in simp_all)
    then have "odd (unat b div 128) \<longleftrightarrow> 128 \<le> unat b"
      by (cases "128 \<le> unat b") simp_all
    then show ?thesis by (simp add: bit_iff_odd)
  qed
  ultimately show ?thesis by (simp add: not_le)
qed

lemma unat_octet:
  "unat (ucast (v mod 128 + 128 :: u32) :: byte) = unat v mod 128 + 128"
  "v < 128 \<Longrightarrow> unat (ucast v :: byte) = unat (v :: u32)"
proof -
  have "unat (v mod 128 + 128) = unat v mod 128 + 128"
    by (simp add: unat_word_ariths unat_mod)
  moreover have "unat v mod 128 < 128" by simp
  ultimately show "unat (ucast (v mod 128 + 128 :: u32) :: byte) = unat v mod 128 + 128"
    by (simp add: unsigned_ucast_eq take_bit_eq_mod)
  show "v < 128 \<Longrightarrow> unat (ucast v :: byte) = unat v"
    by (simp add: unsigned_ucast_eq take_bit_eq_mod word_less_nat_alt)
qed

lemma unat_acc:
  assumes "unat (acc :: u64) + x * 2 ^ m < 2 ^ 64" "unat (b :: byte) = x"
  shows "unat (acc + push_bit m (ucast b)) = unat acc + x * 2 ^ m"
proof -
  have "acc + push_bit m (ucast b) = of_nat (unat acc + x * 2 ^ m)"
    using assms(2) by (simp add: push_bit_eq_mult flip: assms(2))
  then show ?thesis using assms(1) by (simp only: unat_of_nat) simp
qed

lemma decode_octets:
  assumes "cur_rest c = int_octets w @ rs" "unat acc + unat w * 2 ^ m \<le> 2 ^ 32 - 1" "unat w < 128 ^ k" "0 < k"
  shows "decode_integer_loop k acc m c = (cur_adv (length (int_octets w)) c, of_nat (unat acc + unat w * 2 ^ m))"
  using assms
proof (induction w arbitrary: acc m k c rule: int_octets.induct)
  case (1 w)
  obtain k' where k: "k = Suc k'" using 1(5) by (cases k) auto
  show ?case
  proof (cases "w \<ge> 128")
    case False
    let ?b = "ucast w :: byte"
    have oc: "int_octets w = [?b]" using False by (subst int_octets.simps) simp
    have b: "unat ?b = unat w" "unat w < 128" using False unat_octet(2) [of w]
      by (simp_all add: word_le_nat_alt not_le word_less_nat_alt)
    have low: "unat (?b AND 0x7F) = unat w" using b octet_low [of ?b] by simp
    have v: "unat (acc + push_bit m (ucast (?b AND 0x7F))) = unat acc + unat w * 2 ^ m"
      using 1(3) low by (intro unat_acc) simp_all
    have stop: "(?b AND 0x80) = 0" using octet_more [of ?b] b by simp
    have "ucast (acc + push_bit m (ucast (?b AND 0x7F))) =
        (of_nat (unat (acc + push_bit m (ucast (?b AND 0x7F)))) :: u32)" by (simp only: of_nat_unat)
    then have "ucast (acc + push_bit m (ucast (?b AND 0x7F))) = (of_nat (unat acc + unat w * 2 ^ m) :: u32)"
      by (simp only: v)
    moreover have "\<not> acc + push_bit m (ucast (?b AND 0x7F)) > 0xFFFFFFFF"
      using v 1(3) by (simp add: word_less_nat_alt)
    ultimately show ?thesis using 1(2) stop unfolding oc k by (simp add: read_rest Let_def)
  next
    case True
    let ?b = "ucast (w mod 128 + 128) :: byte"
    have oc: "int_octets w = ?b # int_octets (w div 128)" using True by (subst int_octets.simps) simp
    have low: "unat (?b AND 0x7F) = unat w mod 128"
      using octet_low [of ?b] unat_octet(1) [of w] by simp
    have dm: "unat w mod 128 * 2 ^ m + unat w div 128 * 2 ^ (m + 7) = unat w * 2 ^ m"
    proof -
      have "unat w * 2 ^ m = (unat w mod 128 + unat w div 128 * 128) * 2 ^ m" by simp
      then show ?thesis by (simp only: distrib_right power_add) simp
    qed
    let ?acc = "acc + push_bit m (ucast (?b AND 0x7F))"
    have v: "unat ?acc = unat acc + unat w mod 128 * 2 ^ m"
      using 1(3) low dm by (intro unat_acc) simp_all
    have more: "(?b AND 0x80) \<noteq> 0" using octet_more [of ?b] unat_octet(1) [of w] by simp
    have sum: "unat ?acc + unat (w div 128) * 2 ^ (m + 7) = unat acc + unat w * 2 ^ m"
      using v dm by (simp add: unat_div)
    have rest: "cur_rest (cur_adv 1 c) = int_octets (w div 128) @ rs" using 1(2) oc by simp
    have "unat (w div 128) < 128 ^ k'" using 1(4) k by (simp add: unat_div less_mult_imp_div_less mult.commute)
    moreover have "0 < k'" using True 1(4) k by (cases k') (auto simp: word_le_nat_alt)
    ultimately have IH0: "unat ?acc + unat (w div 128) * 2 ^ (m + 7) \<le> 2 ^ 32 - 1 \<Longrightarrow>
        decode_integer_loop k' ?acc (m + 7) (cur_adv 1 c) =
        (cur_adv (length (int_octets (w div 128))) (cur_adv 1 c),
         of_nat (unat ?acc + unat (w div 128) * 2 ^ (m + 7)))"
      using 1(1) [OF True rest] by blast
    from IH0 sum 1(3)
    have IH: "decode_integer_loop k' ?acc (m + 7) (cur_adv 1 c) =
        (cur_adv (length (int_octets w)) c, of_nat (unat acc + unat w * 2 ^ m))" by (simp add: oc)
    have "\<not> ?acc > 0xFFFFFFFF" using v 1(3) dm by (simp add: word_less_nat_alt)
    then show ?thesis using 1(2) more IH unfolding k by (simp add: read_rest oc Let_def)
  qed
qed
lemma decode_integer_ok:
  assumes p: "p \<le> 8" and free: "b AND mask p = 0" and rest: "cur_rest c = int_code v p b @ rs"
  shows "decode_integer p c = (cur_adv (length (int_code v p b)) c, v)"
proof (cases "unat v < 2 ^ p - 1")
  case True
  let ?V = "ucast v :: byte"
  have "(2 :: nat) ^ p \<le> 2 ^ 8" using p by (intro power_increasing) auto
  then have small: "unat v < 256" "unat v < 2 ^ p" using True by simp_all
  then have V: "unat ?V = unat v" by (simp add: unsigned_ucast_eq take_bit_nat_eq_self)
  have "take_bit p ?V = ?V"
    by (simp only: word_unat_eq_iff unsigned_take_bit_eq V) (simp add: take_bit_nat_eq_self small)
  then have first: "(b OR ?V) AND mask p = ?V"
    using free by (simp add: bit.conj_disj_distrib2 take_bit_eq_mask)
  have "?V < mask p" using True V unat_mask [OF p, where ?'a = 8] by (simp add: word_less_nat_alt)
  moreover have "ucast ?V = v"
  proof -
    have "ucast ?V = take_bit 8 v" by (rule bit_word_eqI) (auto simp: word_bit_simps)
    moreover have "unat (take_bit 8 v) = unat v"
      by (simp only: unsigned_take_bit_eq) (simp add: take_bit_nat_eq_self small(1))
    ultimately show ?thesis by (simp add: word_unat_eq_iff)
  qed
  ultimately show ?thesis
    using True rest p first by (simp add: decode_integer_def int_code_def read_rest max_prefix_mask Let_def)
next
  case False
  let ?w = "v - mask p"
  have le: "mask p \<le> v" using False unat_mask [OF p, where ?'a = 32] by (simp add: word_le_nat_alt)
  then have w: "unat ?w = unat v - (2 ^ p - 1)"
    using unat_mask [OF p, where ?'a = 32] by (simp add: unat_sub)
  have acc: "unat (ucast (mask p :: byte) :: u64) = 2 ^ p - 1"
    using unat_mask [OF p, where ?'a = 64] by (simp add: ucast_mask [OF p])
  have "unat v < 2 ^ LENGTH(32)" by (rule unsigned_less)
  then have v: "unat v < 4294967296" by simp
  have sum: "unat (ucast (mask p :: byte) :: u64) + unat ?w * 2 ^ 0 = unat v"
    using False w acc by simp
  have first: "(b OR mask p) AND mask p = mask p"
    by (simp add: bit.conj_disj_distrib2 free)
  have rest1: "cur_rest (cur_adv 1 c) = int_octets ?w @ rs"
    using rest False by (simp add: int_code_def)
  have "decode_integer_loop 10 (ucast (mask p :: byte)) 0 (cur_adv 1 c) =
      (cur_adv (length (int_octets ?w)) (cur_adv 1 c), of_nat (unat v))"
    using decode_octets [OF rest1, of "ucast (mask p :: byte)" 0 10, unfolded sum] v w by simp
  then show ?thesis
    using False rest p first by (simp add: decode_integer_def int_code_def read_rest max_prefix_mask Let_def)
qed

text \<open>C9 (hpack_integer_roundtrip): an integer written after any flag bits above an \<open>n\<close>-bit prefix is
  read back, with the cursor exactly behind it, whatever bytes follow and whatever its value.\<close>

theorem hpack_integer_roundtrip:
  assumes "prefix_bits \<le> 8" "flags AND mask prefix_bits = 0"
    "encode_integer v prefix_bits [flags] = enc"
  shows "decode_integer prefix_bits (cursor_of (enc @ rest)) =
    (cur_adv (length enc) (cursor_of (enc @ rest)), v)"
proof -
  have enc: "enc = int_code v prefix_bits flags"
    using encode_integer_eq [OF assms(1), of v "[]" flags] assms(3) by simp
  show ?thesis unfolding enc
    by (rule decode_integer_ok [OF assms(1,2)]) simp
qed

theorem hpack_integer_roundtrip_witness:
  "encode_integer 1337 5 [0x20] = [0x3F, 0x9A, 0x0A] \<and>
   snd (decode_integer 5 (cursor_of ([0x3F, 0x9A, 0x0A] @ [7]))) = 1337"
proof -
  have e: "encode_integer 1337 5 [0x20] = [0x3F, 0x9A, 0x0A]" by code_simp
  have f: "(0x20 :: byte) AND mask 5 = 0" by code_simp
  show ?thesis using hpack_integer_roundtrip [OF _ f e, of "[7]"] e by simp
qed

subsection \<open>The Huffman code\<close>

text \<open>
  What the decoder needs of the table, computed once over its 256 entries: the lengths, codes
  that fit them and are not all ones, and, with every code taken as the interval of the 30-bit
  words that start with it, intervals that do not overlap once they are sorted.
\<close>

definition code_interval :: "u32 \<times> nat \<Rightarrow> int \<times> int" where
  "code_interval e = (uint (fst e) * 2 ^ (30 - snd e), (uint (fst e) + 1) * 2 ^ (30 - snd e))"

fun in_order :: "(int \<times> int) list \<Rightarrow> bool" where
  "in_order [] \<longleftrightarrow> True"
| "in_order [i] \<longleftrightarrow> fst i < snd i"
| "in_order (i # j # is) \<longleftrightarrow> fst i < snd i \<and> snd i \<le> fst j \<and> in_order (j # is)"

lemma table_length [simp]: "length huffman_table = 256"
  by (simp add: huffman_table_def)

lemma table_entries:
  "list_all (\<lambda>(code, bits). 5 \<le> bits \<and> bits \<le> 30 \<and> uint code + 1 < 2 ^ bits) huffman_table"
  by (simp add: huffman_table_def)

text \<open>The sorting, by merging neighbours eight times over, is only there to be evaluated.\<close>

fun merge_lists :: "(int \<times> int) list \<Rightarrow> (int \<times> int) list \<Rightarrow> (int \<times> int) list" where
  "merge_lists [] js = js"
| "merge_lists (i # is) [] = i # is"
| "merge_lists (i # is) (j # js) =
    (if fst i \<le> fst j then i # merge_lists is (j # js) else j # merge_lists (i # is) js)"

fun merge_neighbours :: "(int \<times> int) list list \<Rightarrow> (int \<times> int) list list" where
  "merge_neighbours (a # b # ls) = merge_lists a b # merge_neighbours ls"
| "merge_neighbours ls = ls"

primrec merge_rounds :: "nat \<Rightarrow> (int \<times> int) list list \<Rightarrow> (int \<times> int) list" where
  "merge_rounds 0 ls = concat ls"
| "merge_rounds (Suc n) ls = merge_rounds n (merge_neighbours ls)"

lemma mset_merge_lists: "mset (merge_lists is js) = mset is + mset js"
  by (induction "is" js rule: merge_lists.induct) auto

lemma mset_merge_neighbours: "mset (concat (merge_neighbours ls)) = mset (concat ls)"
  by (induction ls rule: merge_neighbours.induct) (auto simp: mset_merge_lists)

lemma mset_merge_rounds: "mset (merge_rounds n ls) = mset (concat ls)"
  by (induction n arbitrary: ls) (auto simp: mset_merge_neighbours simp del: mset_concat)

definition sorted_intervals :: "(int \<times> int) list" where
  "sorted_intervals = merge_rounds 8 (map (\<lambda>e. [code_interval e]) huffman_table)"

lemma mset_sorted_intervals: "mset sorted_intervals = mset (map code_interval huffman_table)"
proof -
  have "concat (map (\<lambda>e. [code_interval e]) l) = map code_interval l" for l by (induction l) auto
  then show ?thesis by (simp add: sorted_intervals_def mset_merge_rounds del: mset_concat)
qed

lemma table_in_order: "in_order sorted_intervals"
  by code_simp

lemma in_order_nth:
  "in_order l \<Longrightarrow> i < j \<Longrightarrow> j < length l \<Longrightarrow> snd (l ! i) \<le> fst (l ! j)"
  "in_order l \<Longrightarrow> i < length l \<Longrightarrow> fst (l ! i) < snd (l ! i)"
proof (induction l arbitrary: i j rule: in_order.induct)
  case (3 a b l)
  {
    case 1
    show ?case
    proof (cases i)
      case 0
      show ?thesis
      proof (cases "j = 1")
        case False
        then have "snd ((b # l) ! 0) \<le> fst ((b # l) ! (j - 1))"
          using 1 0 by (intro 3(1)) auto
        moreover have "fst b < snd b" using 3(2) [of 0] 1 by simp
        ultimately show ?thesis using 1 0 by (simp add: nth_Cons')
      qed (use 0 1 in auto)
    next
      case (Suc i')
      then show ?thesis using 1 3(1) [of i' "j - 1"] by (auto simp: nth_Cons')
    qed
  next
    case 2
    then show ?case using 3(2) [of "i - 1"] by (cases i) auto
  }
qed auto

lemma intervals_disjoint:
  assumes "c < 256" "d < 256" "c \<noteq> d"
  shows "snd (code_interval (huffman_table ! c)) \<le> fst (code_interval (huffman_table ! d)) \<or>
    snd (code_interval (huffman_table ! d)) \<le> fst (code_interval (huffman_table ! c))"
proof -
  let ?f = "map code_interval huffman_table"
  let ?l = sorted_intervals
  note o = in_order_nth [OF table_in_order]
  have dist: "distinct ?l"
    unfolding distinct_conv_nth
  proof (intro allI impI)
    fix i j assume ij: "i < length ?l" "j < length ?l" "i \<noteq> j"
    then show "?l ! i \<noteq> ?l ! j"
      using o(1) [of i j] o(1) [of j i] o(2) [of i] o(2) [of j]
      by (cases "i < j") auto
  qed
  have "distinct ?f" by (rule mset_eq_imp_distinct_iff [THEN iffD1, OF mset_sorted_intervals dist])
  then have ne: "?f ! c \<noteq> ?f ! d" using assms by (subst nth_eq_iff_index_eq) auto
  have "?f ! c \<in> set ?l" "?f ! d \<in> set ?l" using assms
    by (metis length_map nth_mem mset_eq_setD mset_sorted_intervals table_length)+
  then obtain i j where "i < length ?l" "?l ! i = ?f ! c" "j < length ?l" "?l ! j = ?f ! d"
    by (metis in_set_conv_nth)
  then show ?thesis using o(1) [of i j] o(1) [of j i] ne assms
    by (cases i j rule: linorder_cases) auto
qed

subsection \<open>Codes as bit lists\<close>

definition code_len :: "nat \<Rightarrow> nat" where "code_len c = snd (huffman_table ! c)"

definition code_bits :: "nat \<Rightarrow> bool list" where
  "code_bits c = word_bits (code_len c) (fst (huffman_table ! c))"

definition huff_bits :: "string \<Rightarrow> bool list" where
  "huff_bits s = concat (map (\<lambda>ch. code_bits (of_char ch)) s)"

fun bits_val :: "bool list \<Rightarrow> nat" where
  "bits_val [] = 0"
| "bits_val (b # bs) = of_bool b * 2 ^ length bs + bits_val bs"

lemma bits_val_less: "bits_val bs < 2 ^ length bs"
  by (induction bs) auto

lemma bits_val_append: "bits_val (xs @ ys) = bits_val xs * 2 ^ length ys + bits_val ys"
  by (induction xs) (auto simp: power_add algebra_simps)

lemma bits_val_inj: "length xs = length ys \<Longrightarrow> bits_val xs = bits_val ys \<longleftrightarrow> xs = ys"
proof (induction xs ys rule: list_induct2)
  case (Cons x xs y ys)
  then show ?case using bits_val_less [of xs] bits_val_less [of ys] by auto
qed simp

lemma word_bits_Suc: "word_bits (Suc n) w = bit w n # word_bits n w"
  by (simp add: word_bits_def)

lemma bits_val_word: "bits_val (word_bits n w) = unat w mod 2 ^ n"
proof (induction n)
  case (Suc n)
  have "unat w mod 2 ^ Suc n = 2 ^ n * (unat w div 2 ^ n mod 2) + unat w mod 2 ^ n"
    using mod_mult2_eq [of "unat w" "2 ^ n" 2] by (simp add: mult.commute)
  also have "unat w div 2 ^ n mod 2 = of_bool (bit (unat w) n)"
    by (simp add: mod_2_eq_odd bit_iff_odd)
  also have "bit (unat w) n \<longleftrightarrow> bit w n" by (simp add: bit_unsigned_iff)
  finally show ?case using Suc by (simp add: word_bits_Suc mult.commute)
qed simp

lemma table_entry:
  assumes "c < 256"
  shows "5 \<le> code_len c" "code_len c \<le> 30" "unat (fst (huffman_table ! c)) + 1 < 2 ^ code_len c"
proof -
  have "(\<lambda>(code, bits). 5 \<le> bits \<and> bits \<le> 30 \<and> uint code + 1 < 2 ^ bits) (huffman_table ! c)"
    using table_entries assms by (simp add: list_all_length)
  then show "5 \<le> code_len c" "code_len c \<le> 30" and u: "unat (fst (huffman_table ! c)) + 1 < 2 ^ code_len c"
    by (auto simp: code_len_def split: prod.splits) (simp flip: of_nat_less_iff [where ?'a = int])
qed

lemma length_code_bits [simp]: "length (code_bits c) = code_len c"
  by (simp add: code_bits_def)

lemma code_value: "c < 256 \<Longrightarrow> bits_val (code_bits c) = unat (fst (huffman_table ! c))"
  using table_entry(3) [of c] by (simp add: code_bits_def bits_val_word)

text \<open>No code is a prefix of another, nor of the thirty ones of the end-of-string code.\<close>

lemma code_unique:
  assumes c: "c < 256" "take (code_len c) bs = code_bits c"
    and d: "d < 256" "take (code_len d) bs = code_bits d"
  shows "c = d"
proof (rule ccontr)
  assume ne: "c \<noteq> d"
  define B where "B = take 30 (bs @ replicate 30 False)"
  have inside: "fst (code_interval (huffman_table ! e)) \<le> int (bits_val B) \<and>
      int (bits_val B) < snd (code_interval (huffman_table ! e))"
    if e: "e < 256" "take (code_len e) bs = code_bits e" for e
  proof -
    have le: "code_len e \<le> length bs" using e(2) length_code_bits [of e] length_take [of "code_len e" bs] by simp
    have l30: "code_len e \<le> 30" using table_entry [OF e(1)] by simp
    define R where "R = drop (code_len e) B"
    have "take (code_len e) B = code_bits e" using le l30 e(2) by (simp add: B_def min_def)
    then have B: "B = code_bits e @ R" by (metis R_def append_take_drop_id)
    have lR: "length R = 30 - code_len e" by (simp add: R_def B_def)
    have v: "bits_val B = unat (fst (huffman_table ! e)) * 2 ^ (30 - code_len e) + bits_val R"
      using lR by (simp add: B bits_val_append code_value [OF e(1)])
    have "bits_val R < 2 ^ (30 - code_len e)" using bits_val_less [of R] lR by simp
    then have "bits_val B < (unat (fst (huffman_table ! e)) + 1) * 2 ^ (30 - code_len e)" using v by simp
    then have "int (bits_val B) < int ((unat (fst (huffman_table ! e)) + 1) * 2 ^ (30 - code_len e))"
      by (simp only: of_nat_less_iff)
    moreover have "int (unat (fst (huffman_table ! e)) * 2 ^ (30 - code_len e)) \<le> int (bits_val B)"
      using v by (simp only: of_nat_le_iff)
    ultimately show ?thesis by (simp add: code_interval_def code_len_def algebra_simps)
  qed
  show False using intervals_disjoint [OF c(1) d(1) ne] inside [OF c] inside [OF d] by linarith
qed

lemma code_not_ones:
  assumes "c < 256"
  shows "code_bits c \<noteq> replicate (code_len c) True"
proof
  have ones: "bits_val (replicate n True) = 2 ^ n - 1" for n
    by (induction n) auto
  assume "code_bits c = replicate (code_len c) True"
  then have "unat (fst (huffman_table ! c)) = 2 ^ code_len c - 1"
    using code_value [OF assms] ones by simp
  then show False using table_entry(3) [OF assms] by simp
qed

subsection \<open>What the encoder writes\<close>

lemma huff_bits_simps [simp]:
  "huff_bits [] = []" "huff_bits (ch # s) = code_bits (of_char ch) @ huff_bits s"
  "huff_bits (s @ t) = huff_bits s @ huff_bits t"
  by (simp_all add: huff_bits_def)

lemma word_bits_ucast:
  "n \<le> LENGTH('b) \<Longrightarrow> n \<le> LENGTH('a) \<Longrightarrow>
   word_bits n (ucast (w :: 'a::len word) :: 'b::len word) = word_bits n w"
  by (rule word_bits_cong) (auto simp: word_bit_simps)

lemma flush_bits_ok:
  assumes "flush_bits buf n out = (n', out')"
  shows "n' < 8 \<and> (\<exists>ys. out' = out @ ys \<and> bytes_bits ys @ word_bits n' buf = word_bits n buf)"
  using assms
proof (induction buf n out rule: flush_bits.induct)
  case (1 buf n out)
  show ?case
  proof (cases "n \<ge> 8")
    case False
    then show ?thesis using 1(2) by (subst (asm) flush_bits.simps) auto
  next
    case True
    let ?b = "ucast (drop_bit (n - 8) buf AND 0xFF) :: byte"
    have "flush_bits buf (n - 8) (out @ [?b]) = (n', out')"
      using 1(2) True by (subst (asm) flush_bits.simps) simp
    from 1(1) [OF True this] obtain ys where
      ys: "n' < 8" "out' = (out @ [?b]) @ ys" "bytes_bits ys @ word_bits n' buf = word_bits (n - 8) buf" by blast
    have b: "word_bits 8 ?b = word_bits 8 (drop_bit (n - 8) buf)"
      by (rule word_bits_cong) (auto simp: word_bit_simps)
    have "word_bits n buf = word_bits 8 ?b @ word_bits (n - 8) buf"
      using word_bits_add [of 8 "n - 8" buf] True b by simp
    then have "bytes_bits (?b # ys) @ word_bits n' buf = word_bits n buf" using ys(3) by simp
    then show ?thesis using ys(1,2) by (intro conjI exI [of _ "?b # ys"]) simp_all
  qed
qed

lemma huffman_step_ok:
  assumes "huffman_step (buf, n, out) ch = (buf', n', out')" "n < 8"
  shows "n' < 8 \<and> (\<exists>ys. out' = out @ ys \<and>
    bytes_bits ys @ word_bits n' buf' = word_bits n buf @ code_bits (of_char ch))"
proof -
  let ?c = "of_char ch :: nat"
  obtain code bits where cb: "huffman_table ! ?c = (code, bits)" by (cases "huffman_table ! ?c")
  have t: "bits \<le> 30" "unat code + 1 < 2 ^ bits" using table_entry [of ?c] cb by (simp_all add: code_len_def)
  let ?buf = "push_bit bits buf OR ucast code"
  have fl: "flush_bits ?buf (n + bits) out = (n', out')" and buf: "buf' = ?buf"
    using assms(1) cb by (auto simp: huffman_step_def Let_def split: prod.splits)
  have high: "\<not> bit code i" if "bits \<le> i" for i
  proof -
    have "unat code < 2 ^ i" using t(2) power_increasing [OF that, of "2 :: nat"] by linarith
    then have "\<not> bit (unat code) i" by (simp add: bit_iff_odd)
    then show ?thesis by (simp add: bit_unsigned_iff)
  qed
  have "word_bits n (buf OR drop_bit bits (ucast code)) = word_bits n buf"
    by (rule word_bits_cong) (use high in \<open>auto simp: word_bit_simps\<close>)
  moreover have "word_bits bits (ucast code :: u64) = code_bits ?c"
    using t(1) by (simp add: code_bits_def code_len_def cb word_bits_ucast)
  ultimately have "word_bits (n + bits) ?buf = word_bits n buf @ code_bits ?c"
    using word_bits_push [of n bits buf "ucast code"] assms(2) t(1) by simp
  then show ?thesis using flush_bits_ok [OF fl] buf by simp
qed

lemma huffman_fold_ok:
  assumes "foldl huffman_step (buf, n, out) s = (buf', n', out')" "n < 8"
  shows "n' < 8 \<and> (\<exists>ys. out' = out @ ys \<and>
    bytes_bits ys @ word_bits n' buf' = word_bits n buf @ huff_bits s)"
  using assms
proof (induction s arbitrary: buf n out)
  case (Cons ch s)
  obtain buf1 n1 out1 where s1: "huffman_step (buf, n, out) ch = (buf1, n1, out1)"
    by (cases "huffman_step (buf, n, out) ch") auto
  obtain ys where ys: "n1 < 8" "out1 = out @ ys"
      "bytes_bits ys @ word_bits n1 buf1 = word_bits n buf @ code_bits (of_char ch)"
    using huffman_step_ok [OF s1 Cons.prems(2)] by blast
  obtain zs where zs: "n' < 8" "out' = out1 @ zs"
      "bytes_bits zs @ word_bits n' buf' = word_bits n1 buf1 @ huff_bits s"
    using Cons.IH [of buf1 n1 out1] s1 ys(1) Cons.prems(1) by auto
  have "bytes_bits (ys @ zs) @ word_bits n' buf' = word_bits n buf @ huff_bits (ch # s)"
    using ys(3) zs(3) by simp
  then show ?case using zs(1,2) ys(2) by auto
qed simp
lemma total_bits_eq:
  "foldl (\<lambda>total ch. total + snd (huffman_table ! of_char ch)) n s = n + length (huff_bits s)"
  by (induction s arbitrary: n) (auto simp: code_len_def)

lemma word_bits_pad:
  assumes "0 < n" "n < 8"
  shows "word_bits 8 (ucast (push_bit (8 - n) buf AND 0xFF) OR mask (8 - n) :: byte) =
    word_bits n (buf :: u64) @ replicate (8 - n) True"
proof -
  let ?b = "ucast (push_bit (8 - n) buf AND 0xFF) OR mask (8 - n) :: byte"
  have "word_bits n (drop_bit (8 - n) ?b) = word_bits n buf"
    by (rule word_bits_cong) (use assms in \<open>auto simp: word_bit_simps bit_mask_iff\<close>)
  moreover have "word_bits (8 - n) ?b = replicate (8 - n) True"
    using assms by (intro nth_equalityI) (auto simp: word_bits_def word_bit_simps bit_mask_iff rev_nth)
  ultimately show ?thesis using word_bits_add [of n "8 - n" ?b] assms by simp
qed

lemma encode_huffman_eq:
  obtains ys pad where
    "encode_huffman s out = out @ int_code (of_nat (length ys)) 7 0x80 @ ys"
    "bytes_bits ys = huff_bits s @ replicate pad True" "pad < 8"
proof -
  let ?len = "(length (huff_bits s) + 7) div 8"
  define hdr where "hdr = out @ int_code (of_nat ?len) 7 0x80"
  obtain buf n out' where f: "foldl huffman_step (0, 0, hdr) s = (buf, n, out')"
    by (cases "foldl huffman_step (0, 0, hdr) s") auto
  obtain zs where z: "n < 8" "out' = hdr @ zs" "bytes_bits zs @ word_bits n buf = huff_bits s"
    using huffman_fold_ok [OF f] by auto
  define ys where "ys = (if n > 0 then zs @ [ucast (push_bit (8 - n) buf AND 0xFF) OR mask (8 - n)] else zs)"
  define pad where "pad = (if n > 0 then 8 - n else 0)"
  have bits: "bytes_bits ys = huff_bits s @ replicate pad True"
    using z word_bits_pad [of n buf] by (auto simp: ys_def pad_def)
  have pad: "pad < 8" by (auto simp: pad_def)
  have "8 * length ys = length (huff_bits s) + pad" using arg_cong [OF bits, of length] by simp
  then have "8 * length ys \<le> length (huff_bits s) + 7" "length (huff_bits s) + 7 < 8 * Suc (length ys)"
    using pad by simp_all
  then have len: "length ys = ?len" by (rule div_nat_eqI [symmetric])
  obtain e1 where e1: "encode_integer (of_nat (length (huff_bits s) div 8 +
      (if length (huff_bits s) mod 8 \<noteq> 0 then 1 else 0))) 7 (out @ [1]) = out @ e1"
    using encode_integer_eq [of 7] by auto
  have hdr: "encode_integer (of_nat ?len) 7 (out @ [0x80]) = hdr"
    by (simp add: encode_integer_eq hdr_def)
  have "encode_huffman s out = hdr @ ys"
    unfolding encode_huffman_def Let_def total_bits_eq add_0 e1 take_append
    using hdr f z(1,2) max_prefix_mask [of "8 - n"] by (auto simp: ys_def)
  then show thesis using that [of ys pad] bits pad len by (simp add: hdr_def)
qed

subsection \<open>The lookup table\<close>

lemma foldl_fill_nth:
  "base + n \<le> length r \<Longrightarrow>
   length (foldl (\<lambda>r i. r[base + i := x]) r [0..<n]) = length r \<and>
   (\<forall>k < length r. foldl (\<lambda>r i. r[base + i := x]) r [0..<n] ! k =
      (if base \<le> k \<and> k < base + n then x else r ! k))"
  by (induction n) (auto simp: nth_list_update)

text \<open>An index of the table starts with the code of \<open>c\<close>.\<close>

definition starts_code :: "nat \<Rightarrow> nat \<Rightarrow> bool" where
  "starts_code c k \<longleftrightarrow> code_len c \<le> 15 \<and> k div 2 ^ (15 - code_len c) = unat (fst (huffman_table ! c))"

lemma fill_entries_ok:
  assumes "c < 256" "length r = 2 ^ 15"
  shows "length (fill_entries r c) = 2 ^ 15" (is ?len)
    "k < 2 ^ 15 \<Longrightarrow> fill_entries r c ! k = (if starts_code c k then (of_nat c, code_len c) else r ! k)"
proof -
  obtain code bits where cb: "huffman_table ! c = (code, bits)" by (cases "huffman_table ! c")
  have "?len \<and> (k < 2 ^ 15 \<longrightarrow>
      fill_entries r c ! k = (if starts_code c k then (of_nat c, code_len c) else r ! k))"
  proof (cases "bits > 15")
    case True
    then show ?thesis using cb assms(2) by (simp add: fill_entries_def starts_code_def code_len_def)
  next
    case False
    let ?s = "15 - bits"
    have "unat code + 1 \<le> 2 ^ bits" using table_entry(3) [OF assms(1)] cb by (simp add: code_len_def)
    then have "(unat code + 1) * 2 ^ ?s \<le> 2 ^ bits * 2 ^ ?s" by (rule mult_right_mono) simp
    also have "(2 :: nat) ^ bits * 2 ^ ?s = 2 ^ 15" using False by (simp flip: power_add)
    finally have fit: "unat code * 2 ^ ?s + 2 ^ ?s \<le> length r" using assms(2) by (simp add: algebra_simps)
    have "k div 2 ^ ?s = unat code \<longleftrightarrow> unat code * 2 ^ ?s \<le> k \<and> k < unat code * 2 ^ ?s + 2 ^ ?s"
      by (auto simp: div_nat_eqI algebra_simps) (metis div_times_less_eq_dividend,
          metis dividend_less_div_times zero_less_numeral zero_less_power)
    then show ?thesis
      using foldl_fill_nth [OF fit, of "(of_nat c, bits)"] False cb assms(2)
      by (auto simp: fill_entries_def starts_code_def code_len_def Let_def)
  qed
  then show ?len "k < 2 ^ 15 \<Longrightarrow>
      fill_entries r c ! k = (if starts_code c k then (of_nat c, code_len c) else r ! k)" by blast+
qed

lemma fill_all_ok:
  assumes "n \<le> 256" "k < 2 ^ 15" "length r = 2 ^ 15"
  shows "length (foldl fill_entries r [0..<n]) = 2 ^ 15 \<and>
    (\<forall>c < n. starts_code c k \<longrightarrow> (\<forall>d < n. starts_code d k \<longrightarrow> d = c) \<longrightarrow>
      foldl fill_entries r [0..<n] ! k = (of_nat c, code_len c)) \<and>
    ((\<forall>c < n. \<not> starts_code c k) \<longrightarrow> foldl fill_entries r [0..<n] ! k = r ! k)"
  using assms(1)
proof (induction n)
  case (Suc n)
  let ?r = "foldl fill_entries r [0..<n]"
  have IH: "length ?r = 2 ^ 15"
    "\<And>c. c < n \<Longrightarrow> starts_code c k \<Longrightarrow> (\<And>d. d < n \<Longrightarrow> starts_code d k \<Longrightarrow> d = c) \<Longrightarrow>
      ?r ! k = (of_nat c, code_len c)"
    "(\<And>c. c < n \<Longrightarrow> \<not> starts_code c k) \<Longrightarrow> ?r ! k = r ! k"
    using Suc.IH [OF Suc_leD [OF Suc.prems]] by blast+
  have eq: "foldl fill_entries r [0..<Suc n] = fill_entries ?r n" by simp
  have n: "n < 256" using Suc.prems by simp
  note f = fill_entries_ok(1) [OF n IH(1)] fill_entries_ok(2) [OF n IH(1), of k]
  show ?case unfolding eq
  proof (intro conjI allI impI)
    show "length (fill_entries ?r n) = 2 ^ 15" by (rule f(1))
    fix c assume c: "c < Suc n" "starts_code c k" "\<forall>d<Suc n. starts_code d k \<longrightarrow> d = c"
    show "fill_entries ?r n ! k = (of_nat c, code_len c)"
    proof (cases "c = n")
      case True
      then show ?thesis using f(2) assms(2) c(2) by simp
    next
      case False
      then have "\<not> starts_code n k" using c(3) by blast
      moreover have "c < n" using False c(1) by simp
      then have "?r ! k = (of_nat c, code_len c)"
        by (rule IH(2) [OF _ c(2)]) (use c(3) less_SucI in blast)
      ultimately show ?thesis using f(2) assms(2) by simp
    qed
  next
    assume "\<forall>c<Suc n. \<not> starts_code c k"
    then show "fill_entries ?r n ! k = r ! k" using f(2) assms(2) IH(3) by simp
  qed
qed (use assms in auto)

lemma word_bits_value_eq:
  fixes v :: "'a::len word" and w :: "'b::len word"
  assumes "unat v < 2 ^ n" "unat w < 2 ^ n"
  shows "word_bits n v = word_bits n w \<longleftrightarrow> unat v = unat w"
  using bits_val_inj [of "word_bits n v" "word_bits n w"] assms by (simp add: bits_val_word)

text \<open>The index read from the stream starts with the code that the stream starts with.\<close>

lemma starts_code_stream:
  fixes v :: u64
  assumes "c < 256" "word_bits 15 v = take 15 bs" "unat v < 2 ^ 15" "15 \<le> length bs"
  shows "starts_code c (unat v) \<longleftrightarrow> code_len c \<le> 15 \<and> take (code_len c) bs = code_bits c"
proof (cases "code_len c \<le> 15")
  case True
  let ?n = "code_len c" and ?code = "fst (huffman_table ! c)"
  let ?d = "drop_bit (15 - ?n) v"
  have d: "unat ?d = unat v div 2 ^ (15 - ?n)" 
  proof -
    have "take_bit 64 (unat v) = unat v" using unsigned_less [of v] by (intro take_bit_nat_eq_self) simp
    then show ?thesis by (simp only: unsigned_drop_bit_eq) (simp add: drop_bit_eq_div)
  qed
  have "unat v div 2 ^ (15 - ?n) < 2 ^ ?n"
    using assms(3) True by (simp add: less_mult_imp_div_less flip: power_add)
  then have v: "word_bits ?n ?d = code_bits c \<longleftrightarrow> unat ?d = unat ?code"
    unfolding code_bits_def using table_entry(3) [OF assms(1)] d by (intro word_bits_value_eq) simp_all
  have "word_bits ?n ?d = take ?n (word_bits 15 v)" using True by (simp add: take_word_bits)
  then have "word_bits ?n ?d = take ?n bs" using True assms(2) by (simp add: min_def)
  then show ?thesis using True v d by (simp add: starts_code_def)
qed (simp add: starts_code_def)

subsection \<open>One symbol of the decoder\<close>

lemma peek_bits_value:
  assumes "n \<le> bits_remaining cur" "n \<le> 64"
  obtains v where "try_peek_bits n cur = Some v" "word_bits n v = take n (cursor_bits cur)" "unat v < 2 ^ n"
proof -
  let ?v = "drop_bit (bc_bits cur - n) (bc_bit_buf cur) AND bit_mask n"
  have n: "n \<le> bc_bits cur" using assms(1) by (simp add: bits_remaining_def)
  have "take_bit n ?v = ?v"
    using assms(2) by (intro bit_word_eqI) (auto simp: bit_take_bit_iff bit_and_iff bit_mask_bit)
  then have "unat ?v < 2 ^ n" by (metis take_bit_nat_less_exp unsigned_take_bit_eq)
  then show thesis
    using that [of ?v] peek_value [OF n assms(2)] n assms(2) by (simp add: try_peek_bits_def)
qed

lemma length_cursor_bits: "length (cursor_bits cur) = bits_remaining cur + 8 * length (cur_rest cur)"
  by (simp add: cursor_bits_def bits_remaining_def cur_rest_def)

lemma peek_code:
  assumes "c < 256" "code_len c \<le> bits_remaining cur"
  shows "try_peek_bits (code_len c) cur = Some (ucast (fst (huffman_table ! c))) \<longleftrightarrow>
    take (code_len c) (cursor_bits cur) = code_bits c"
proof -
  let ?code = "fst (huffman_table ! c)"
  have l: "code_len c \<le> 64" using table_entry [OF assms(1)] by simp
  obtain v where v: "try_peek_bits (code_len c) cur = Some v"
      "word_bits (code_len c) v = take (code_len c) (cursor_bits cur)" "unat v < 2 ^ code_len c"
    by (rule peek_bits_value [OF assms(2) l])
  have "word_bits (code_len c) v = code_bits c \<longleftrightarrow> unat v = unat ?code"
    unfolding code_bits_def using v(3) table_entry(3) [OF assms(1)] by (intro word_bits_value_eq) simp_all
  also have "\<dots> \<longleftrightarrow> v = ucast ?code"
    by (simp add: word_unat_eq_iff unsigned_ucast_eq take_bit_nat_eq_self less_trans [OF unsigned_less])
  finally show ?thesis using v(1,2) by simp
qed

lemma scan_codes_Some:
  assumes "scan_codes cur = Some c"
  shows "c < 256" "code_len c \<le> bits_remaining cur" "take (code_len c) (cursor_bits cur) = code_bits c"
proof -
  have c: "c \<in> set [0..<256]" "code_len c \<le> bits_remaining cur"
    "try_peek_bits (code_len c) cur = Some (ucast (fst (huffman_table ! c)))"
    using assms by (auto simp: scan_codes_def code_len_def find_Some_iff)
  then show "c < 256" "code_len c \<le> bits_remaining cur" by auto
  then show "take (code_len c) (cursor_bits cur) = code_bits c" using peek_code c(3) by simp
qed

lemma scan_codes_hit:
  assumes "c < 256" "code_len c \<le> bits_remaining cur" "take (code_len c) (cursor_bits cur) = code_bits c"
  shows "scan_codes cur = Some c"
proof (cases "scan_codes cur")
  case None
  then show ?thesis
    using assms peek_code [OF assms(1,2)] by (auto simp: scan_codes_def code_len_def find_None_iff)
next
  case (Some d)
  then show ?thesis using code_unique [OF assms(1,3)] scan_codes_Some [OF Some] by simp
qed
lemma lookup_fast_Some:
  assumes "lookup_fast cur = Some entry"
  shows "snd entry \<noteq> 0" "snd entry \<le> bits_remaining cur"
  using assms by (auto simp: lookup_fast_def Let_def split: if_splits option.splits)

lemma table_15_nth:
  assumes "k < 2 ^ 15"
  shows "c < 256 \<Longrightarrow> starts_code c k \<Longrightarrow> (\<And>d. d < 256 \<Longrightarrow> starts_code d k \<Longrightarrow> d = c) \<Longrightarrow>
      huffman_table_15 ! k = (of_nat c, code_len c)"
    "(\<And>c. c < 256 \<Longrightarrow> \<not> starts_code c k) \<Longrightarrow> huffman_table_15 ! k = (0, 0)"
proof -
  note f = fill_all_ok [of 256 k "replicate (2 ^ 15) (0, 0)", OF _ assms]
  show "huffman_table_15 ! k = (of_nat c, code_len c)"
    if "c < 256" "starts_code c k" "\<And>d. d < 256 \<Longrightarrow> starts_code d k \<Longrightarrow> d = c"
    using f that unfolding huffman_table_15_def length_replicate by blast
  show "huffman_table_15 ! k = (0, 0)" if "\<And>c. c < 256 \<Longrightarrow> \<not> starts_code c k"
    using f that nth_replicate [OF assms] unfolding huffman_table_15_def length_replicate by (metis order_refl)
qed

text \<open>The fast path returns the symbol the stream starts with, when its code is short enough.\<close>

lemma lookup_fast_code:
  assumes c: "c < 256" "code_len c \<le> bits_remaining cur" "take (code_len c) (cursor_bits cur) = code_bits c"
  shows "lookup_fast cur =
    (if 15 \<le> bits_remaining cur \<and> code_len c \<le> 15 then Some (of_nat c, code_len c) else None)"
proof (cases "15 \<le> bits_remaining cur")
  case True
  obtain v where v: "try_peek_bits 15 cur = Some v" "word_bits 15 v = take 15 (cursor_bits cur)" "unat v < 2 ^ 15"
    by (rule peek_bits_value [OF True]) simp
  have len: "15 \<le> length (cursor_bits cur)" using True by (simp add: length_cursor_bits)
  have st: "starts_code d (unat v) \<longleftrightarrow> code_len d \<le> 15 \<and> take (code_len d) (cursor_bits cur) = code_bits d"
    if "d < 256" for d
    by (rule starts_code_stream [OF that v(2,3) len])
  have uniq: "d = c" if "d < 256" "starts_code d (unat v)" for d
    using code_unique [OF c(1,3) that(1)] st [OF that(1)] that(2) by blast
  show ?thesis
  proof (cases "code_len c \<le> 15")
    case short: True
    then have "huffman_table_15 ! unat v = (of_nat c, code_len c)"
      using st [OF c(1)] c(3) uniq by (intro table_15_nth(1) [OF v(3) c(1)]) blast+
    then show ?thesis using True short v(1) c(2) table_entry(1) [OF c(1)] by (simp add: lookup_fast_def)
  next
    case False
    then have "\<not> starts_code d (unat v)" if "d < 256" for d
      using uniq [OF that] st [OF c(1)] by blast
    then have "huffman_table_15 ! unat v = (0, 0)" by (rule table_15_nth(2) [OF v(3)])
    then show ?thesis using False v(1) by (simp add: lookup_fast_def)
  qed
qed (simp add: lookup_fast_def)

subsection \<open>decode_huffman\<close>

lemma fill_cursor_measure:
  "bits_remaining (fill_cursor cur) + 8 * cur_remaining (fill_cursor cur) =
   bits_remaining cur + 8 * cur_remaining cur"
proof (induction cur rule: fill_cursor.induct)
  case (1 cur)
  show ?case
  proof (cases "bits_remaining cur < 32 \<and> \<not> exhausted cur")
    case True
    have "bits_remaining (fst (refill_bits cur)) + 8 * cur_remaining (fst (refill_bits cur)) =
        bits_remaining cur + 8 * cur_remaining cur"
      using True by (auto simp: refill_bits_def bits_remaining_def cur_remaining_def exhausted_def bc_size_def)
    then show ?thesis using 1 True by (subst (1 2) fill_cursor.simps) simp
  qed (subst (1 2) fill_cursor.simps, auto)
qed

lemma skip_bits_measure:
  "0 < n \<Longrightarrow> n \<le> bits_remaining cur \<Longrightarrow>
   bits_remaining (skip_bits n cur) + 8 * cur_remaining (skip_bits n cur) <
   bits_remaining cur + 8 * cur_remaining cur"
  by (simp add: skip_bits_def bits_remaining_def cur_remaining_def bc_size_def)

text \<open>The decoding loop: \<open>None\<close> is the early return of the empty string at the EOS code.\<close>

function huffman_loop :: "byte_cursor \<Rightarrow> string \<Rightarrow> (byte_cursor \<times> string) option" where
  "huffman_loop cur0 result =
     (if \<not> (\<not> exhausted cur0 \<or> bits_remaining cur0 \<ge> 5) then Some (cur0, result)
      else (let cur = fill_cursor cur0 in
        if bits_remaining cur = 0 then Some (cur, result)
        else if try_peek_bits 30 cur = Some 0x3fffffff then None
        else (case lookup_fast cur of
                Some entry \<Rightarrow>
                  huffman_loop (skip_bits (snd entry) cur) (result @ [char_of (unat (fst entry))])
              | None \<Rightarrow>
                  (case scan_codes cur of
                     Some c \<Rightarrow>
                       huffman_loop (skip_bits (snd (huffman_table ! c)) cur) (result @ [char_of c])
                   | None \<Rightarrow> Some (cur, result)))))"
  by pat_completeness auto

termination
proof (relation "measure (\<lambda>(cur, result). bits_remaining cur + 8 * cur_remaining cur)", simp)
  fix cur0 cur :: byte_cursor and result :: string and entry :: "u16 \<times> nat"
  assume "cur = fill_cursor cur0" "lookup_fast cur = Some entry"
  then show "((skip_bits (snd entry) cur, result @ [char_of (unat (fst entry))]), cur0, result)
      \<in> measure (\<lambda>(cur, result). bits_remaining cur + 8 * cur_remaining cur)"
    using lookup_fast_Some [of cur entry] skip_bits_measure [of "snd entry" cur] fill_cursor_measure [of cur0]
    by simp
next
  fix cur0 cur :: byte_cursor and result :: string and c :: nat
  assume "cur = fill_cursor cur0" "scan_codes cur = Some c"
  then show "((skip_bits (snd (huffman_table ! c)) cur, result @ [char_of c]), cur0, result)
      \<in> measure (\<lambda>(cur, result). bits_remaining cur + 8 * cur_remaining cur)"
    using scan_codes_Some [of cur c] table_entry(1) [of c] skip_bits_measure [of "code_len c" cur]
      fill_cursor_measure [of cur0] by (simp add: code_len_def)
qed

declare huffman_loop.simps [simp del]

definition decode_huffman :: "byte list \<Rightarrow> string" where
  "decode_huffman input =
     (case huffman_loop (cursor_of input) [] of
        None \<Rightarrow> []
      | Some (cur, result) \<Rightarrow>
          (let n = bits_remaining cur
           in if n > 7 then []
              else if n > 0
              then (case snd (try_read_bits n cur) of
                      None \<Rightarrow> []
                    | Some padding \<Rightarrow>
                        (let m = push_bit n 1 - 1
                         in if padding AND m \<noteq> m then [] else result))
              else result))"

definition decode_string :: "byte_cursor \<Rightarrow> byte_cursor \<times> string" where
  "decode_string cur =
     (case peek_byte cur of
        None \<Rightarrow> (cur, [])
      | Some first \<Rightarrow>
          (let huffman = (first AND 0x80 \<noteq> 0);
               (cur, len) = decode_integer 7 cur
           in case try_read_bytes (unat len) cur of
                (cur, None) \<Rightarrow> (cur, [])
              | (cur, Some bytes) \<Rightarrow>
                  (cur, if huffman then decode_huffman bytes else map (\<lambda>b. char_of (unat b)) bytes)))"
lemma fill_cursor_ok:
  "cursor_bits (fill_cursor cur) = cursor_bits cur \<and>
   (32 \<le> bits_remaining (fill_cursor cur) \<or> exhausted (fill_cursor cur))"
proof (induction cur rule: fill_cursor.induct)
  case (1 cur)
  show ?case
  proof (cases "bits_remaining cur < 32 \<and> \<not> exhausted cur")
    case True
    then have "cursor_bits (fst (refill_bits cur)) = cursor_bits cur"
      by (intro cursor_bits_refill) (simp_all add: bits_remaining_def)
    then show ?thesis using 1 True by (subst (1 2 3) fill_cursor.simps) simp
  qed (subst (1 2 3) fill_cursor.simps, auto)
qed

lemma word_bits_mask:
  "n \<le> LENGTH('a) \<Longrightarrow> word_bits n (mask n :: 'a::len word) = replicate n True"
  by (intro nth_equalityI) (auto simp: word_bits_def rev_nth bit_mask_iff)

lemma peek_eos:
  assumes "try_peek_bits 30 cur = Some 0x3fffffff"
  shows "take 30 (cursor_bits cur) = replicate 30 True"
proof -
  have n: "30 \<le> bits_remaining cur" using assms by (auto simp: try_peek_bits_def bits_remaining_def split: if_splits)
  obtain v where v: "try_peek_bits 30 cur = Some v" "word_bits 30 v = take 30 (cursor_bits cur)"
    by (rule peek_bits_value [OF n]) simp_all
  have "(0x3fffffff :: u64) = mask 30" by (simp add: mask_eq_exp_minus_1)
  then have "word_bits 30 (0x3fffffff :: u64) = replicate 30 True"
    using word_bits_mask [of 30, where ?'a = 64] by simp
  then show ?thesis using v assms by simp
qed

lemma code_not_padding:
  assumes "c < 256" "take (code_len c) bs = code_bits c" "take k bs = replicate k True" "code_len c \<le> k"
  shows False
proof -
  have "take (code_len c) bs = take (code_len c) (take k bs)" using assms(4) by simp
  then have "code_bits c = replicate (code_len c) True" using assms by (simp add: min_def)
  then show False using code_not_ones [OF assms(1)] by simp
qed

lemma huffman_loop_ok:
  assumes "cursor_bits cur = huff_bits s @ replicate p True" "p < 8"
  shows "\<exists>cur'. huffman_loop cur r = Some (cur', r @ s) \<and> cursor_bits cur' = replicate p True \<and>
    bits_remaining cur' = p"
  using assms
proof (induction s arbitrary: cur r)
  case Nil
  then have b: "cursor_bits cur = replicate p True" by simp
  have len: "bits_remaining cur + 8 * length (cur_rest cur) = p"
    using arg_cong [OF b, of length] by (simp add: length_cursor_bits)
  then have rest: "cur_rest cur = []" and bits: "bits_remaining cur = p" using Nil.prems(2) by (cases "cur_rest cur"; simp)+
  have ex: "exhausted cur" using rest by (simp add: exhausted_rest)
  have fill: "fill_cursor cur = cur" using ex by (subst fill_cursor.simps) simp
  have "scan_codes cur = None"
  proof (rule ccontr)
    assume "scan_codes cur \<noteq> None"
    then obtain c where c: "scan_codes cur = Some c" by auto
    note s = scan_codes_Some [OF c]
    show False
      using code_not_padding [OF s(1,3), of p] s(2) b bits by simp
  qed
  moreover have "lookup_fast cur = None" using bits Nil.prems(2) by (simp add: lookup_fast_def)
  moreover have "try_peek_bits 30 cur = None"
    using bits Nil.prems(2) by (simp add: try_peek_bits_def bits_remaining_def)
  ultimately have "huffman_loop cur r = Some (cur, r)"
    using ex fill by (subst huffman_loop.simps) (simp add: Let_def)
  then show ?case using b bits by simp
next
  case (Cons ch s)
  let ?c = "of_char ch :: nat" and ?cur = "fill_cursor cur"
  have c: "?c < 256" by simp
  note t = table_entry [OF c]
  have cb: "cursor_bits ?cur = code_bits ?c @ huff_bits s @ replicate p True"
    using fill_cursor_ok [of cur] Cons.prems(1) by simp
  have total: "code_len ?c \<le> bits_remaining cur + 8 * length (cur_rest cur)"
    using arg_cong [OF Cons.prems(1), of length] by (simp add: length_cursor_bits)
  then have go: "\<not> exhausted cur \<or> 5 \<le> bits_remaining cur" using t(1) by (auto simp: exhausted_rest)
  have "code_len ?c \<le> bits_remaining ?cur + 8 * length (cur_rest ?cur)"
    using arg_cong [OF cb, of length] by (simp only: length_cursor_bits length_append length_code_bits)
  then have enough: "code_len ?c \<le> bits_remaining ?cur"
    using fill_cursor_ok [of cur] t(2) by (auto simp: exhausted_rest)
  have start: "take (code_len ?c) (cursor_bits ?cur) = code_bits ?c" using cb by simp
  have neos: "try_peek_bits 30 ?cur \<noteq> Some 0x3fffffff"
    using code_not_padding [OF c start peek_eos] t(2) by blast
  have "?c < 65536" using less_trans [OF c, of 65536] by simp
  then have ch: "char_of (unat (of_nat ?c :: u16)) = ch"
    by (simp add: unat_of_nat)
  let ?next = "skip_bits (code_len ?c) ?cur"
  have nb: "cursor_bits ?next = huff_bits s @ replicate p True"
    using cursor_bits_skip [of "code_len ?c" ?cur] enough cb by (simp add: bits_remaining_def)
  have "huffman_loop cur r = huffman_loop ?next (r @ [ch])"
  proof (cases "15 \<le> bits_remaining ?cur \<and> code_len ?c \<le> 15")
    case True
    then have "lookup_fast ?cur = Some (of_nat ?c, code_len ?c)"
      using lookup_fast_code [OF c enough start] by simp
    then show ?thesis using go enough t(1) neos ch
      by (subst huffman_loop.simps) (simp add: Let_def)
  next
    case False
    then have "lookup_fast ?cur = None" using lookup_fast_code [OF c enough start] by auto
    moreover have "scan_codes ?cur = Some ?c" by (rule scan_codes_hit [OF c enough start])
    ultimately show ?thesis using go enough t(1) neos
      by (subst huffman_loop.simps) (simp add: Let_def code_len_def)
  qed
  then show ?case using Cons.IH [OF nb Cons.prems(2), of "r @ [ch]"] by simp
qed

lemma read_buffered_bits:
  assumes "n \<le> bits_remaining cur" "n \<le> 64"
  shows "snd (try_read_bits n cur) = try_peek_bits n cur"
proof -
  have "fetch_bits n cur = (cur, True)"
    using assms(1) by (subst fetch_bits.simps) (simp add: bits_remaining_def)
  then show ?thesis using assms by (simp add: try_read_bits_def try_peek_bits_def bits_remaining_def Let_def)
qed

lemma decode_huffman_ok:
  assumes "bytes_bits ys = huff_bits s @ replicate p True" "p < 8"
  shows "decode_huffman ys = s"
proof -
  have "cursor_bits (cursor_of ys) = huff_bits s @ replicate p True"
    using assms(1) by (simp add: cursor_bits_def cursor_of_def)
  from huffman_loop_ok [OF this assms(2), of "[]"] obtain cur where
    cur: "huffman_loop (cursor_of ys) [] = Some (cur, s)" "cursor_bits cur = replicate p True"
      "bits_remaining cur = p" by auto
  show ?thesis
  proof (cases "p = 0")
    case False
    obtain v where v: "try_peek_bits p cur = Some v" "word_bits p v = take p (cursor_bits cur)"
      by (rule peek_bits_value [of p cur]) (use cur(3) assms(2) in simp_all)
    have m: "(push_bit p 1 - 1 :: u64) = mask p" by (simp add: mask_eq_exp_minus_1 push_bit_eq_mult)
    have "word_bits p v = word_bits p (mask p :: u64)"
      using v(2) cur(2) assms(2) by (simp add: word_bits_mask)
    then have ones: "bit v i" if "i < p" for i
      using that assms(2) by (simp add: word_bits_eq_iff bit_mask_iff)
    have "v AND mask p = mask p"
      by (rule bit_word_eqI) (use ones in \<open>auto simp: bit_and_iff bit_mask_iff\<close>)
    then show ?thesis
      using cur v(1) False assms(2) read_buffered_bits [of p cur] m
      by (simp add: decode_huffman_def Let_def del: push_bit_of_1)
  qed (use cur in \<open>simp add: decode_huffman_def\<close>)
qed
lemma and_mask_ones:
  assumes "v AND mask n = (mask n :: 'a::len word)" "n \<le> LENGTH('a)"
  shows "word_bits n v = replicate n True"
proof -
  have "word_bits n v = word_bits n (v AND mask n)"
    by (rule word_bits_cong) (use assms(2) in \<open>simp add: bit_and_iff bit_mask_iff\<close>)
  then show ?thesis using assms by (simp add: word_bits_mask)
qed

lemma lookup_fast_sound:
  assumes "lookup_fast cur = Some e"
  obtains c where "c < 256" "e = (of_nat c, code_len c)" "code_len c \<le> bits_remaining cur"
    "take (code_len c) (cursor_bits cur) = code_bits c"
proof -
  have n: "15 \<le> bits_remaining cur" using assms by (auto simp: lookup_fast_def split: if_splits)
  obtain v where v: "try_peek_bits 15 cur = Some v" "word_bits 15 v = take 15 (cursor_bits cur)" "unat v < 2 ^ 15"
    by (rule peek_bits_value [OF n]) simp
  have e: "e = huffman_table_15 ! unat v" "snd e \<noteq> 0"
    using assms v(1) by (auto simp: lookup_fast_def Let_def split: if_splits)
  have len: "15 \<le> length (cursor_bits cur)" using n by (simp add: length_cursor_bits)
  note st = starts_code_stream [OF _ v(2,3) len]
  show thesis
  proof (cases "\<exists>c < 256. starts_code c (unat v)")
    case True
    then obtain c where c: "c < 256" "starts_code c (unat v)" by blast
    then have m: "code_len c \<le> 15" "take (code_len c) (cursor_bits cur) = code_bits c" using st by blast+
    have "code_len c \<le> bits_remaining cur" using m(1) n by simp
    then show thesis
      using that [OF c(1)] lookup_fast_code [OF c(1) _ m(2)] m n assms by simp
  next
    case False
    then have "huffman_table_15 ! unat v = (0, 0)" by (intro table_15_nth(2) [OF v(3)]) blast
    then show thesis using e by simp
  qed
qed

lemma huffman_loop_sound:
  assumes "huffman_loop cur r = Some (cur', r')"
  shows "\<exists>s. r' = r @ s \<and> cursor_bits cur = huff_bits s @ cursor_bits cur' \<and>
    (exhausted cur' \<or> 32 \<le> bits_remaining cur')"
  using assms
proof (induction cur r rule: huffman_loop.induct)
  case (1 cur r)
  let ?cur = "fill_cursor cur"
  note fill = fill_cursor_ok [of cur]
  have step: "\<exists>s. r' = r @ s \<and> cursor_bits cur = huff_bits s @ cursor_bits cur' \<and>
      (exhausted cur' \<or> 32 \<le> bits_remaining cur')"
    if ex: "\<exists>s. r' = (r @ [char_of c]) @ s \<and>
        cursor_bits (skip_bits (code_len c) ?cur) = huff_bits s @ cursor_bits cur' \<and>
        (exhausted cur' \<or> 32 \<le> bits_remaining cur')"
      and c: "c < 256" "code_len c \<le> bits_remaining ?cur" "take (code_len c) (cursor_bits ?cur) = code_bits c" for c
  proof -
    obtain s where s: "r' = (r @ [char_of c]) @ s" "exhausted cur' \<or> 32 \<le> bits_remaining cur'"
        "cursor_bits (skip_bits (code_len c) ?cur) = huff_bits s @ cursor_bits cur'" using ex by blast
    have "cursor_bits ?cur = code_bits c @ drop (code_len c) (cursor_bits ?cur)"
      using c(3) by (metis append_take_drop_id)
    then have "cursor_bits cur = huff_bits (char_of c # s) @ cursor_bits cur'"
      using s(3) cursor_bits_skip [of "code_len c" ?cur] c(1,2) fill
      by (simp add: bits_remaining_def)
    then show ?thesis using s(1,2) by (intro exI [of _ "char_of c # s"]) simp
  qed
  show ?case
  proof (cases "\<not> exhausted cur \<or> 5 \<le> bits_remaining cur")
    case False
    then show ?thesis using 1(3) by (subst (asm) huffman_loop.simps) auto
  next
    case go: True
    have run: "try_peek_bits 30 ?cur \<noteq> Some 0x3fffffff"
      using 1(3) go by (subst (asm) huffman_loop.simps) (auto simp: Let_def bits_remaining_def try_peek_bits_def split: if_splits)
    show ?thesis
    proof (cases "bits_remaining ?cur = 0")
      case True
      then have "huffman_loop cur r = Some (?cur, r)"
        using go by (subst huffman_loop.simps) (simp add: Let_def)
      then show ?thesis using 1(3) fill by auto
    next
      case bits: False
      show ?thesis
      proof (cases "lookup_fast ?cur")
        case (Some e)
        obtain c where c: "c < 256" "e = (of_nat c, code_len c)" "code_len c \<le> bits_remaining ?cur"
            "take (code_len c) (cursor_bits ?cur) = code_bits c" by (rule lookup_fast_sound [OF Some])
        have ch: "unat (of_nat c :: u16) = c" using c(1) by (simp add: unat_of_nat)
        have "huffman_loop cur r = huffman_loop (skip_bits (snd e) ?cur) (r @ [char_of (unat (fst e))])"
          using go run bits Some by (subst huffman_loop.simps) (simp add: Let_def)
        then have "huffman_loop (skip_bits (snd e) ?cur) (r @ [char_of (unat (fst e))]) = Some (cur', r')"
          using 1(3) by simp
        from 1(2) [OF _ refl bits run Some this] go show ?thesis
          using c ch by (intro step [of c]) simp_all
      next
        case None
        show ?thesis
        proof (cases "scan_codes ?cur")
          case (Some c)
          note c = scan_codes_Some [OF Some]
          have "huffman_loop cur r = huffman_loop (skip_bits (snd (huffman_table ! c)) ?cur) (r @ [char_of c])"
            using go run bits None Some by (subst huffman_loop.simps) (simp add: Let_def)
          then have "huffman_loop (skip_bits (snd (huffman_table ! c)) ?cur) (r @ [char_of c]) = Some (cur', r')"
            using 1(3) by simp
          from 1(1) [OF _ refl bits run None Some this] go show ?thesis
            using c by (intro step [of c]) (simp_all add: code_len_def)
        next
          case none: None
          have "huffman_loop cur r = Some (?cur, r)"
            using go run bits None none by (subst huffman_loop.simps) (simp add: Let_def)
          then show ?thesis using 1(3) fill by auto
        qed
      qed
    qed
  qed
qed

lemma decode_huffman_sound:
  assumes "decode_huffman ys = s" "s \<noteq> []"
  shows "\<exists>p < 8. bytes_bits ys = huff_bits s @ replicate p True"
proof -
  obtain cur where cur: "huffman_loop (cursor_of ys) [] = Some (cur, s)"
    and n: "bits_remaining cur \<le> 7" and
    pad: "0 < bits_remaining cur \<Longrightarrow> (case try_peek_bits (bits_remaining cur) cur of None \<Rightarrow> False
      | Some v \<Rightarrow> v AND mask (bits_remaining cur) = mask (bits_remaining cur))"
    using assms read_buffered_bits [OF order_refl]
    by (auto simp: decode_huffman_def Let_def push_bit_eq_mult mask_eq_exp_minus_1
        split: option.splits if_splits)
  have s: "cursor_bits (cursor_of ys) = huff_bits s @ cursor_bits cur" "exhausted cur"
    using huffman_loop_sound [OF cur] n by auto
  let ?n = "bits_remaining cur"
  have "cursor_bits cur = replicate ?n True"
  proof (cases "?n = 0")
    case False
    obtain v where v: "try_peek_bits ?n cur = Some v" "word_bits ?n v = take ?n (cursor_bits cur)"
      by (rule peek_bits_value [of ?n cur]) (use n in simp_all)
    have "v AND mask ?n = mask ?n" using pad False v(1) by simp
    then have "word_bits ?n v = replicate ?n True" using n by (intro and_mask_ones) simp_all
    then show ?thesis using v(2) s(2) length_cursor_bits [of cur] by (simp add: exhausted_rest)
  qed (use s(2) length_cursor_bits [of cur] in \<open>simp add: exhausted_rest\<close>)
  then show ?thesis using s(1) n
    by (intro exI [of _ ?n]) (simp add: cursor_bits_def cursor_of_def)
qed

subsection \<open>String literals\<close>

lemma huff_bits_bound: "length (huff_bits s) \<le> 30 * length s"
proof (induction s)
  case (Cons ch s)
  then show ?case using table_entry(2) [of "of_char ch"] by simp
qed simp

lemma int_code_head:
  "\<exists>b bs. int_code v 7 0x80 = b # bs \<and> b AND 0x80 \<noteq> 0"
proof -
  have "(0x80 OR x :: byte) AND 0x80 \<noteq> 0" for x
  proof -
    have "(128 :: byte) = 2 ^ 7" by simp
    then have "bit (0x80 OR x) 7" by (simp only: bit_or_iff bit_exp_iff) simp
    then show ?thesis using and_exp_eq_0_iff_not_bit [of "0x80 OR x" 7] by simp
  qed
  then show ?thesis by (auto simp: int_code_def)
qed

lemma cursor_ok_adv:
  "cursor_ok c \<Longrightarrow> n \<le> length (cur_rest c) \<Longrightarrow> cursor_ok (cur_adv n c)"
  by (rule read_bytes_rest(2))

lemma decode_string_ok:
  assumes out: "encode_string s out = out @ enc" and rest: "cur_rest cur = enc @ rs"
    and ok: "cursor_ok cur" and small: "length s < 2 ^ 29"
  shows "decode_string cur = (cur_adv (length enc) cur, s)"
proof -
  obtain ys pad where e: "encode_huffman s out = out @ int_code (of_nat (length ys)) 7 0x80 @ ys"
      "bytes_bits ys = huff_bits s @ replicate pad True" "pad < 8"
    by (rule encode_huffman_eq)
  let ?ic = "int_code (of_nat (length ys)) 7 0x80"
  have enc: "enc = ?ic @ ys" using e(1) out by (simp add: encode_string_def)
  have "8 * length ys \<le> 30 * length s + 7"
    using arg_cong [OF e(2), of length] e(3) huff_bits_bound [of s] by simp
  then have "length ys < 2 ^ 32" using small by simp
  then have len: "unat (of_nat (length ys) :: u32) = length ys" by (simp add: unat_of_nat)
  obtain b bs where b: "?ic = b # bs" "b AND 0x80 \<noteq> 0" using int_code_head by blast
  have peek: "peek_byte cur = Some b" using rest enc b(1) by (intro peek_rest) simp
  have rest1: "cur_rest cur = ?ic @ ys @ rs" using rest enc by simp
  have di: "decode_integer 7 cur = (cur_adv (length ?ic) cur, of_nat (length ys))"
    by (rule decode_integer_ok [OF _ _ rest1]) (simp_all, code_simp)
  have "cursor_ok (cur_adv (length ?ic) cur)" using rest1 by (intro cursor_ok_adv [OF ok]) simp
  then have rb: "try_read_bytes (length ys) (cur_adv (length ?ic) cur) =
      (cur_adv (length ys) (cur_adv (length ?ic) cur), Some ys)"
    using read_bytes_rest(1) [of "cur_adv (length ?ic) cur" "length ys"] rest1 by simp
  show ?thesis
    using peek b(2) di rb len decode_huffman_ok [OF e(2,3)]
    by (simp add: decode_string_def enc)
qed

text \<open>C6 (huffman_string_roundtrip): a string literal written by \<open>encode_string\<close> is read back by
  \<open>decode_string\<close>, whatever follows it, for every string of fewer than \<open>2 ^ 29\<close> bytes; the
  cursor stops exactly behind the literal, and the bytes written before it are untouched.\<close>

theorem huffman_string_roundtrip:
  assumes "length s < 2 ^ 29" "enc = drop (length out) (encode_string s out)" "length (enc @ rest) < 2 ^ 63"
  shows "encode_string s out = out @ enc \<and>
    decode_string (cursor_of (enc @ rest)) = (cur_adv (length enc) (cursor_of (enc @ rest)), s)"
proof -
  obtain ys pad where "encode_huffman s out = out @ int_code (of_nat (length ys)) 7 0x80 @ ys"
    by (rule encode_huffman_eq)
  then have out: "encode_string s out = out @ enc" by (simp add: assms(2) encode_string_def)
  moreover have "cursor_ok (cursor_of (enc @ rest))"
    using assms(3) by (simp add: cursor_ok_def cursor_of_def bc_size_def)
  ultimately show ?thesis using decode_string_ok [OF out _ _ assms(1), of _ rest] by simp
qed

theorem huffman_string_roundtrip_witness:
  "encode_string ''www'' [0x41] = [0x41, 0x83, 0xF1, 0xE3, 0xC7] \<and>
   snd (decode_string (cursor_of [0x83, 0xF1, 0xE3, 0xC7, 0x88])) = ''www''"
proof -
  have e: "encode_string ''www'' [0x41] = [0x41, 0x83, 0xF1, 0xE3, 0xC7]" by code_simp
  then have d: "[0x83, 0xF1, 0xE3, 0xC7] = drop (length [0x41 :: byte]) (encode_string ''www'' [0x41])" by simp
  show ?thesis using huffman_string_roundtrip [OF _ d, of "[0x88]"] e by simp
qed

text \<open>C8 (decode_huffman_exact): \<open>decode_huffman\<close> returns a non-empty string exactly for the bytes
  whose bits are the codes of its characters followed by fewer than eight one bits; every other
  input (a truncated code, a wrong or too long padding, the EOS code) gives the empty string.\<close>

theorem decode_huffman_exact:
  assumes "s \<noteq> []"
  shows "decode_huffman ys = s \<longleftrightarrow>
    (\<exists>pad < 8. bytes_bits ys = concat (map (\<lambda>ch. word_bits (snd (huffman_table ! of_char ch))
       (fst (huffman_table ! of_char ch))) s) @ replicate pad True)"
  using decode_huffman_ok [of ys s] decode_huffman_sound [of ys s] assms
  unfolding huff_bits_def code_bits_def code_len_def by blast

theorem decode_huffman_exact_witness:
  "decode_huffman [0xF1, 0xE3, 0xC7] = ''www'' \<and> decode_huffman [0xF1, 0xE3, 0xC6] \<noteq> ''www''"
proof -
  let ?codes = "concat (map (\<lambda>ch. word_bits (snd (huffman_table ! of_char ch))
       (fst (huffman_table ! of_char ch))) ''www'')"
  have c: "?codes = [True, True, True, True, False, False, False, True, True, True, True, False, False,
      False, True, True, True, True, False, False, False]" by code_simp
  have a: "bytes_bits [0xF1, 0xE3, 0xC7] = ?codes @ replicate 3 True" unfolding c by code_simp
  have b: "bytes_bits [0xF1, 0xE3, 0xC6] = ?codes @ [True, True, False]" unfolding c by code_simp
  have "\<not> (\<exists>pad < 8. bytes_bits [0xF1, 0xE3, 0xC6] = ?codes @ replicate pad True)"
  proof
    assume "\<exists>pad < 8. bytes_bits [0xF1, 0xE3, 0xC6] = ?codes @ replicate pad True"
    then obtain pad where "[True, True, False] = replicate pad True" unfolding b by auto
    then have "False \<in> set (replicate pad True)" by (metis list.set_intros(1) list.set_intros(2))
    then show False by (auto simp: in_set_replicate)
  qed
  moreover have "\<exists>pad < 8. bytes_bits [0xF1, 0xE3, 0xC7] = ?codes @ replicate pad True"
    using a by (intro exI [of _ 3]) simp
  ultimately show ?thesis
    using decode_huffman_exact [of "''www''" "[0xF1, 0xE3, 0xC7]"]
      decode_huffman_exact [of "''www''" "[0xF1, 0xE3, 0xC6]"] by blast
qed

end
