(* ===== verification/Hpack.thy ===== *)
theory Hpack
  imports HpackCodec "HOL-Library.Sublist"
begin

section \<open>HPACK header compression\<close>

text \<open>
  \<open>hpack_encoder\<close> and \<open>hpack_decoder\<close> of \<open>src/network/http/http2_protocol.cpp\<close>. Both classes
  declare the same three members and define \<open>add_to_dynamic_table\<close>, \<open>evict_for_size\<close> and
  \<open>set_max_table_size\<close> with the same bodies, so one record and one group of definitions stand for
  the tables of both. Sizes kept in \<open>uint32_t\<close> members are words; a \<open>size_t\<close> is a natural
  number, converted to \<open>uint32_t\<close> where the code converts it. The decoder's callback collects the
  headers in a list.
\<close>

type_synonym header_field = "string \<times> string"

definition hpack_static_table :: "header_field list" where
  "hpack_static_table = [
     ('':authority'', ''''),
     ('':method'', ''GET''),
     ('':method'', ''POST''),
     ('':path'', ''/''),
     ('':path'', ''/index.html''),
     ('':scheme'', ''http''),
     ('':scheme'', ''https''),
     ('':status'', ''200''),
     ('':status'', ''204''),
     ('':status'', ''206''),
     ('':status'', ''304''),
     ('':status'', ''400''),
     ('':status'', ''404''),
     ('':status'', ''500''),
     (''accept-charset'', ''''),
     (''accept-encoding'', ''gzip, deflate''),
     (''accept-language'', ''''),
     (''accept-ranges'', ''''),
     (''accept'', ''''),
     (''access-control-allow-origin'', ''''),
     (''age'', ''''),
     (''allow'', ''''),
     (''authorization'', ''''),
     (''cache-control'', ''''),
     (''content-disposition'', ''''),
     (''content-encoding'', ''''),
     (''content-language'', ''''),
     (''content-length'', ''''),
     (''content-location'', ''''),
     (''content-range'', ''''),
     (''content-type'', ''''),
     (''cookie'', ''''),
     (''date'', ''''),
     (''etag'', ''''),
     (''expect'', ''''),
     (''expires'', ''''),
     (''from'', ''''),
     (''host'', ''''),
     (''if-match'', ''''),
     (''if-modified-since'', ''''),
     (''if-none-match'', ''''),
     (''if-range'', ''''),
     (''if-unmodified-since'', ''''),
     (''last-modified'', ''''),
     (''link'', ''''),
     (''location'', ''''),
     (''max-forwards'', ''''),
     (''proxy-authenticate'', ''''),
     (''proxy-authorization'', ''''),
     (''range'', ''''),
     (''referer'', ''''),
     (''refresh'', ''''),
     (''retry-after'', ''''),
     (''server'', ''''),
     (''set-cookie'', ''''),
     (''strict-transport-security'', ''''),
     (''transfer-encoding'', ''''),
     (''user-agent'', ''''),
     (''vary'', ''''),
     (''via'', ''''),
     (''www-authenticate'', '''')
   ]"

record table_entry =
  dt_name :: string
  dt_value :: string
  dt_name_len :: nat
  dt_value_len :: nat

record hpack_table =
  max_table_size :: u32
  current_table_size :: u32
  dynamic_table :: "table_entry list"

definition hpack_new :: "u32 \<Rightarrow> hpack_table" where
  "hpack_new size_max = \<lparr>max_table_size = size_max, current_table_size = 0, dynamic_table = []\<rparr>"

function evict_for_size :: "u32 \<Rightarrow> hpack_table \<Rightarrow> hpack_table" where
  "evict_for_size needed t =
     (if current_table_size t + needed > max_table_size t \<and> dynamic_table t \<noteq> []
      then (let e = last (dynamic_table t)
            in evict_for_size needed
                 (t\<lparr>current_table_size := current_table_size t - of_nat (dt_name_len e + dt_value_len e + 32),
                    dynamic_table := butlast (dynamic_table t)\<rparr>))
      else t)"
  by pat_completeness auto

termination by (relation "measure (\<lambda>(needed, t). length (dynamic_table t))") auto

declare evict_for_size.simps [simp del]

definition set_max_table_size :: "u32 \<Rightarrow> hpack_table \<Rightarrow> hpack_table" where
  "set_max_table_size size_max t = evict_for_size 0 (t\<lparr>max_table_size := size_max\<rparr>)"

definition add_to_dynamic_table :: "string \<Rightarrow> string \<Rightarrow> hpack_table \<Rightarrow> hpack_table" where
  "add_to_dynamic_table name v t =
     (let entry_size = length name + length v + 32;
          t = evict_for_size (of_nat entry_size) t
      in if entry_size > unat (max_table_size t) then t
         else (let entry = \<lparr>dt_name = name, dt_value = v, dt_name_len = length name, dt_value_len = length v\<rparr>
               in t\<lparr>dynamic_table := entry # dynamic_table t,
                    current_table_size := current_table_size t + of_nat entry_size\<rparr>))"

subsection \<open>The encoder\<close>

fun index_from :: "nat \<Rightarrow> ('a \<Rightarrow> bool) \<Rightarrow> 'a list \<Rightarrow> nat option" where
  "index_from i p [] = None"
| "index_from i p (x # xs) = (if p x then Some i else index_from (i + 1) p xs)"

text \<open>\<open>static_cast<int32_t>\<close> of a \<open>size_t\<close>.\<close>

definition to_int32 :: "nat \<Rightarrow> int" where
  "to_int32 n = sint (of_nat n :: u32)"

definition known_field :: "string \<Rightarrow> string \<Rightarrow> int option" where
  "known_field name v =
     (if name = '':status'' then
        (if v = ''200'' then Some 8 else if v = ''204'' then Some 9 else if v = ''206'' then Some 10
         else if v = ''304'' then Some 11 else if v = ''400'' then Some 12
         else if v = ''404'' then Some 13 else if v = ''500'' then Some 14 else None)
      else if name = '':method'' then
        (if v = ''GET'' then Some 2 else if v = ''POST'' then Some 3 else None)
      else if name = '':scheme'' then
        (if v = ''http'' then Some 6 else if v = ''https'' then Some 7 else None)
      else if name = '':path'' then
        (if v = ''/'' then Some 4 else if v = ''/index.html'' then Some 5 else None)
      else None)"

definition find_in_tables :: "string \<Rightarrow> string \<Rightarrow> hpack_table \<Rightarrow> int" where
  "find_in_tables name v t =
     (case known_field name v of
        Some i \<Rightarrow> i
      | None \<Rightarrow>
          (case index_from 0 (\<lambda>e. fst e = name \<and> snd e = v) hpack_static_table of
             Some i \<Rightarrow> to_int32 (i + 1)
           | None \<Rightarrow>
               (case index_from 0 (\<lambda>e. dt_name e = name \<and> dt_value e = v) (dynamic_table t) of
                  Some i \<Rightarrow> to_int32 (61 + i + 1)
                | None \<Rightarrow> - 1)))"

definition known_name :: "string \<Rightarrow> int option" where
  "known_name name =
     (if name = '':authority'' then Some 1 else if name = '':method'' then Some 2
      else if name = '':path'' then Some 4 else if name = '':scheme'' then Some 6
      else if name = '':status'' then Some 8 else if name = ''content-length'' then Some 28
      else if name = ''content-type'' then Some 31 else if name = ''date'' then Some 33
      else if name = ''server'' then Some 54 else None)"

definition find_name_in_tables :: "string \<Rightarrow> hpack_table \<Rightarrow> int" where
  "find_name_in_tables name t =
     (case known_name name of
        Some i \<Rightarrow> i
      | None \<Rightarrow>
          (case index_from 0 (\<lambda>e. fst e = name) hpack_static_table of
             Some i \<Rightarrow> to_int32 (i + 1)
           | None \<Rightarrow>
               (case index_from 0 (\<lambda>e. dt_name e = name) (dynamic_table t) of
                  Some i \<Rightarrow> to_int32 (61 + i + 1)
                | None \<Rightarrow> - 1)))"

text \<open>One header of the loop of \<open>encode\<close>.\<close>

definition encode_header :: "header_field \<Rightarrow> hpack_table \<times> byte list \<Rightarrow> hpack_table \<times> byte list" where
  "encode_header = (\<lambda>(name, v) (t, output).
     (let idx = find_in_tables name v t
      in if idx \<ge> 1 \<and> idx \<le> 61 then (t, encode_integer (of_int idx) 7 (output @ [0x80]))
         else if idx \<ge> 62 then (t, encode_integer (of_int idx) 7 (output @ [0x80]))
         else (let name_idx = find_name_in_tables name t;
                   output =
                     (if name_idx \<ge> 1 then encode_integer (of_int name_idx) 6 (output @ [0x40])
                      else encode_string name (encode_integer 0 6 (output @ [0x40])));
                   output = encode_string v output
               in (add_to_dynamic_table name v t, output))))"

definition hpack_encode :: "header_field list \<Rightarrow> hpack_table \<Rightarrow> hpack_table \<times> byte list" where
  "hpack_encode headers t = fold encode_header headers (t, [])"

subsection \<open>The decoder\<close>

text \<open>The name of a literal field: a string literal, or that of an entry of the tables.\<close>

definition decode_name :: "nat \<Rightarrow> hpack_table \<Rightarrow> byte_cursor \<Rightarrow> byte_cursor \<times> string" where
  "decode_name prefix_bits t cur =
     (let (cur, name_idx) = decode_integer prefix_bits cur
      in if name_idx = 0 then decode_string cur
         else if unat name_idx \<le> 61 then (cur, fst (hpack_static_table ! (unat name_idx - 1)))
         else (let dynamic_idx = unat name_idx - 61 - 1
               in (cur, if dynamic_idx < length (dynamic_table t)
                        then dt_name (dynamic_table t ! dynamic_idx) else [])))"

text \<open>One round of \<open>decode_incremental\<close>: the field that starts with the byte \<open>first\<close>.\<close>

definition decode_field ::
  "byte \<Rightarrow> hpack_table \<Rightarrow> byte_cursor \<Rightarrow> byte_cursor \<times> hpack_table \<times> header_field list" where
  "decode_field first t cur =
     (if first AND 0x80 \<noteq> 0 then
        (let (cur, idx) = decode_integer 7 cur
         in if idx = 0 then (cur, t, [])
            else if unat idx \<le> 61 then (cur, t, [hpack_static_table ! (unat idx - 1)])
            else (let dynamic_idx = unat idx - 61 - 1
                  in if dynamic_idx < length (dynamic_table t)
                     then (cur, t, [(dt_name (dynamic_table t ! dynamic_idx), dt_value (dynamic_table t ! dynamic_idx))])
                     else (cur, t, [])))
      else if first AND 0x40 \<noteq> 0 then
        (let (cur, name) = decode_name 6 t cur; (cur, v) = decode_string cur
         in (cur, add_to_dynamic_table name v t, [(name, v)]))
      else if first AND 0x20 \<noteq> 0 then
        (let (cur, new_size) = decode_integer 5 cur in (cur, set_max_table_size new_size t, []))
      else if first AND 0xF0 = 0x00 then
        (let (cur, name) = decode_name 4 t cur; (cur, v) = decode_string cur in (cur, t, [(name, v)]))
      else if first AND 0xF0 = 0x10 then
        (let (cur, name) = decode_name 4 t cur; (cur, v) = decode_string cur in (cur, t, [(name, v)]))
      else (cur, t, []))"

text \<open>The loop, with the number of rounds it may take: \<open>None\<close> is a loop that goes on.\<close>

fun decode_loop ::
  "nat \<Rightarrow> hpack_table \<Rightarrow> byte_cursor \<Rightarrow> header_field list \<Rightarrow> (hpack_table \<times> header_field list) option" where
  "decode_loop 0 t cur result = None"
| "decode_loop (Suc rounds) t cur result =
     (case (if exhausted cur then None else peek_byte cur) of
        None \<Rightarrow> Some (t, result)
      | Some first \<Rightarrow>
          (let (cur, t, fields) = decode_field first t cur
           in decode_loop rounds t cur (result @ fields)))"

definition hpack_decode :: "byte list \<Rightarrow> hpack_table \<Rightarrow> (hpack_table \<times> header_field list) option" where
  "hpack_decode data t = decode_loop (length data + 1) t (cursor_of data) []"

subsection \<open>The dynamic table\<close>

definition entry_size :: "table_entry \<Rightarrow> nat" where
  "entry_size e = dt_name_len e + dt_value_len e + 32"

definition table_sum :: "table_entry list \<Rightarrow> nat" where
  "table_sum es = sum_list (map entry_size es)"

text \<open>
  The recorded size is the sum of the entry sizes and within the maximum; a maximum of up to
  \<open>2 ^ 31\<close> keeps the sums of the code from wrapping.
\<close>

definition table_ok :: "hpack_table \<Rightarrow> bool" where
  "table_ok t \<longleftrightarrow>
     unat (current_table_size t) = table_sum (dynamic_table t) \<and>
     table_sum (dynamic_table t) \<le> unat (max_table_size t) \<and> unat (max_table_size t) \<le> 2 ^ 31 \<and>
     (\<forall>e \<in> set (dynamic_table t). dt_name_len e = length (dt_name e) \<and> dt_value_len e = length (dt_value e))"

text \<open>The entries, newest first, that fit a budget.\<close>

fun fit :: "nat \<Rightarrow> table_entry list \<Rightarrow> table_entry list" where
  "fit budget [] = []"
| "fit budget (e # es) = (if entry_size e \<le> budget then e # fit (budget - entry_size e) es else [])"

lemma table_sum_simps [simp]:
  "table_sum [] = 0" "table_sum (e # es) = entry_size e + table_sum es"
  "table_sum (es @ es') = table_sum es + table_sum es'"
  by (simp_all add: table_sum_def)

lemma fit_all: "table_sum es \<le> budget \<Longrightarrow> fit budget es = es"
  by (induction budget es rule: fit.induct) auto

lemma fit_sum: "table_sum (fit budget es) \<le> budget"
proof (induction budget es rule: fit.induct)
  case (2 budget e es)
  then show ?case by auto
qed simp

lemma fit_prefix: "prefix (fit budget es) es"
  by (induction budget es rule: fit.induct) auto

lemma fit_snoc: "budget < table_sum (es @ [e]) \<Longrightarrow> fit budget (es @ [e]) = fit budget es"
proof (induction budget es rule: fit.induct)
  case (2 budget x xs)
  then show ?case by auto
qed auto

lemma fit_mono: "prefix es es' \<Longrightarrow> b \<le> b' \<Longrightarrow> prefix (fit b es) (fit b' es')"
proof (induction b es arbitrary: b' es' rule: fit.induct)
  case (2 b e es)
  then obtain zs where es': "es' = e # zs" "prefix es zs" by (cases es') auto
  then show ?case using 2 by auto
qed simp

text \<open>What is left after making room.\<close>

definition room_for :: "nat \<Rightarrow> nat \<Rightarrow> table_entry list \<Rightarrow> table_entry list" where
  "room_for needed size_max es = (if needed \<le> size_max then fit (size_max - needed) es else [])"

lemma evict_ok:
  assumes "unat (current_table_size t) = table_sum (dynamic_table t)"
    "table_sum (dynamic_table t) \<le> 2 ^ 31" "unat needed < 2 ^ 31"
  shows "dynamic_table (evict_for_size needed t) =
      room_for (unat needed) (unat (max_table_size t)) (dynamic_table t) \<and>
    max_table_size (evict_for_size needed t) = max_table_size t \<and>
    unat (current_table_size (evict_for_size needed t)) = table_sum (dynamic_table (evict_for_size needed t))"
  using assms
proof (induction needed t rule: evict_for_size.induct)
  case (1 needed t)
  let ?es = "dynamic_table t" and ?m = "unat (max_table_size t)"
  have sum: "unat (current_table_size t + needed) = table_sum ?es + unat needed"
    using 1(2-4) by (simp add: unat_word_ariths)
  have gt: "current_table_size t + needed > max_table_size t \<longleftrightarrow> ?m < table_sum ?es + unat needed"
    by (simp add: word_less_nat_alt sum)
  show ?case
  proof (cases "?m < table_sum ?es + unat needed \<and> ?es \<noteq> []")
    case False
    then have "evict_for_size needed t = t" using gt by (subst evict_for_size.simps) auto
    moreover have "room_for (unat needed) ?m ?es = ?es"
      using False fit_all [of ?es "?m - unat needed"] by (auto simp: room_for_def)
    ultimately show ?thesis using 1(2) by simp
  next
    case True
    let ?e = "last ?es" and ?bs = "butlast ?es"
    let ?t = "t\<lparr>current_table_size := current_table_size t - of_nat (dt_name_len ?e + dt_value_len ?e + 32),
        dynamic_table := ?bs\<rparr>"
    have es: "?es = ?bs @ [?e]" using True by simp
    have es_sum: "table_sum ?es = table_sum ?bs + entry_size ?e"
      using arg_cong [OF es, of table_sum] by simp
    have size: "dt_name_len ?e + dt_value_len ?e + 32 = entry_size ?e" by (simp add: entry_size_def)
    have e: "unat (of_nat (entry_size ?e) :: u32) = entry_size ?e"
      using es_sum 1(3) by (simp add: unat_of_nat)
    then have "of_nat (entry_size ?e) \<le> current_table_size t"
      using es_sum 1(2) by (simp add: word_le_nat_alt)
    then have cur: "unat (current_table_size ?t) = table_sum (dynamic_table ?t)"
      using es_sum 1(2) e unfolding size by (simp add: unat_sub)
    have ev: "evict_for_size needed t = evict_for_size needed ?t"
      using True gt by (subst evict_for_size.simps) (simp add: Let_def)
    have "room_for (unat needed) ?m ?es = room_for (unat needed) ?m ?bs"
    proof (cases "unat needed \<le> ?m")
      case le: True
      then have "?m - unat needed < table_sum (?bs @ [?e])"
        unfolding es [symmetric] using True by linarith
      then have "fit (?m - unat needed) (?bs @ [?e]) = fit (?m - unat needed) ?bs" by (rule fit_snoc)
      then show ?thesis using le es by (simp add: room_for_def)
    qed (simp add: room_for_def)
    then show ?thesis
      using 1(1) [OF _ refl cur] True gt 1(3,4) es_sum unfolding ev by simp
  qed
qed

lemma set_max_ok:
  assumes "table_ok t" "unat size_max \<le> 2 ^ 31"
  shows "table_ok (set_max_table_size size_max t)"
    "dynamic_table (set_max_table_size size_max t) = fit (unat size_max) (dynamic_table t)"
    "max_table_size (set_max_table_size size_max t) = size_max"
proof -
  let ?t = "t\<lparr>max_table_size := size_max\<rparr>"
  have *: "dynamic_table (evict_for_size 0 ?t) = room_for 0 (unat size_max) (dynamic_table t) \<and>
      max_table_size (evict_for_size 0 ?t) = size_max \<and>
      unat (current_table_size (evict_for_size 0 ?t)) = table_sum (dynamic_table (evict_for_size 0 ?t))"
    using evict_ok [of ?t 0] assms(1) by (simp add: table_ok_def)
  then show "dynamic_table (set_max_table_size size_max t) = fit (unat size_max) (dynamic_table t)"
    "max_table_size (set_max_table_size size_max t) = size_max"
    by (simp_all add: set_max_table_size_def room_for_def)
  show "table_ok (set_max_table_size size_max t)"
    using * assms fit_sum [of "unat size_max" "dynamic_table t"] fit_prefix [of "unat size_max" "dynamic_table t"]
    by (auto simp: table_ok_def set_max_table_size_def room_for_def dest: set_mono_prefix)
qed

definition new_entry :: "string \<Rightarrow> string \<Rightarrow> table_entry" where
  "new_entry name v = \<lparr>dt_name = name, dt_value = v, dt_name_len = length name, dt_value_len = length v\<rparr>"

lemma add_ok:
  assumes ok: "table_ok t" and small: "length name + length v + 32 < 2 ^ 31"
  shows "dynamic_table (add_to_dynamic_table name v t) =
      (if length name + length v + 32 \<le> unat (max_table_size t)
       then new_entry name v # fit (unat (max_table_size t) - (length name + length v + 32)) (dynamic_table t) else [])"
    "max_table_size (add_to_dynamic_table name v t) = max_table_size t"
    "table_ok (add_to_dynamic_table name v t)"
proof -
  let ?n = "length name + length v + 32" and ?m = "unat (max_table_size t)"
  let ?t = "evict_for_size (of_nat ?n) t"
  have n: "unat (of_nat ?n :: u32) = ?n" using small by (simp only: unat_of_nat) simp
  have t: "dynamic_table ?t = room_for ?n ?m (dynamic_table t)" "max_table_size ?t = max_table_size t"
    "unat (current_table_size ?t) = table_sum (dynamic_table ?t)"
    using evict_ok [of t "of_nat ?n"] ok small unfolding n by (simp_all add: table_ok_def)
  have a: "add_to_dynamic_table name v t = (if ?n > ?m then ?t
      else ?t\<lparr>dynamic_table := new_entry name v # dynamic_table ?t,
              current_table_size := current_table_size ?t + of_nat ?n\<rparr>)"
    using t(2) by (simp add: add_to_dynamic_table_def Let_def new_entry_def)
  show "dynamic_table (add_to_dynamic_table name v t) =
      (if ?n \<le> ?m then new_entry name v # fit (?m - ?n) (dynamic_table t) else [])"
    "max_table_size (add_to_dynamic_table name v t) = max_table_size t"
    using t a by (simp_all add: room_for_def)
  show "table_ok (add_to_dynamic_table name v t)"
  proof (cases "?n > ?m")
    case True
    then show ?thesis using a t ok by (auto simp: table_ok_def room_for_def)
  next
    case False
    have s: "table_sum (dynamic_table ?t) + ?n \<le> ?m"
      using False fit_sum [of "?m - ?n" "dynamic_table t"] t(1) by (simp add: room_for_def)
    have "unat (current_table_size ?t + of_nat ?n) = table_sum (dynamic_table ?t) + ?n"
      using s ok t(3) n unfolding table_ok_def by (simp only: unat_word_ariths) simp
    moreover have "set (dynamic_table ?t) \<subseteq> set (dynamic_table t)"
      using t(1) fit_prefix set_mono_prefix by (fastforce simp: room_for_def)
    moreover have "entry_size (new_entry name v) = ?n" by (simp add: entry_size_def new_entry_def)
    ultimately show ?thesis
      using a t s ok False by (auto simp: table_ok_def new_entry_def)
  qed
qed
subsection \<open>The indexes the encoder finds\<close>

lemma static_length [simp]: "length hpack_static_table = 61"
  by (simp add: hpack_static_table_def)

lemma index_from_Some:
  "index_from i p xs = Some k \<Longrightarrow> i \<le> k \<and> k < i + length xs \<and> p (xs ! (k - i))"
proof (induction xs arbitrary: i)
  case (Cons x xs)
  show ?case
  proof (cases "p x")
    case False
    then have "index_from (i + 1) p xs = Some k" using Cons.prems by simp
    note k = Cons.IH [OF this]
    then have "k - i = Suc (k - (i + 1))" by linarith
    then show ?thesis using k by simp
  qed (use Cons.prems in auto)
qed simp

lemma to_int32_small: "n < 2 ^ 31 \<Longrightarrow> to_int32 n = int n"
  by (simp add: to_int32_def signed_of_nat signed_take_bit_int_eq_self)

lemma dyn_table_length:
  assumes "table_ok t"
  shows "length (dynamic_table t) \<le> 2 ^ 26"
proof -
  have "32 * length es \<le> table_sum es" for es
    by (induction es) (auto simp: entry_size_def)
  from this [of "dynamic_table t"] show ?thesis using assms by (simp add: table_ok_def)
qed

text \<open>The entry behind an index of either table.\<close>

definition entry_at :: "hpack_table \<Rightarrow> nat \<Rightarrow> header_field" where
  "entry_at t n =
     (if n \<le> 61 then hpack_static_table ! (n - 1)
      else (dt_name (dynamic_table t ! (n - 62)), dt_value (dynamic_table t ! (n - 62))))"

definition index_ok :: "hpack_table \<Rightarrow> nat \<Rightarrow> bool" where
  "index_ok t n \<longleftrightarrow> 1 \<le> n \<and> n < 62 + length (dynamic_table t)"

lemma known_field_ok:
  assumes "known_field name v = Some i"
  shows "\<exists>n. i = int n \<and> 1 \<le> n \<and> n \<le> 61 \<and> hpack_static_table ! (n - 1) = (name, v)"
proof -
  have "i \<in> {8, 9, 10, 11, 12, 13, 14, 2, 3, 6, 7, 4, 5}" and "hpack_static_table ! (nat i - 1) = (name, v)"
    using assms unfolding known_field_def hpack_static_table_def by (auto split: if_splits)
  then show ?thesis by (intro exI [of _ "nat i"]) auto
qed

lemma known_name_ok:
  assumes "known_name name = Some i"
  shows "\<exists>n. i = int n \<and> 1 \<le> n \<and> n \<le> 61 \<and> fst (hpack_static_table ! (n - 1)) = name"
proof -
  have "i \<in> {1, 2, 4, 6, 8, 28, 31, 33, 54}" and "fst (hpack_static_table ! (nat i - 1)) = name"
    using assms unfolding known_name_def hpack_static_table_def by (auto split: if_splits)
  then show ?thesis by (intro exI [of _ "nat i"]) auto
qed

lemma find_in_tables_ok:
  assumes "table_ok t" "find_in_tables name v t \<ge> 1"
  obtains n where "find_in_tables name v t = int n" "index_ok t n" "entry_at t n = (name, v)"
proof (cases "known_field name v")
  case (Some i)
  then show ?thesis
    using known_field_ok [OF Some] that by (auto simp: find_in_tables_def index_ok_def entry_at_def)
next
  case kf: None
  show ?thesis
  proof (cases "index_from 0 (\<lambda>e. fst e = name \<and> snd e = v) hpack_static_table")
    case (Some i)
    then show ?thesis
      using index_from_Some [OF Some] kf to_int32_small [of "i + 1"] that [of "i + 1"]
      by (auto simp: find_in_tables_def index_ok_def entry_at_def)
  next
    case st: None
    show ?thesis
    proof (cases "index_from 0 (\<lambda>e. dt_name e = name \<and> dt_value e = v) (dynamic_table t)")
      case (Some i)
      then show ?thesis
        using index_from_Some [OF Some] kf st dyn_table_length [OF assms(1)] to_int32_small [of "61 + i + 1"]
          that [of "61 + i + 1"]
        by (auto simp: find_in_tables_def index_ok_def entry_at_def)
    qed (use kf st assms(2) in \<open>simp add: find_in_tables_def\<close>)
  qed
qed

lemma find_name_in_tables_ok:
  assumes "table_ok t" "find_name_in_tables name t \<ge> 1"
  obtains n where "find_name_in_tables name t = int n" "index_ok t n" "fst (entry_at t n) = name"
proof (cases "known_name name")
  case (Some i)
  then show ?thesis
    using known_name_ok [OF Some] that by (auto simp: find_name_in_tables_def index_ok_def entry_at_def)
next
  case kf: None
  show ?thesis
  proof (cases "index_from 0 (\<lambda>e. fst e = name) hpack_static_table")
    case (Some i)
    then show ?thesis
      using index_from_Some [OF Some] kf to_int32_small [of "i + 1"] that [of "i + 1"]
      by (auto simp: find_name_in_tables_def index_ok_def entry_at_def)
  next
    case st: None
    show ?thesis
    proof (cases "index_from 0 (\<lambda>e. dt_name e = name) (dynamic_table t)")
      case (Some i)
      then show ?thesis
        using index_from_Some [OF Some] kf st dyn_table_length [OF assms(1)] to_int32_small [of "61 + i + 1"]
          that [of "61 + i + 1"]
        by (auto simp: find_name_in_tables_def index_ok_def entry_at_def)
    qed (use kf st assms(2) in \<open>simp add: find_name_in_tables_def\<close>)
  qed
qed
subsection \<open>Encoder and decoder in step\<close>

text \<open>
  The encoder's table is a front part of the decoder's and its maximum is no larger: every index
  the encoder uses means the same entry to the decoder.
\<close>

definition in_step :: "hpack_table \<Rightarrow> hpack_table \<Rightarrow> bool" where
  "in_step te td \<longleftrightarrow>
     table_ok te \<and> table_ok td \<and> max_table_size te \<le> max_table_size td \<and>
     prefix (dynamic_table te) (dynamic_table td)"

lemma in_step_add:
  assumes "in_step te td" "length name + length v + 32 < 2 ^ 31"
  shows "in_step (add_to_dynamic_table name v te) (add_to_dynamic_table name v td)"
proof -
  have te: "table_ok te" and td: "table_ok td" and m: "unat (max_table_size te) \<le> unat (max_table_size td)"
    and p: "prefix (dynamic_table te) (dynamic_table td)"
    using assms(1) by (simp_all add: in_step_def word_le_nat_alt)
  let ?n = "length name + length v + 32"
  have "prefix (fit (unat (max_table_size te) - ?n) (dynamic_table te))
      (fit (unat (max_table_size td) - ?n) (dynamic_table td))"
    by (rule fit_mono [OF p]) (use m in simp)
  then show ?thesis
    using add_ok [OF te assms(2)] add_ok [OF td assms(2)] m by (simp add: in_step_def word_le_nat_alt)
qed

lemma in_step_index:
  assumes "in_step te td" "index_ok te n"
  shows "index_ok td n" "entry_at td n = entry_at te n" "n < 2 ^ 27"
proof -
  obtain zs where z: "dynamic_table td = dynamic_table te @ zs"
    using assms(1) by (auto simp: in_step_def prefix_def)
  show "index_ok td n" using assms(2) z by (simp add: index_ok_def)
  show "entry_at td n = entry_at te n" using assms(2) z by (auto simp: index_ok_def entry_at_def nth_append)
  show "n < 2 ^ 27" using assms dyn_table_length [of te] by (simp add: in_step_def index_ok_def)
qed

lemma byte_and_bit: "(b AND 2 ^ k :: byte) = 0 \<longleftrightarrow> \<not> bit b k"
  by (rule and_exp_eq_0_iff_not_bit)

lemma byte_flags:
  "(b AND 0x80 :: byte) = 0 \<longleftrightarrow> \<not> bit b 7" "(b AND 0x40 :: byte) = 0 \<longleftrightarrow> \<not> bit b 6"
  using byte_and_bit [of b 7] byte_and_bit [of b 6] by simp_all

lemma bit_flag_bytes:
  "bit (0x80 :: byte) 7" "\<not> bit (0x40 :: byte) 7" "bit (0x40 :: byte) 6"
  by code_simp+

lemma int_code_bits:
  assumes "p \<le> i" "i < 8"
  shows "bit (hd (int_code v p b)) i \<longleftrightarrow> bit b i"
proof -
  have "\<not> bit (ucast v :: byte) i" if "unat v < 2 ^ p - 1"
  proof -
    have "(2 :: nat) ^ p \<le> 2 ^ i" using assms(1) by (intro power_increasing) auto
    then have "unat v < 2 ^ i" using that by linarith
    then have "\<not> bit (unat v) i" by (simp add: bit_iff_odd)
    then show ?thesis by (simp add: bit_unsigned_iff)
  qed
  then show ?thesis using assms by (auto simp: int_code_def bit_or_iff bit_mask_iff)
qed

lemma int_code_not_Nil [simp]: "int_code v p b \<noteq> []"
  by (simp add: int_code_def)

text \<open>An indexed field.\<close>

lemma decode_indexed:
  assumes rest: "cur_rest cur = int_code (of_nat n) 7 0x80 @ rs" and n: "index_ok td n" "n < 2 ^ 27"
    and enc: "enc = int_code (of_nat n) 7 0x80"
  shows "decode_field (hd enc) td cur = (cur_adv (length enc) cur, td, [entry_at td n])"
proof -
  have u: "unat (of_nat n :: u32) = n" using n(2) by (simp add: unat_of_nat)
  then have nz: "(of_nat n :: u32) \<noteq> 0" using n(1) by (metis index_ok_def not_one_le_zero unat_0)
  have "hd enc AND 0x80 \<noteq> 0"
    unfolding enc byte_flags using int_code_bits [of 7 7 "of_nat n" "0x80"] bit_flag_bytes by simp
  moreover have "decode_integer 7 cur = (cur_adv (length enc) cur, of_nat n)"
    unfolding enc by (rule decode_integer_ok [OF _ _ rest]) (simp_all, code_simp)
  ultimately show ?thesis
    using u nz n(1) by (auto simp: decode_field_def entry_at_def index_ok_def Let_def)
qed

text \<open>The name of a literal field with incremental indexing.\<close>

lemma decode_name_index:
  assumes rest: "cur_rest cur = int_code (of_nat n) 6 0x40 @ rs" and n: "index_ok td n" "n < 2 ^ 27"
  shows "decode_name 6 td cur = (cur_adv (length (int_code (of_nat n) 6 0x40)) cur, fst (entry_at td n))"
proof -
  have u: "unat (of_nat n :: u32) = n" using n(2) by (simp add: unat_of_nat)
  then have nz: "(of_nat n :: u32) \<noteq> 0" using n(1) by (metis index_ok_def not_one_le_zero unat_0)
  have "decode_integer 6 cur = (cur_adv (length (int_code (of_nat n) 6 0x40)) cur, of_nat n)"
    by (rule decode_integer_ok [OF _ _ rest]) (simp_all, code_simp)
  then show ?thesis using u nz n(1) by (auto simp: decode_name_def entry_at_def index_ok_def Let_def)
qed

lemma decode_name_string:
  assumes rest: "cur_rest cur = int_code 0 6 0x40 @ enc @ rs" and ok: "cursor_ok cur"
    and enc: "encode_string name out = out @ enc" "length name < 2 ^ 29"
  shows "decode_name 6 td cur = (cur_adv (length (int_code 0 6 0x40 @ enc)) cur, name)"
proof -
  have di: "decode_integer 6 cur = (cur_adv (length (int_code 0 6 0x40)) cur, 0)"
    by (rule decode_integer_ok [OF _ _ rest]) (simp_all, code_simp)
  have "cursor_ok (cur_adv (length (int_code 0 6 0x40)) cur)"
    using rest by (intro cursor_ok_adv [OF ok]) simp
  then have "decode_string (cur_adv (length (int_code 0 6 0x40)) cur) =
      (cur_adv (length enc) (cur_adv (length (int_code 0 6 0x40)) cur), name)"
    by (intro decode_string_ok [OF enc(1) _ _ enc(2)]) (simp_all add: rest)
  then show ?thesis using di by (simp add: decode_name_def)
qed

text \<open>A literal field whose name part has been read.\<close>

lemma decode_literal:
  assumes nm: "decode_name 6 td cur = (cur_adv (length nc) cur, name)"
    and rest: "cur_rest cur = nc @ vc @ rs" and ok: "cursor_ok cur"
    and v: "encode_string v out = out @ vc" "length v < 2 ^ 29"
    and first: "bit first 6" "\<not> bit first 7"
  shows "decode_field first td cur =
    (cur_adv (length (nc @ vc)) cur, add_to_dynamic_table name v td, [(name, v)])"
proof -
  have "cursor_ok (cur_adv (length nc) cur)" using rest by (intro cursor_ok_adv [OF ok]) simp
  then have "decode_string (cur_adv (length nc) cur) = (cur_adv (length vc) (cur_adv (length nc) cur), v)"
    by (intro decode_string_ok [OF v(1) _ _ v(2)]) (simp_all add: rest)
  then show ?thesis using nm first byte_flags [of first] by (simp add: decode_field_def)
qed

lemma encode_string_append:
  obtains enc where "encode_string s out = out @ enc"
proof -
  obtain ys pad where "encode_huffman s out = out @ int_code (of_nat (length ys)) 7 0x80 @ ys"
    by (rule encode_huffman_eq)
  then show thesis using that by (simp add: encode_string_def)
qed

definition field_small :: "header_field \<Rightarrow> bool" where
  "field_small f \<longleftrightarrow> length (fst f) < 2 ^ 29 \<and> length (snd f) < 2 ^ 29"

lemma encode_header_ok:
  assumes step: "in_step te td" and small: "field_small (name, v)"
    and run: "encode_header (name, v) (te, out) = (te', out')"
  shows "\<exists>enc td'. out' = out @ enc \<and> enc \<noteq> [] \<and> in_step te' td' \<and>
    (\<forall>cur rs. cur_rest cur = enc @ rs \<longrightarrow> cursor_ok cur \<longrightarrow>
      decode_field (hd enc) td cur = (cur_adv (length enc) cur, td', [(name, v)]))"
proof (cases "find_in_tables name v te \<ge> 1")
  case True
  have te: "table_ok te" using step by (simp add: in_step_def)
  obtain n where n: "find_in_tables name v te = int n" "index_ok te n" "entry_at te n = (name, v)"
    by (rule find_in_tables_ok [OF te True])
  note i = in_step_index [OF step n(2)]
  let ?enc = "int_code (of_nat n) 7 0x80"
  have "te' = te" "out' = out @ ?enc"
    using run True n(1) by (auto simp: encode_header_def encode_integer_eq Let_def split: if_splits)
  then show ?thesis
    using step n(3) i decode_indexed [OF _ i(1,3) refl] by (intro exI [of _ ?enc] exI [of _ td]) auto
next
  case False
  have te: "table_ok te" using step by (simp add: in_step_def)
  have sm: "length name < 2 ^ 29" "length v < 2 ^ 29" using small by (simp_all add: field_small_def)
  have add: "in_step (add_to_dynamic_table name v te) (add_to_dynamic_table name v td)"
    by (rule in_step_add [OF step]) (use sm in simp)
  show ?thesis
  proof (cases "find_name_in_tables name te \<ge> 1")
    case True
    obtain n where n: "find_name_in_tables name te = int n" "index_ok te n" "fst (entry_at te n) = name"
      by (rule find_name_in_tables_ok [OF te True])
    note i = in_step_index [OF step n(2)]
    let ?nc = "int_code (of_nat n) 6 0x40"
    obtain vc where vc: "encode_string v (out @ ?nc) = (out @ ?nc) @ vc" by (rule encode_string_append)
    have r: "te' = add_to_dynamic_table name v te" "out' = out @ ?nc @ vc"
      using run False True n(1) vc by (auto simp: encode_header_def encode_integer_eq Let_def)
    have "decode_field (hd (?nc @ vc)) td cur =
        (cur_adv (length (?nc @ vc)) cur, add_to_dynamic_table name v td, [(name, v)])"
      if "cur_rest cur = (?nc @ vc) @ rs" "cursor_ok cur" for cur rs
      using decode_name_index [OF _ i(1,3), of cur "vc @ rs"] that n(3) i(2)
        int_code_bits [of 6 6 "of_nat n" "0x40"] int_code_bits [of 6 7 "of_nat n" "0x40"] bit_flag_bytes
      by (intro decode_literal [OF _ _ that(2) vc sm(2)]) (simp_all add: hd_append)
    then show ?thesis using r add by (intro exI [of _ "?nc @ vc"] exI [of _ "add_to_dynamic_table name v td"]) simp
  next
    case noname: False
    let ?ic = "int_code 0 6 0x40"
    obtain sc where sc: "encode_string name (out @ ?ic) = (out @ ?ic) @ sc" by (rule encode_string_append)
    obtain vc where vc: "encode_string v ((out @ ?ic) @ sc) = ((out @ ?ic) @ sc) @ vc" by (rule encode_string_append)
    have r: "te' = add_to_dynamic_table name v te" "out' = out @ (?ic @ sc) @ vc"
      using run False noname sc vc by (auto simp: encode_header_def encode_integer_eq Let_def)
    have "decode_field (hd ((?ic @ sc) @ vc)) td cur =
        (cur_adv (length ((?ic @ sc) @ vc)) cur, add_to_dynamic_table name v td, [(name, v)])"
      if "cur_rest cur = ((?ic @ sc) @ vc) @ rs" "cursor_ok cur" for cur rs
      using decode_name_string [OF _ that(2) sc sm(1), of "vc @ rs"] that
        int_code_bits [of 6 6 0 "0x40"] int_code_bits [of 6 7 0 "0x40"] bit_flag_bytes
      by (intro decode_literal [OF _ _ that(2) vc sm(2)]) (simp_all add: hd_append)
    then show ?thesis
      using r add by (intro exI [of _ "(?ic @ sc) @ vc"] exI [of _ "add_to_dynamic_table name v td"]) simp
  qed
qed
lemma encode_headers_ok:
  assumes "in_step te td" "\<forall>f \<in> set hs. field_small f" "fold encode_header hs (te, out) = (te', out')"
  shows "\<exists>enc td'. out' = out @ enc \<and> length hs \<le> length enc \<and> in_step te' td' \<and>
    (\<forall>cur rs rounds result. cur_rest cur = enc @ rs \<longrightarrow> cursor_ok cur \<longrightarrow>
      decode_loop (length hs + rounds) td cur result =
      decode_loop rounds td' (cur_adv (length enc) cur) (result @ hs))"
  using assms
proof (induction hs arbitrary: te td out)
  case Nil
  then show ?case by (intro exI [of _ "[]"] exI [of _ td]) simp
next
  case (Cons f hs)
  obtain name v where f: "f = (name, v)" by (cases f)
  obtain te1 out1 where run1: "encode_header (name, v) (te, out) = (te1, out1)"
    by (cases "encode_header (name, v) (te, out)")
  have "field_small (name, v)" using Cons.prems(2) f by simp
  from encode_header_ok [OF Cons.prems(1) this run1] obtain e1 td1 where
    e1: "out1 = out @ e1" "e1 \<noteq> []" "in_step te1 td1" and
    d1: "\<And>cur rs. cur_rest cur = e1 @ rs \<Longrightarrow> cursor_ok cur \<Longrightarrow>
      decode_field (hd e1) td cur = (cur_adv (length e1) cur, td1, [(name, v)])" by blast
  obtain e2 td' where e2: "out' = out1 @ e2" "length hs \<le> length e2" "in_step te' td'" and
    d2: "\<And>cur rs rounds result. cur_rest cur = e2 @ rs \<Longrightarrow> cursor_ok cur \<Longrightarrow>
      decode_loop (length hs + rounds) td1 cur result =
      decode_loop rounds td' (cur_adv (length e2) cur) (result @ hs)"
    using Cons.IH [OF e1(3), of out1] Cons.prems(2,3) f run1 by auto
  have "decode_loop (length (f # hs) + rounds) td cur result =
      decode_loop rounds td' (cur_adv (length (e1 @ e2)) cur) (result @ f # hs)"
    if rest: "cur_rest cur = (e1 @ e2) @ rs" and ok: "cursor_ok cur" for cur rs rounds result
  proof -
    have "cur_rest cur = hd e1 # tl (e1 @ e2 @ rs)" using rest e1(2) by (cases e1) auto
    then have peek: "peek_byte cur = Some (hd e1)" "\<not> exhausted cur"
      using peek_rest by (auto simp: exhausted_rest)
    have ok1: "cursor_ok (cur_adv (length e1) cur)" using rest by (intro cursor_ok_adv [OF ok]) simp
    have "decode_loop (length (f # hs) + rounds) td cur result =
        decode_loop (length hs + rounds) td1 (cur_adv (length e1) cur) (result @ [(name, v)])"
      using peek d1 [of cur "e2 @ rs"] rest ok by simp
    also have "\<dots> = decode_loop rounds td' (cur_adv (length (e1 @ e2)) cur) (result @ f # hs)"
      using d2 [of "cur_adv (length e1) cur" rs] rest ok1 f by simp
    finally show ?thesis .
  qed
  moreover have "length (f # hs) \<le> length (e1 @ e2)" using e1(2) e2(2) by (cases e1) auto
  ultimately show ?case
    using e1(1) e2(1,3) by (intro exI [of _ "e1 @ e2"] exI [of _ td']) simp
qed

subsection \<open>The decoder ends\<close>

definition reads_on :: "byte_cursor \<Rightarrow> byte_cursor \<Rightarrow> bool" where
  "reads_on cur cur' \<longleftrightarrow> cursor_ok cur' \<and> bc_size cur' = bc_size cur \<and> bc_pos cur \<le> bc_pos cur'"

lemma reads_on_refl: "cursor_ok cur \<Longrightarrow> reads_on cur cur"
  by (simp add: reads_on_def)

lemma reads_on_trans: "reads_on a b \<Longrightarrow> reads_on b c \<Longrightarrow> reads_on a c"
  by (simp add: reads_on_def)

lemma reads_on_byte: "cursor_ok cur \<Longrightarrow> reads_on cur (fst (try_read_byte cur))"
  by (auto simp: reads_on_def try_read_byte_def cursor_ok_def bc_size_def)

lemma reads_on_bytes: "cursor_ok cur \<Longrightarrow> reads_on cur (fst (try_read_bytes (unat (n :: u32)) cur))"
proof -
  assume ok: "cursor_ok cur"
  have "unat n < 2 ^ LENGTH(32)" by (rule unsigned_less)
  then have "unat n \<le> 2 ^ 63" by simp
  then show ?thesis using ok runs_past_ok [OF ok] advance_ok [OF ok]
    by (auto simp: reads_on_def try_read_bytes_def cursor_ok_def cur_remaining_def bc_size_def)
qed

lemma reads_on_integer_loop: "cursor_ok cur \<Longrightarrow> reads_on cur (fst (decode_integer_loop k v m cur))"
proof (induction k v m cur rule: decode_integer_loop.induct)
  case (2 k v m cur)
  note b = reads_on_byte [OF 2(2)]
  obtain cur1 r where r: "try_read_byte cur = (cur1, r)" by (cases "try_read_byte cur")
  then have c1: "reads_on cur cur1" using b by simp
  then have ok1: "cursor_ok cur1" by (simp add: reads_on_def)
  show ?case
  proof (cases r)
    case (Some x)
    have "reads_on cur1 (fst (decode_integer_loop k (v + push_bit m (ucast (x AND 0x7F))) (m + 7) cur1))"
      if "\<not> v + push_bit m (ucast (x AND 0x7F)) > 0xFFFFFFFF" "\<not> x AND 0x80 = 0"
      using 2(1) [OF r [symmetric] Some refl that ok1] .
    then show ?thesis using r Some c1 reads_on_trans [OF c1] by (auto simp: Let_def)
  qed (use r c1 in simp)
qed (simp add: reads_on_refl)

lemma reads_on_integer:
  assumes "cursor_ok cur"
  shows "reads_on cur (fst (decode_integer p cur))"
    "\<not> exhausted cur \<Longrightarrow> bc_pos cur < bc_pos (fst (decode_integer p cur))"
proof -
  obtain cur1 r where r: "try_read_byte cur = (cur1, r)" by (cases "try_read_byte cur")
  have c1: "reads_on cur cur1" using reads_on_byte [OF assms] r by simp
  then have "cursor_ok cur1" by (simp add: reads_on_def)
  note l = reads_on_integer_loop [OF this]
  show "reads_on cur (fst (decode_integer p cur))"
    using r c1 reads_on_trans [OF c1 l] by (auto simp: decode_integer_def Let_def split: option.splits)
  assume "\<not> exhausted cur"
  then have "bc_pos cur < bc_pos cur1" "r \<noteq> None"
    using r by (auto simp: try_read_byte_def exhausted_def split: if_splits)
  then show "bc_pos cur < bc_pos (fst (decode_integer p cur))"
    using r c1 l by (auto simp: decode_integer_def Let_def reads_on_def split: option.splits)
      (meson less_le_trans)+
qed
lemma reads_on_ok: "reads_on a b \<Longrightarrow> cursor_ok b"
  by (simp add: reads_on_def)

lemma reads_on_string: "cursor_ok cur \<Longrightarrow> reads_on cur (fst (decode_string cur))"
proof -
  assume ok: "cursor_ok cur"
  obtain cur1 n where r: "decode_integer 7 cur = (cur1, n)" by (cases "decode_integer 7 cur")
  then have c1: "reads_on cur cur1" using reads_on_integer(1) [OF ok, of 7] by simp
  have c2: "reads_on cur (fst (try_read_bytes (unat n) cur1))"
    by (rule reads_on_trans [OF c1 reads_on_bytes [OF reads_on_ok [OF c1]]])
  show ?thesis
    using r c2 reads_on_refl [OF ok] by (auto simp: decode_string_def Let_def split: option.splits prod.splits)
qed

lemma reads_on_name:
  assumes "cursor_ok cur"
  shows "reads_on cur (fst (decode_name p t cur))"
    "\<not> exhausted cur \<Longrightarrow> bc_pos cur < bc_pos (fst (decode_name p t cur))"
proof -
  obtain cur1 n where r: "decode_integer p cur = (cur1, n)" by (cases "decode_integer p cur")
  then have c1: "reads_on cur cur1" and p1: "\<not> exhausted cur \<Longrightarrow> bc_pos cur < bc_pos cur1"
    using reads_on_integer [OF assms, of p] by simp_all
  have c2: "reads_on cur1 (fst (decode_string cur1))" by (rule reads_on_string [OF reads_on_ok [OF c1]])
  have d: "fst (decode_name p t cur) = (if n = 0 then fst (decode_string cur1) else cur1)"
    using r by (simp add: decode_name_def Let_def)
  show "reads_on cur (fst (decode_name p t cur))"
    unfolding d using c1 reads_on_trans [OF c1 c2] by simp
  assume "\<not> exhausted cur"
  then show "bc_pos cur < bc_pos (fst (decode_name p t cur))"
    unfolding d using p1 c2 by (auto simp: reads_on_def)
qed

text \<open>Every first byte falls under one of the five field formats.\<close>

lemma field_formats:
  assumes "(b AND 0x80 :: byte) = 0" "b AND 0x40 = 0" "b AND 0x20 = 0"
  shows "b AND 0xF0 = 0 \<or> b AND 0xF0 = 0x10"
proof -
  have z: "\<not> bit b 7" "\<not> bit b 6" "\<not> bit b 5"
    using assms byte_and_bit [of b 7] byte_and_bit [of b 6] byte_and_bit [of b 5] by simp_all
  have m: "(0xF0 :: byte) = push_bit 4 (mask 4)" by (simp add: mask_eq_exp_minus_1 push_bit_eq_mult)
  have cs: "i = 4 \<or> i = 5 \<or> i = 6 \<or> i = 7" if "4 \<le> i" "i < 8" for i :: nat using that by linarith
  have "b AND 0xF0 = push_bit 4 (of_bool (bit b 4))"
  proof (rule bit_word_eqI)
    fix i assume "i < LENGTH(8)"
    then show "bit (b AND 0xF0) i \<longleftrightarrow> bit (push_bit 4 (of_bool (bit b 4)) :: byte) i"
      unfolding m using z cs [of i] by (auto simp: bit_and_iff bit_push_bit_iff bit_mask_iff bit_of_bool_iff)
  qed
  then show ?thesis by (cases "bit b 4") simp_all
qed

lemma decode_field_reads:
  assumes ok: "cursor_ok cur" and more: "\<not> exhausted cur" and run: "decode_field first t cur = (cur', t', fs)"
  shows "reads_on cur cur'" "bc_pos cur < bc_pos cur'"
proof -
  have int: "reads_on cur (fst (decode_integer p cur))" "bc_pos cur < bc_pos (fst (decode_integer p cur))" for p
    using reads_on_integer [OF ok] more by blast+
  have lit: "reads_on cur (fst (decode_string (fst (decode_name p t cur)))) \<and>
      bc_pos cur < bc_pos (fst (decode_string (fst (decode_name p t cur))))" for p
  proof -
    note n = reads_on_name [OF ok, of p t]
    note s = reads_on_string [OF reads_on_ok [OF n(1)]]
    show ?thesis using reads_on_trans [OF n(1) s] n(2) [OF more] s by (auto simp: reads_on_def)
  qed
  have "\<exists>p. cur' = fst (decode_integer p cur) \<or> cur' = fst (decode_string (fst (decode_name p t cur)))"
    using run field_formats [of first]
    by (auto simp: decode_field_def Let_def case_prod_beta split: if_splits)
  then show "reads_on cur cur'" "bc_pos cur < bc_pos cur'" using int lit by blast+
qed

lemma decode_loop_total:
  "cursor_ok cur \<Longrightarrow> cur_remaining cur < rounds \<Longrightarrow> decode_loop rounds t cur result \<noteq> None"
proof (induction rounds t cur result rule: decode_loop.induct)
  case (2 rounds t cur result)
  show ?case
  proof (cases "exhausted cur")
    case False
    obtain first where first: "peek_byte cur = Some first"
      using False by (auto simp: exhausted_def peek_byte_def)
    obtain cur1 t1 fs where d: "decode_field first t cur = (cur1, t1, fs)" by (metis prod_cases3)
    note r = decode_field_reads [OF 2(2) False d]
    have "cur_remaining cur1 < rounds"
      using r 2(3) False by (auto simp: cur_remaining_def reads_on_def cursor_ok_def exhausted_def)
    from 2(1) [OF _ refl d [symmetric] refl reads_on_ok [OF r(1)] this] show ?thesis
      using first False d by simp
  qed simp
qed simp

lemma in_step_new: "unat n \<le> unat m \<Longrightarrow> unat m \<le> 2 ^ 31 \<Longrightarrow> in_step (hpack_new n) (hpack_new m)"
  by (simp add: in_step_def table_ok_def hpack_new_def word_le_nat_alt)

lemma hpack_block_ok:
  assumes "in_step te td" "\<forall>f \<in> set headers. field_small f"
    "hpack_encode headers te = (te', bytes)" "length bytes < 2 ^ 63"
  shows "\<exists>td'. hpack_decode bytes td = Some (td', headers) \<and> in_step te' td'"
proof -
  obtain enc td' where e: "bytes = [] @ enc" "length headers \<le> length enc" "in_step te' td'" and
    d: "\<And>cur rs rounds result. cur_rest cur = enc @ rs \<Longrightarrow> cursor_ok cur \<Longrightarrow>
      decode_loop (length headers + rounds) td cur result =
      decode_loop rounds td' (cur_adv (length enc) cur) (result @ headers)"
    using encode_headers_ok [OF assms(1,2)] assms(3) unfolding hpack_encode_def by blast
  have ok: "cursor_ok (cursor_of bytes)" using assms(4) by (simp add: cursor_ok_def cursor_of_def bc_size_def)
  have "decode_loop (length headers + Suc (length enc - length headers)) td (cursor_of bytes) [] =
      decode_loop (Suc (length enc - length headers)) td' (cur_adv (length enc) (cursor_of bytes)) headers"
    using d [of "cursor_of bytes" "[]" "Suc (length enc - length headers)" "[]"] ok e(1)
    by (simp del: decode_loop.simps)
  moreover have "exhausted (cur_adv (length enc) (cursor_of bytes))" using e(1) by (simp add: exhausted_rest)
  moreover have "length headers + Suc (length enc - length headers) = length bytes + 1" using e(1,2) by simp
  ultimately have "hpack_decode bytes td =
      decode_loop (Suc (length enc - length headers)) td' (cur_adv (length enc) (cursor_of bytes)) headers"
    unfolding hpack_decode_def by (simp only:)
  then have "hpack_decode bytes td = Some (td', headers)"
    using \<open>exhausted (cur_adv (length enc) (cursor_of bytes))\<close> by simp
  then show ?thesis using e(3) by blast
qed

text \<open>C1 (hpack_roundtrip): the decoder returns exactly the headers that were encoded, in order,
  whenever the encoder's dynamic table is a front part of the decoder's and its maximum is no
  larger; both tables are in that relation again afterwards, so the next block of headers on
  the connection can be decoded too. It holds for every list of headers whose strings have
  fewer than \<open>2 ^ 29\<close> bytes, through indexed fields, indexed names and literals, insertions,
  evictions and entries too large for the table.\<close>

theorem hpack_roundtrip:
  assumes "in_step te td" "\<forall>f \<in> set headers. field_small f"
    "hpack_encode headers te = (te', bytes)" "length bytes < 2 ^ 63"
  shows "\<exists>td'. hpack_decode bytes td = Some (td', headers) \<and> in_step te' td'"
  by (rule hpack_block_ok [OF assms])

theorem hpack_roundtrip_witness:
  "\<exists>td'. hpack_decode [0x82, 0x40, 0x81, 0x1F, 0x81, 0x8F, 0xBE] (hpack_new 4096) =
     Some (td', [('':method'', ''GET''), (''a'', ''b''), (''a'', ''b'')])"
proof -
  let ?hs = "[('':method'', ''GET''), (''a'', ''b''), (''a'', ''b'')]"
  have b: "snd (hpack_encode ?hs (hpack_new 4096)) = [0x82, 0x40, 0x81, 0x1F, 0x81, 0x8F, 0xBE]" by code_simp
  obtain te' where e: "hpack_encode ?hs (hpack_new 4096) = (te', [0x82, 0x40, 0x81, 0x1F, 0x81, 0x8F, 0xBE])"
    using b by (metis prod.collapse)
  show ?thesis
    using hpack_roundtrip [OF in_step_new _ e, of 4096] by (auto simp: field_small_def)
qed

text \<open>C7 (hpack_table_bounded): an insertion keeps the recorded size equal to the sum of the entry
  sizes and within the maximum, drops the oldest entries and no more of them than needed, puts
  the new entry in front, and leaves an empty table when the entry alone is too large; a new
  maximum keeps the newest entries that fit it.\<close>

theorem hpack_table_bounded:
  assumes "table_ok t" "length name + length v + 32 < 2 ^ 31" "unat size_max \<le> 2 ^ 31"
  shows "table_ok (add_to_dynamic_table name v t) \<and>
    dynamic_table (add_to_dynamic_table name v t) =
      (if length name + length v + 32 \<le> unat (max_table_size t)
       then new_entry name v # fit (unat (max_table_size t) - (length name + length v + 32)) (dynamic_table t)
       else []) \<and>
    table_ok (set_max_table_size size_max t) \<and>
    dynamic_table (set_max_table_size size_max t) = fit (unat size_max) (dynamic_table t)"
  using add_ok [OF assms(1,2)] set_max_ok [OF assms(1,3)] by simp_all

theorem hpack_table_bounded_witness:
  "dynamic_table (add_to_dynamic_table ''ab'' ''cd'' (add_to_dynamic_table ''a'' ''b'' (hpack_new 60))) =
     [new_entry ''ab'' ''cd'']"
proof -
  let ?t = "add_to_dynamic_table ''a'' ''b'' (hpack_new 60)"
  have "table_ok (hpack_new 60)" by (simp add: table_ok_def hpack_new_def)
  then have "table_ok ?t" by (rule add_ok(3)) simp
  from hpack_table_bounded [OF this, of "''ab''" "''cd''" 0]
  have "dynamic_table (add_to_dynamic_table ''ab'' ''cd'' ?t) =
      (if 36 \<le> unat (max_table_size ?t) then new_entry ''ab'' ''cd'' # fit (unat (max_table_size ?t) - 36) (dynamic_table ?t) else [])"
    by simp
  moreover have "max_table_size ?t = 60" by code_simp
  moreover have "fit 24 (dynamic_table ?t) = []" by code_simp
  ultimately show ?thesis by simp
qed

lemma decode_ends:
  assumes "length data < 2 ^ 63"
  shows "\<exists>t' headers. hpack_decode data t = Some (t', headers)"
proof -
  have ok: "cursor_ok (cursor_of data)" using assms by (simp add: cursor_ok_def cursor_of_def bc_size_def)
  have "cur_remaining (cursor_of data) < length data + 1"
    by (simp add: cur_remaining_def cursor_of_def bc_size_def)
  from decode_loop_total [OF ok this] show ?thesis by (auto simp: hpack_decode_def)
qed

text \<open>C10 (hpack_decode_total): decoding ends on every input, malformed ones included: each round of
  the loop reads at least one byte.\<close>

theorem hpack_decode_total:
  assumes "length data < 2 ^ 63"
  shows "\<exists>t' headers. hpack_decode data t = Some (t', headers)"
  using assms by (rule decode_ends)

theorem hpack_decode_total_witness:
  "\<exists>t' headers. hpack_decode [0xFF, 0xFF, 0x40] (hpack_new 4096) = Some (t', headers)"
  using hpack_decode_total [of "[0xFF, 0xFF, 0x40]"] by simp

text \<open>Fact (decoder_resize_loses_fields): outside the relation of \<open>in_step\<close> fields are lost without
  an error. A decoder whose maximum is set to 0 after a header was inserted, which is what
  \<open>http2_connection::handle_settings_frame\<close> does with the peer's \<open>header_table_size\<close>, forgets the
  entry, while the peer's encoder still refers to it by index: the block decodes to no header.\<close>

theorem decoder_resize_loses_fields:
  "let te = fst (hpack_encode [(''a'', ''b'')] (hpack_new 4096));
       td = add_to_dynamic_table ''a'' ''b'' (hpack_new 4096)
   in in_step te td \<and> snd (hpack_encode [(''a'', ''b'')] te) = [0xBE] \<and>
      map_option snd (hpack_decode [0xBE] td) = Some [(''a'', ''b'')] \<and>
      map_option snd (hpack_decode [0xBE] (set_max_table_size 0 td)) = Some []"
proof -
  have e: "fst (hpack_encode [(''a'', ''b'')] (hpack_new 4096)) = add_to_dynamic_table ''a'' ''b'' (hpack_new 4096)"
    by code_simp
  have "in_step (hpack_new 4096) (hpack_new 4096)" by (rule in_step_new) simp_all
  then have s: "in_step (add_to_dynamic_table ''a'' ''b'' (hpack_new 4096))
      (add_to_dynamic_table ''a'' ''b'' (hpack_new 4096))" by (rule in_step_add) simp
  have "snd (hpack_encode [(''a'', ''b'')] (add_to_dynamic_table ''a'' ''b'' (hpack_new 4096))) = [0xBE]"
    by code_simp
  moreover have "map_option snd (hpack_decode [0xBE] (add_to_dynamic_table ''a'' ''b'' (hpack_new 4096))) =
      Some [(''a'', ''b'')]" by code_simp
  moreover have "map_option snd (hpack_decode [0xBE]
      (set_max_table_size 0 (add_to_dynamic_table ''a'' ''b'' (hpack_new 4096)))) = Some []" by code_simp
  ultimately show ?thesis using s unfolding e Let_def by blast
qed

end
