(* ===== verification/Http2Framer.thy ===== *)
theory Http2Framer
  imports HpackCodec
begin

section \<open>HTTP/2 frames\<close>

text \<open>
  The frame structures of \<open>include/NeForce/network/http/http2_protocol.hpp\<close> and
  \<open>http2_framer\<close> of \<open>src/network/http/http2_protocol.cpp\<close>. An enumeration is a datatype with its
  codes; a value read from the wire stays a number, because the code casts it without a check.
  A pointer into the received bytes is the rest of the byte list, so a callback gets the payload as
  the bytes from its first one to the end of the buffer together with its length. The callback of
  \<open>decode_frames\<close> collects its calls in a list. The members \<open>expected_length_\<close>,
  \<open>current_header_\<close> and \<open>reading_header_\<close> of the framer are never used by the code.
\<close>

subsection \<open>Frame types and structures\<close>

datatype http2_frame_type =
  FT_data | FT_headers | FT_priority | FT_rst_stream | FT_settings | FT_push_promise | FT_ping |
  FT_goaway | FT_window_update | FT_continuation

fun frame_type_code :: "http2_frame_type \<Rightarrow> byte" where
  "frame_type_code FT_data = 0x0"
| "frame_type_code FT_headers = 0x1"
| "frame_type_code FT_priority = 0x2"
| "frame_type_code FT_rst_stream = 0x3"
| "frame_type_code FT_settings = 0x4"
| "frame_type_code FT_push_promise = 0x5"
| "frame_type_code FT_ping = 0x6"
| "frame_type_code FT_goaway = 0x7"
| "frame_type_code FT_window_update = 0x8"
| "frame_type_code FT_continuation = 0x9"

datatype http2_error =
  No_error | Protocol_error | Internal_error | Flow_control_error | Settings_timeout |
  Stream_closed | Frame_size_error | Refused_stream | Cancel | Compression_error |
  Connect_error | Enhance_your_calm | Inadequate_security | Http_1_1_required

fun error_code :: "http2_error \<Rightarrow> u32" where
  "error_code No_error = 0x0"
| "error_code Protocol_error = 0x1"
| "error_code Internal_error = 0x2"
| "error_code Flow_control_error = 0x3"
| "error_code Settings_timeout = 0x4"
| "error_code Stream_closed = 0x5"
| "error_code Frame_size_error = 0x6"
| "error_code Refused_stream = 0x7"
| "error_code Cancel = 0x8"
| "error_code Compression_error = 0x9"
| "error_code Connect_error = 0xA"
| "error_code Enhance_your_calm = 0xB"
| "error_code Inadequate_security = 0xC"
| "error_code Http_1_1_required = 0xD"

datatype http2_settings_id =
  Header_table_size | Enable_push | Max_concurrent_streams | Initial_window_size |
  Max_frame_size | Max_header_list_size

fun settings_code :: "http2_settings_id \<Rightarrow> u16" where
  "settings_code Header_table_size = 0x1"
| "settings_code Enable_push = 0x2"
| "settings_code Max_concurrent_streams = 0x3"
| "settings_code Initial_window_size = 0x4"
| "settings_code Max_frame_size = 0x5"
| "settings_code Max_header_list_size = 0x6"

definition HTTP2_FLAG_END_STREAM :: byte where "HTTP2_FLAG_END_STREAM = 0x1"
definition HTTP2_FLAG_END_HEADERS :: byte where "HTTP2_FLAG_END_HEADERS = 0x4"
definition HTTP2_FLAG_PADDED :: byte where "HTTP2_FLAG_PADDED = 0x8"
definition HTTP2_FLAG_PRIORITY :: byte where "HTTP2_FLAG_PRIORITY = 0x20"
definition HTTP2_FLAG_ACK :: byte where "HTTP2_FLAG_ACK = 0x1"

record http2_frame_header =
  length_hi :: byte
  length_mid :: byte
  length_lo :: byte
  fh_type :: byte
  fh_flags :: byte
  sid_r :: byte
  sid_mid :: byte
  sid_lo1 :: byte
  sid_lo0 :: byte

definition get_length :: "http2_frame_header \<Rightarrow> u32" where
  "get_length h =
     push_bit 16 (ucast (length_hi h)) OR push_bit 8 (ucast (length_mid h)) OR ucast (length_lo h)"

definition set_length :: "u32 \<Rightarrow> http2_frame_header \<Rightarrow> http2_frame_header" where
  "set_length len h =
     h\<lparr>length_hi := ucast (drop_bit 16 len AND 0xFF), length_mid := ucast (drop_bit 8 len AND 0xFF),
       length_lo := ucast (len AND 0xFF)\<rparr>"

definition get_stream_id :: "http2_frame_header \<Rightarrow> u32" where
  "get_stream_id h =
     push_bit 24 (ucast (sid_r h AND 0x7F)) OR push_bit 16 (ucast (sid_mid h)) OR
     push_bit 8 (ucast (sid_lo1 h)) OR ucast (sid_lo0 h)"

definition set_stream_id :: "u32 \<Rightarrow> http2_frame_header \<Rightarrow> http2_frame_header" where
  "set_stream_id i h =
     h\<lparr>sid_r := ucast (drop_bit 24 i AND 0x7F), sid_mid := ucast (drop_bit 16 i AND 0xFF),
       sid_lo1 := ucast (drop_bit 8 i AND 0xFF), sid_lo0 := ucast (i AND 0xFF)\<rparr>"

text \<open>A settings identifier is kept as its number: the code casts whatever the peer sent.\<close>

record http2_settings_entry =
  se_id :: u16
  se_value :: u32

record http2_priority =
  stream_dependency :: u32
  pr_weight :: byte
  pr_exclusive :: bool

record http2_data_frame =
  df_stream_id :: u32
  df_data :: "byte list"
  df_pad_length :: byte
  df_end_stream :: bool

record http2_headers_frame =
  hf_stream_id :: u32
  hf_header_block :: "byte list"
  hf_pad_length :: byte
  hf_priority :: http2_priority
  hf_end_stream :: bool
  hf_end_headers :: bool
  hf_has_priority :: bool

record http2_rst_stream_frame =
  rst_stream_id :: u32
  rst_error_code :: http2_error

record http2_settings_frame =
  sf_ack :: bool
  sf_entries :: "http2_settings_entry list"

record http2_ping_frame =
  ping_opaque_data :: u64
  ping_ack :: bool

record http2_goaway_frame =
  ga_last_stream_id :: u32
  ga_error_code :: http2_error
  ga_debug_data :: "byte list"

record http2_window_update_frame =
  wuf_stream_id :: u32
  wuf_increment :: u32

record http2_push_promise_frame =
  ppf_stream_id :: u32
  ppf_promised_id :: u32
  ppf_header_block :: "byte list"
  ppf_pad_length :: byte
  ppf_end_headers :: bool

record http2_continuation_frame =
  cf_stream_id :: u32
  cf_header_block :: "byte list"
  cf_end_headers :: bool

subsection \<open>Encoding\<close>

definition build_frame_header :: "http2_frame_type \<Rightarrow> byte \<Rightarrow> u32 \<Rightarrow> nat \<Rightarrow> byte list" where
  "build_frame_header ty flags stream_id payload_len =
     (let n = (of_nat payload_len :: u64)
      in [ucast (drop_bit 16 n AND 0xFF), ucast (drop_bit 8 n AND 0xFF), ucast (n AND 0xFF),
          frame_type_code ty, flags,
          ucast (drop_bit 24 stream_id AND 0x7F), ucast (drop_bit 16 stream_id AND 0xFF),
          ucast (drop_bit 8 stream_id AND 0xFF), ucast (stream_id AND 0xFF)])"

text \<open>The four \<open>push_back\<close> calls that write a 32-bit number, and those that clear its top bit.\<close>

definition push_be32 :: "u32 \<Rightarrow> byte list" where
  "push_be32 v =
     [ucast (drop_bit 24 v AND 0xFF), ucast (drop_bit 16 v AND 0xFF), ucast (drop_bit 8 v AND 0xFF),
      ucast (v AND 0xFF)]"

definition push_be31 :: "u32 \<Rightarrow> byte list" where
  "push_be31 v =
     [ucast (drop_bit 24 v AND 0x7F), ucast (drop_bit 16 v AND 0xFF), ucast (drop_bit 8 v AND 0xFF),
      ucast (v AND 0xFF)]"

definition encode_data_frame :: "http2_data_frame \<Rightarrow> byte list" where
  "encode_data_frame frame =
     (let payload_len = length (df_data frame);
          flags = 0;
          flags = (if df_end_stream frame then flags OR HTTP2_FLAG_END_STREAM else flags);
          (flags, payload_len) =
            (if df_pad_length frame > 0
             then (flags OR HTTP2_FLAG_PADDED, payload_len + (1 + unat (df_pad_length frame)))
             else (flags, payload_len));
          result = build_frame_header FT_data flags (df_stream_id frame) payload_len;
          result = (if df_pad_length frame > 0 then result @ [df_pad_length frame] else result);
          result = result @ df_data frame
      in if df_pad_length frame > 0 then result @ replicate (unat (df_pad_length frame)) 0 else result)"

definition encode_headers_frame :: "http2_headers_frame \<Rightarrow> byte list" where
  "encode_headers_frame frame =
     (let payload_len = length (hf_header_block frame);
          flags = 0;
          flags = (if hf_end_stream frame then flags OR HTTP2_FLAG_END_STREAM else flags);
          flags = (if hf_end_headers frame then flags OR HTTP2_FLAG_END_HEADERS else flags);
          (flags, payload_len) =
            (if hf_has_priority frame then (flags OR HTTP2_FLAG_PRIORITY, payload_len + 5)
             else (flags, payload_len));
          (flags, payload_len) =
            (if hf_pad_length frame > 0
             then (flags OR HTTP2_FLAG_PADDED, payload_len + (1 + unat (hf_pad_length frame)))
             else (flags, payload_len));
          result = build_frame_header FT_headers flags (hf_stream_id frame) payload_len;
          result = (if hf_pad_length frame > 0 then result @ [hf_pad_length frame] else result);
          result = (if hf_has_priority frame
             then result @ push_be31 (stream_dependency (hf_priority frame)) @ [pr_weight (hf_priority frame)]
             else result);
          result = result @ hf_header_block frame
      in if hf_pad_length frame > 0 then result @ replicate (unat (hf_pad_length frame)) 0 else result)"

definition encode_push_promise_frame :: "http2_push_promise_frame \<Rightarrow> byte list" where
  "encode_push_promise_frame frame =
     (let payload_len = 4 + length (ppf_header_block frame);
          flags = 0;
          flags = (if ppf_end_headers frame then flags OR HTTP2_FLAG_END_HEADERS else flags);
          (flags, payload_len) =
            (if ppf_pad_length frame > 0
             then (flags OR HTTP2_FLAG_PADDED, payload_len + (1 + unat (ppf_pad_length frame)))
             else (flags, payload_len));
          result = build_frame_header FT_push_promise flags (ppf_stream_id frame) payload_len;
          result = (if ppf_pad_length frame > 0 then result @ [ppf_pad_length frame] else result);
          psid = ppf_promised_id frame AND 0x7FFFFFFF;
          result = result @ push_be32 psid;
          result = result @ ppf_header_block frame
      in if ppf_pad_length frame > 0 then result @ replicate (unat (ppf_pad_length frame)) 0 else result)"

definition encode_rst_stream_frame :: "http2_rst_stream_frame \<Rightarrow> byte list" where
  "encode_rst_stream_frame frame =
     build_frame_header FT_rst_stream 0 (rst_stream_id frame) 4 @
     push_be32 (error_code (rst_error_code frame))"

definition encode_settings_frame :: "http2_settings_frame \<Rightarrow> byte list" where
  "encode_settings_frame frame =
     (let flags = (if sf_ack frame then HTTP2_FLAG_ACK else 0);
          payload_len = length (sf_entries frame) * 6
      in foldl (\<lambda>result entry.
            result @ [ucast (drop_bit 8 (se_id entry) AND 0xFF), ucast (se_id entry AND 0xFF)] @
            push_be32 (se_value entry))
          (build_frame_header FT_settings flags 0 payload_len) (sf_entries frame))"

definition encode_ping_frame :: "http2_ping_frame \<Rightarrow> byte list" where
  "encode_ping_frame frame =
     (let flags = (if ping_ack frame then HTTP2_FLAG_ACK else 0)
      in foldl (\<lambda>result i. result @ [ucast (drop_bit (i * 8) (ping_opaque_data frame) AND 0xFF)])
          (build_frame_header FT_ping flags 0 8) (rev [0..<8]))"

definition encode_goaway_frame :: "http2_goaway_frame \<Rightarrow> byte list" where
  "encode_goaway_frame frame =
     build_frame_header FT_goaway 0 0 (8 + length (ga_debug_data frame)) @
     push_be31 (ga_last_stream_id frame) @ push_be32 (error_code (ga_error_code frame)) @
     ga_debug_data frame"

definition encode_window_update_frame :: "http2_window_update_frame \<Rightarrow> byte list" where
  "encode_window_update_frame frame =
     build_frame_header FT_window_update 0 (wuf_stream_id frame) 4 @
     push_be32 (wuf_increment frame AND 0x7FFFFFFF)"

definition encode_continuation_frame :: "http2_continuation_frame \<Rightarrow> byte list" where
  "encode_continuation_frame frame =
     (let flags = (if cf_end_headers frame then HTTP2_FLAG_END_HEADERS else 0)
      in build_frame_header FT_continuation flags (cf_stream_id frame) (length (cf_header_block frame)) @
         cf_header_block frame)"

subsection \<open>Decoding\<close>

record http2_framer =
  partial_buffer :: "byte list"

text \<open>One call of the frame callback.\<close>

record frame_call =
  fc_type :: byte
  fc_flags :: byte
  fc_stream_id :: u32
  fc_payload :: "byte list"
  fc_len :: nat

text \<open>
  The loop of \<open>decode_frames\<close> with the number of rounds it may take; the result is what
  \<open>partial_buffer_\<close> is assigned, and the calls made.
\<close>

fun frames_loop :: "nat \<Rightarrow> byte_cursor \<Rightarrow> frame_call list \<Rightarrow> (byte list \<times> frame_call list) option" where
  "frames_loop 0 cur calls = None"
| "frames_loop (Suc rounds) cur calls =
     (if cur_remaining cur \<ge> 9 then
        (let frame_start = bc_pos cur;
             (cur, length_opt) = try_read_be24 cur;
             (cur, type_opt) = try_read_byte cur;
             (cur, flags_opt) = try_read_byte cur;
             (cur, sid_opt) = try_read_be32 cur
         in case (length_opt, type_opt, flags_opt, sid_opt) of
              (Some len, Some ty, Some flags, Some sid) \<Rightarrow>
                (let stream_id = sid AND 0x7FFFFFFF;
                     payload_data = drop (bc_pos cur) (bc_data cur)
                 in case try_read_bytes (unat len) cur of
                      (cur, None) \<Rightarrow> Some (drop frame_start (bc_data cur), calls)
                    | (cur, Some payload) \<Rightarrow>
                        frames_loop rounds cur
                          (calls @ [\<lparr>fc_type = ty, fc_flags = flags, fc_stream_id = stream_id,
                                     fc_payload = payload_data, fc_len = unat len\<rparr>]))
            | _ \<Rightarrow> Some (drop frame_start (bc_data cur), calls))
      else if \<not> exhausted cur then Some (drop (bc_pos cur) (bc_data cur), calls)
      else Some ([], calls))"

definition decode_frames :: "byte list \<Rightarrow> http2_framer \<Rightarrow> (http2_framer \<times> frame_call list) option" where
  "decode_frames data f =
     (let data = (if partial_buffer f \<noteq> [] then partial_buffer f @ data else data)
      in case frames_loop (length data + 1) (cursor_of data) [] of
           None \<Rightarrow> None
         | Some (rest, calls) \<Rightarrow> Some (f\<lparr>partial_buffer := rest\<rparr>, calls))"

subsection \<open>The frames in a stream of bytes\<close>

text \<open>
  A frame as the specification has it, and the reading of a byte stream as a sequence of frames
  followed by the beginning of another one.
\<close>

record frame =
  fr_type :: byte
  fr_flags :: byte
  fr_stream_id :: u32
  fr_payload :: "byte list"

definition frame_bytes :: "frame \<Rightarrow> byte list" where
  "frame_bytes f =
     [ucast (drop_bit 16 (of_nat (length (fr_payload f)) :: u64)),
      ucast (drop_bit 8 (of_nat (length (fr_payload f)) :: u64)),
      ucast (of_nat (length (fr_payload f)) :: u64), fr_type f, fr_flags f] @
     push_be32 (fr_stream_id f) @ fr_payload f"

definition frame_ok :: "frame \<Rightarrow> bool" where
  "frame_ok f \<longleftrightarrow> length (fr_payload f) < 2 ^ 24 \<and> unat (fr_stream_id f) < 2 ^ 31"

text \<open>The frame whose first byte is at the head of the list, and its length.\<close>

definition head_frame :: "byte list \<Rightarrow> frame" where
  "head_frame bs =
     \<lparr>fr_type = bs ! 3, fr_flags = bs ! 4, fr_stream_id = read_be32 (drop 5 bs) AND 0x7FFFFFFF,
      fr_payload = take (unat (read_be24 bs)) (drop 9 bs)\<rparr>"

definition whole_frame :: "byte list \<Rightarrow> bool" where
  "whole_frame bs \<longleftrightarrow> 9 \<le> length bs \<and> 9 + unat (read_be24 bs) \<le> length bs"

function split_frames :: "byte list \<Rightarrow> frame list \<times> byte list" where
  "split_frames bs =
     (if whole_frame bs
      then (let (fs, rest) = split_frames (drop (9 + unat (read_be24 bs)) bs) in (head_frame bs # fs, rest))
      else ([], bs))"
  by pat_completeness auto

termination by (relation "measure length") (auto simp: whole_frame_def)

declare split_frames.simps [simp del]

definition call_frame :: "frame_call \<Rightarrow> frame" where
  "call_frame c =
     \<lparr>fr_type = fc_type c, fr_flags = fc_flags c, fr_stream_id = fc_stream_id c,
      fr_payload = take (fc_len c) (fc_payload c)\<rparr>"

lemma split_frames_None: "\<not> whole_frame bs \<Longrightarrow> split_frames bs = ([], bs)"
  by (simp add: split_frames.simps)

lemma split_frames_Some:
  "whole_frame bs \<Longrightarrow> split_frames bs =
     (head_frame bs # fst (split_frames (drop (9 + unat (read_be24 bs)) bs)),
      snd (split_frames (drop (9 + unat (read_be24 bs)) bs)))"
  by (subst split_frames.simps) (simp add: case_prod_beta)

lemma cursor_ok_rest: "cursor_ok cur \<Longrightarrow> cur_remaining cur = length (cur_rest cur)"
  by (simp add: cur_remaining_def cur_rest_def bc_size_def)

lemma cursor_ok_adv_le:
  "cursor_ok cur \<Longrightarrow> n \<le> length (cur_rest cur) \<Longrightarrow> cursor_ok (cur_adv n cur)"
  by (auto simp: cursor_ok_def cur_adv_def cur_rest_def bc_size_def)

lemma fixed_rest:
  assumes "cursor_ok cur" "n \<le> length (cur_rest cur)"
  shows "try_read_fixed n f cur = (cur_adv n cur, Some (f (cur_rest cur)))"
proof -
  have "n \<le> cur_remaining cur" "n \<le> 2 ^ 63"
    using assms by (auto simp: cursor_ok_rest cursor_ok_def cur_rest_def bc_size_def)
  then show ?thesis using runs_past_ok [OF assms(1)] advance_ok [OF assms(1)]
    by (simp add: try_read_fixed_def cur_adv_def cur_rest_def)
qed

lemma byte_rest:
  assumes "cursor_ok cur" "cur_rest cur \<noteq> []"
  shows "try_read_byte cur = (cur_adv 1 cur, Some (cur_rest cur ! 0))"
  using assms by (cases "cur_rest cur") (auto simp: read_rest)

lemma bytes_rest:
  assumes "cursor_ok cur" "n \<le> 2 ^ 63"
  shows "try_read_bytes n cur =
    (if n \<le> length (cur_rest cur) then (cur_adv n cur, Some (take n (cur_rest cur))) else (cur, None))"
  using assms runs_past_ok [OF assms] advance_ok [OF assms(1), of n] cursor_ok_rest [OF assms(1)]
  by (auto simp: try_read_bytes_def cur_adv_def cur_rest_def)

lemma unat_be24: "unat (read_be24 bs) < 2 ^ 24"
proof -
  have "read_be24 bs = take_bit 24 (read_be24 bs)"
    by (rule bit_word_eqI) (auto simp: read_be24_def word_bit_simps)
  then have "unat (read_be24 bs) = take_bit 24 (unat (read_be24 bs))"
    by (metis unsigned_take_bit_eq)
  then show ?thesis by (metis take_bit_nat_less_exp)
qed

text \<open>The loop reads what \<open>split_frames\<close> finds in the rest of the buffer.\<close>

lemma frames_loop_ok:
  assumes "cursor_ok cur" "length (cur_rest cur) < rounds"
  shows "\<exists>cs. frames_loop rounds cur calls = Some (snd (split_frames (cur_rest cur)), calls @ cs) \<and>
    map call_frame cs = fst (split_frames (cur_rest cur))"
  using assms
proof (induction rounds arbitrary: cur calls)
  case 0
  then show ?case by simp
next
  case (Suc rounds)
  let ?r = "cur_rest cur"
  have rem: "cur_remaining cur = length ?r" using Suc.prems by (simp add: cursor_ok_rest)
  show ?case
  proof (cases "9 \<le> length ?r")
    case False
    then have "\<not> whole_frame ?r" by (simp add: whole_frame_def)
    then show ?thesis using False rem
      by (auto simp: split_frames_None exhausted_rest [unfolded cur_rest_def] cur_rest_def
          exhausted_def bc_size_def)
  next
    case True
    note ok = cursor_ok_adv_le [OF Suc.prems(1)]
    have h: "try_read_be24 cur = (cur_adv 3 cur, Some (read_be24 ?r))"
      "try_read_byte (cur_adv 3 cur) = (cur_adv 4 cur, Some (?r ! 3))"
      "try_read_byte (cur_adv 4 cur) = (cur_adv 5 cur, Some (?r ! 4))"
      "try_read_be32 (cur_adv 5 cur) = (cur_adv 9 cur, Some (read_be32 (drop 5 ?r)))"
      using True Suc.prems(1) ok [of 3] ok [of 4] ok [of 5]
      by (simp_all add: try_read_be24_def try_read_be32_def fixed_rest byte_rest)
    let ?n = "unat (read_be24 ?r)"
    have d: "bc_data (cur_adv k cur) = bc_data cur" for k by (simp add: cur_adv_def)
    have d9: "drop (bc_pos (cur_adv 9 cur)) (bc_data cur) = drop 9 ?r"
      by (simp add: cur_rest_def cur_adv_def add.commute)
    have n: "?n \<le> 2 ^ 63" using unat_be24 [of ?r] by simp
    have rd: "try_read_bytes ?n (cur_adv 9 cur) =
        (if whole_frame ?r then (cur_adv (9 + ?n) cur, Some (take ?n (drop 9 ?r))) else (cur_adv 9 cur, None))"
      using bytes_rest [OF ok [OF True] n] True by (auto simp: whole_frame_def)
    show ?thesis
    proof (cases "whole_frame ?r")
      case False
      then show ?thesis using h rd rem True d
        by (simp add: split_frames_None Let_def) (simp add: cur_rest_def)
    next
      case whole: True
      let ?c = "\<lparr>fc_type = ?r ! 3, fc_flags = ?r ! 4, fc_stream_id = read_be32 (drop 5 ?r) AND 0x7FFFFFFF,
        fc_payload = drop 9 ?r, fc_len = ?n\<rparr>"
      have "cursor_ok (cur_adv (9 + ?n) cur)" "length (cur_rest (cur_adv (9 + ?n) cur)) < rounds"
        using whole Suc.prems ok [of "9 + ?n"] by (auto simp: whole_frame_def)
      from Suc.IH [OF this, of "calls @ [?c]"] obtain cs where
        cs: "frames_loop rounds (cur_adv (9 + ?n) cur) (calls @ [?c]) =
            Some (snd (split_frames (drop (9 + ?n) ?r)), (calls @ [?c]) @ cs)"
          "map call_frame cs = fst (split_frames (drop (9 + ?n) ?r))" by auto
      have "frames_loop (Suc rounds) cur calls = frames_loop rounds (cur_adv (9 + ?n) cur) (calls @ [?c])"
        using h rd rem True whole d d9 by (simp add: Let_def)
      moreover have "call_frame ?c = head_frame ?r" by (simp add: call_frame_def head_frame_def)
      ultimately show ?thesis using cs split_frames_Some [OF whole] by (intro exI [of _ "?c # cs"]) simp
    qed
  qed
qed
lemma push_be32_bytes: "read_be32 (push_be32 v @ bs) = v"
proof (rule bit_word_eqI)
  fix n assume "n < LENGTH(32)"
  then show "bit (read_be32 (push_be32 v @ bs)) n \<longleftrightarrow> bit v n"
    by (cases "n < 8"; cases "n < 16"; cases "n < 24")
      (auto simp: read_be32_def push_be32_def word_bit_simps)
qed

lemma length_push_be32 [simp]: "length (push_be32 v) = 4" "length (push_be31 v) = 4"
  by (simp_all add: push_be32_def push_be31_def)

lemma push_be31_eq: "push_be31 v = push_be32 (v AND 0x7FFFFFFF)"
proof -
  have m: "(0x7FFFFFFF :: u32) = mask 31" "(0x7F :: u32) = mask 7" by (simp_all add: mask_eq_exp_minus_1)
  have "(ucast (drop_bit 24 v AND mask 7) :: byte) = ucast (drop_bit 24 (v AND mask 31) AND 0xFF)"
    "(ucast (drop_bit 16 v AND 0xFF) :: byte) = ucast (drop_bit 16 (v AND mask 31) AND 0xFF)"
    "(ucast (drop_bit 8 v AND 0xFF) :: byte) = ucast (drop_bit 8 (v AND mask 31) AND 0xFF)"
    "(ucast (v AND 0xFF) :: byte) = ucast ((v AND mask 31) AND 0xFF)"
    by (rule bit_word_eqI; auto simp: word_bit_simps bit_mask_iff)+
  then show ?thesis by (simp only: push_be32_def push_be31_def m)
qed

lemma read_length_bytes:
  assumes "n < 2 ^ 24"
  shows "unat (read_be24 ([ucast (drop_bit 16 (of_nat n :: u64)), ucast (drop_bit 8 (of_nat n :: u64)),
    ucast (of_nat n :: u64)] @ bs)) = n"
proof -
  let ?w = "of_nat n :: u64"
  have "read_be24 ([ucast (drop_bit 16 ?w), ucast (drop_bit 8 ?w), ucast ?w] @ bs) = ucast (take_bit 24 ?w)"
  proof (rule bit_word_eqI)
    fix i assume "i < LENGTH(32)"
    then show "bit (read_be24 ([ucast (drop_bit 16 ?w), ucast (drop_bit 8 ?w), ucast ?w] @ bs)) i \<longleftrightarrow>
        bit (ucast (take_bit 24 ?w) :: u32) i"
      by (cases "i < 8"; cases "i < 16"; cases "i < 24") (auto simp: read_be24_def word_bit_simps)
  qed
  moreover have "unat (ucast (take_bit 24 ?w) :: u32) = n"
    using assms by (simp add: unsigned_take_bit_eq unsigned_ucast_eq take_bit_nat_eq_self unat_of_nat)
  ultimately show ?thesis by simp
qed

lemma stream_id_31:
  fixes v :: u32
  shows "unat v < 2 ^ 31 \<Longrightarrow> v AND 0x7FFFFFFF = v" "unat (v AND 0x7FFFFFFF) < 2 ^ 31"
proof -
  have m: "(0x7FFFFFFF :: u32) = mask 31" by (simp add: mask_eq_exp_minus_1)
  have t: "v AND 0x7FFFFFFF = take_bit 31 v" by (simp only: m take_bit_eq_mask)
  show "unat (v AND 0x7FFFFFFF) < 2 ^ 31" unfolding t unsigned_take_bit_eq by (rule take_bit_nat_less_exp)
  show "v AND 0x7FFFFFFF = v" if "unat v < 2 ^ 31"
    unfolding t using that by (metis unsigned_take_bit_eq take_bit_nat_eq_self unsigned_word_eqI)
qed

lemma frame_bytes_split:
  assumes "frame_ok f"
  shows "whole_frame (frame_bytes f @ bs)" "head_frame (frame_bytes f @ bs) = f"
    "drop (9 + unat (read_be24 (frame_bytes f @ bs))) (frame_bytes f @ bs) = bs"
proof -
  have n: "unat (read_be24 (frame_bytes f @ bs)) = length (fr_payload f)"
    using read_length_bytes [of "length (fr_payload f)"] assms by (simp add: frame_bytes_def frame_ok_def)
  have l: "length (frame_bytes f) = 9 + length (fr_payload f)" by (simp add: frame_bytes_def)
  show "whole_frame (frame_bytes f @ bs)" by (simp add: whole_frame_def n l)
  show "drop (9 + unat (read_be24 (frame_bytes f @ bs))) (frame_bytes f @ bs) = bs" by (simp add: n l)
  have "drop 5 (frame_bytes f @ bs) = push_be32 (fr_stream_id f) @ fr_payload f @ bs"
    "drop 9 (frame_bytes f @ bs) = fr_payload f @ bs"
    by (simp_all add: frame_bytes_def numeral_eq_Suc push_be32_def)
  moreover have "(frame_bytes f @ bs) ! 3 = fr_type f" "(frame_bytes f @ bs) ! 4 = fr_flags f"
    by (simp_all add: frame_bytes_def numeral_eq_Suc)
  ultimately show "head_frame (frame_bytes f @ bs) = f"
    using assms by (simp add: head_frame_def n push_be32_bytes stream_id_31 frame_ok_def)
qed

lemma whole_frame_append: "whole_frame bs \<Longrightarrow> whole_frame (bs @ cs) \<and> head_frame (bs @ cs) = head_frame bs \<and>
    read_be24 (bs @ cs) = read_be24 bs"
proof -
  assume w: "whole_frame bs"
  then have l: "9 \<le> length bs" by (simp add: whole_frame_def)
  then have n: "i < 9 \<Longrightarrow> (bs @ cs) ! i = bs ! i" for i by (simp add: nth_append)
  have r: "read_be24 (bs @ cs) = read_be24 bs" "read_be32 (drop 5 (bs @ cs)) = read_be32 (drop 5 bs)"
    using l n [of 0] n [of 1] n [of 2] n [of 5] n [of 6] n [of 7] n [of 8]
    by (simp_all add: read_be24_def read_be32_def del: drop_append)
  then show ?thesis using w l n [of 3] n [of 4] by (auto simp: whole_frame_def head_frame_def)
qed

text \<open>Frames are found in the same places when the bytes arrive later.\<close>

lemma split_frames_append:
  "split_frames (bs @ cs) =
     (fst (split_frames bs) @ fst (split_frames (snd (split_frames bs) @ cs)),
      snd (split_frames (snd (split_frames bs) @ cs)))"
proof (induction bs rule: split_frames.induct)
  case (1 bs)
  show ?case
  proof (cases "whole_frame bs")
    case False
    then show ?thesis by (simp add: split_frames_None)
  next
    case True
    then have d: "drop (9 + unat (read_be24 bs)) (bs @ cs) = drop (9 + unat (read_be24 bs)) bs @ cs"
      by (simp add: whole_frame_def)
    show ?thesis using True whole_frame_append [OF True, of cs] "1" [OF True]
      by (simp add: split_frames_Some d del: drop_append)
  qed
qed

lemma split_frames_concat:
  "list_all frame_ok fs \<Longrightarrow> split_frames (concat (map frame_bytes fs) @ bs) =
     (fs @ fst (split_frames bs), snd (split_frames bs))"
proof (induction fs)
  case Nil
  then show ?case by simp
next
  case (Cons f fs)
  then have "frame_ok f" by simp
  note s = frame_bytes_split [OF this, of "concat (map frame_bytes fs) @ bs"]
  then show ?case using Cons split_frames_Some [of "frame_bytes f @ concat (map frame_bytes fs) @ bs"]
    by simp
qed

lemma decode_frames_ok:
  assumes "length (partial_buffer f @ data) < 2 ^ 63"
  shows "\<exists>cs. decode_frames data f =
      Some (\<lparr>partial_buffer = snd (split_frames (partial_buffer f @ data))\<rparr>, cs) \<and>
    map call_frame cs = fst (split_frames (partial_buffer f @ data))"
proof -
  let ?d = "partial_buffer f @ data"
  have "cursor_ok (cursor_of ?d)" using assms by (simp add: cursor_ok_def cursor_of_def bc_size_def)
  from frames_loop_ok [OF this, of "length ?d + 1" "[]"] show ?thesis
    by (cases f) (auto simp: decode_frames_def Let_def simp del: frames_loop.simps)
qed

text \<open>Bytes that arrive in pieces, with the frames they complete.\<close>

fun feed_chunks :: "byte list list \<Rightarrow> http2_framer \<Rightarrow> (http2_framer \<times> frame_call list) option" where
  "feed_chunks [] f = Some (f, [])"
| "feed_chunks (data # chunks) f =
     (case decode_frames data f of
        None \<Rightarrow> None
      | Some (f, cs) \<Rightarrow>
          (case feed_chunks chunks f of None \<Rightarrow> None | Some (f, ds) \<Rightarrow> Some (f, cs @ ds)))"

lemma split_rest_length: "length (snd (split_frames bs)) \<le> length bs"
proof (induction bs rule: split_frames.induct)
  case (1 bs)
  then show ?case by (cases "whole_frame bs") (auto simp: split_frames_None split_frames_Some)
qed

lemma stuck_empty:
  assumes "snd (split_frames bs) = bs"
  shows "fst (split_frames bs) = []"
proof (cases "whole_frame bs")
  case True
  then have "length (drop (9 + unat (read_be24 bs)) bs) < length bs" by (auto simp: whole_frame_def)
  moreover have "bs = snd (split_frames (drop (9 + unat (read_be24 bs)) bs))"
    using assms True by (simp add: split_frames_Some)
  ultimately show ?thesis using split_rest_length [of "drop (9 + unat (read_be24 bs)) bs"] by simp
qed (simp add: split_frames_None)

lemma feed_chunks_ok:
  assumes "snd (split_frames (partial_buffer f)) = partial_buffer f"
    "length (partial_buffer f) + length (concat chunks) < 2 ^ 63"
  shows "\<exists>cs. feed_chunks chunks f =
      Some (\<lparr>partial_buffer = snd (split_frames (partial_buffer f @ concat chunks))\<rparr>, cs) \<and>
    map call_frame cs = fst (split_frames (partial_buffer f @ concat chunks))"
  using assms
proof (induction chunks arbitrary: f)
  case Nil
  then have "fst (split_frames (partial_buffer f)) = []"
    by (simp add: stuck_empty)
  then show ?case using Nil by (cases f) simp
next
  case (Cons data chunks)
  let ?s = "split_frames (partial_buffer f @ data)"
  from Cons.prems(2) have "length (partial_buffer f @ data) < 2 ^ 63" by simp
  from decode_frames_ok [OF this] obtain cs where cs:
    "decode_frames data f = Some (\<lparr>partial_buffer = snd ?s\<rparr>, cs)" "map call_frame cs = fst ?s" by blast
  have stable: "snd (split_frames (snd ?s)) = snd ?s"
    using split_frames_append [of "partial_buffer f @ data" "[]"] by (metis append_Nil2 snd_conv)
  have "length (snd ?s) + length (concat chunks) < 2 ^ 63"
    using Cons.prems(2) split_rest_length [of "partial_buffer f @ data"] by simp
  from Cons.IH [of "\<lparr>partial_buffer = snd ?s\<rparr>"] stable this obtain ds where ds:
    "feed_chunks chunks \<lparr>partial_buffer = snd ?s\<rparr> =
        Some (\<lparr>partial_buffer = snd (split_frames (snd ?s @ concat chunks))\<rparr>, ds)"
    "map call_frame ds = fst (split_frames (snd ?s @ concat chunks))" by auto
  show ?case using cs ds split_frames_append [of "partial_buffer f @ data" "concat chunks"] by simp
qed
subsection \<open>What the encoders write\<close>

lemma ucast_take_8 [simp]: "(ucast (take_bit 8 w) :: byte) = ucast (w :: 'a::len word)"
  by (rule bit_word_eqI) (auto simp: word_bit_simps)

text \<open>A frame of any type, and its layout by the specification.\<close>

datatype typed_frame =
  Data_frame http2_data_frame | Headers_frame http2_headers_frame |
  Push_promise_frame http2_push_promise_frame | Rst_stream_frame http2_rst_stream_frame |
  Settings_frame http2_settings_frame | Ping_frame http2_ping_frame | Goaway_frame http2_goaway_frame |
  Window_update_frame http2_window_update_frame | Continuation_frame http2_continuation_frame

fun encode_typed :: "typed_frame \<Rightarrow> byte list" where
  "encode_typed (Data_frame f) = encode_data_frame f"
| "encode_typed (Headers_frame f) = encode_headers_frame f"
| "encode_typed (Push_promise_frame f) = encode_push_promise_frame f"
| "encode_typed (Rst_stream_frame f) = encode_rst_stream_frame f"
| "encode_typed (Settings_frame f) = encode_settings_frame f"
| "encode_typed (Ping_frame f) = encode_ping_frame f"
| "encode_typed (Goaway_frame f) = encode_goaway_frame f"
| "encode_typed (Window_update_frame f) = encode_window_update_frame f"
| "encode_typed (Continuation_frame f) = encode_continuation_frame f"

definition padded :: "byte \<Rightarrow> byte list \<Rightarrow> byte list" where
  "padded pad body = (if pad = 0 then body else pad # body @ replicate (unat pad) 0)"

definition flag_if :: "bool \<Rightarrow> byte \<Rightarrow> byte" where
  "flag_if b flag = (if b then flag else 0)"

definition set_id :: "frame \<Rightarrow> u32 \<Rightarrow> frame" where
  "set_id f i = f\<lparr>fr_stream_id := i AND 0x7FFFFFFF\<rparr>"

text \<open>The dependency word of a priority: 31 bits of the stream and the E bit on top (RFC 7540, 6.2).\<close>

definition exclusive_dependency :: "http2_priority \<Rightarrow> u32" where
  "exclusive_dependency p =
     (stream_dependency p AND 0x7FFFFFFF) OR (if pr_exclusive p then 0x80000000 else 0)"

fun wire_frame :: "typed_frame \<Rightarrow> frame" where
  "wire_frame (Data_frame f) = set_id
     \<lparr>fr_type = 0, fr_flags = flag_if (df_end_stream f) 1 OR flag_if (df_pad_length f \<noteq> 0) 8,
      fr_stream_id = 0, fr_payload = padded (df_pad_length f) (df_data f)\<rparr> (df_stream_id f)"
| "wire_frame (Headers_frame f) = set_id
     \<lparr>fr_type = 1,
      fr_flags = flag_if (hf_end_stream f) 1 OR flag_if (hf_end_headers f) 4 OR
        flag_if (hf_has_priority f) 0x20 OR flag_if (hf_pad_length f \<noteq> 0) 8,
      fr_stream_id = 0,
      fr_payload = padded (hf_pad_length f)
        ((if hf_has_priority f
          then push_be32 (exclusive_dependency (hf_priority f)) @ [pr_weight (hf_priority f)]
          else []) @ hf_header_block f)\<rparr> (hf_stream_id f)"
| "wire_frame (Push_promise_frame f) = set_id
     \<lparr>fr_type = 5, fr_flags = flag_if (ppf_end_headers f) 4 OR flag_if (ppf_pad_length f \<noteq> 0) 8,
      fr_stream_id = 0,
      fr_payload = padded (ppf_pad_length f)
        (push_be32 (ppf_promised_id f AND 0x7FFFFFFF) @ ppf_header_block f)\<rparr> (ppf_stream_id f)"
| "wire_frame (Rst_stream_frame f) = set_id
     \<lparr>fr_type = 3, fr_flags = 0, fr_stream_id = 0,
      fr_payload = push_be32 (error_code (rst_error_code f))\<rparr> (rst_stream_id f)"
| "wire_frame (Settings_frame f) = set_id
     \<lparr>fr_type = 4, fr_flags = flag_if (sf_ack f) 1, fr_stream_id = 0,
      fr_payload = concat (map (\<lambda>e. [ucast (drop_bit 8 (se_id e)), ucast (se_id e)] @
        push_be32 (se_value e)) (sf_entries f))\<rparr> 0"
| "wire_frame (Ping_frame f) = set_id
     \<lparr>fr_type = 6, fr_flags = flag_if (ping_ack f) 1, fr_stream_id = 0,
      fr_payload = map (\<lambda>i. ucast (drop_bit (i * 8) (ping_opaque_data f))) (rev [0..<8])\<rparr> 0"
| "wire_frame (Goaway_frame f) = set_id
     \<lparr>fr_type = 7, fr_flags = 0, fr_stream_id = 0,
      fr_payload = push_be32 (ga_last_stream_id f AND 0x7FFFFFFF) @
        push_be32 (error_code (ga_error_code f)) @ ga_debug_data f\<rparr> 0"
| "wire_frame (Window_update_frame f) = set_id
     \<lparr>fr_type = 8, fr_flags = 0, fr_stream_id = 0,
      fr_payload = push_be32 (wuf_increment f AND 0x7FFFFFFF)\<rparr> (wuf_stream_id f)"
| "wire_frame (Continuation_frame f) = set_id
     \<lparr>fr_type = 9, fr_flags = flag_if (cf_end_headers f) 4, fr_stream_id = 0,
      fr_payload = cf_header_block f\<rparr> (cf_stream_id f)"

text \<open>The frame the encoders describe: as given, but never with an exclusive dependency.\<close>

fun sent_frame :: "typed_frame \<Rightarrow> typed_frame" where
  "sent_frame (Headers_frame f) =
     Headers_frame (f\<lparr>hf_priority := (hf_priority f)\<lparr>pr_exclusive := False\<rparr>\<rparr>)"
| "sent_frame t = t"

fun exclusive_frame :: "typed_frame \<Rightarrow> bool" where
  "exclusive_frame (Headers_frame f) = (hf_has_priority f \<and> pr_exclusive (hf_priority f))"
| "exclusive_frame t = False"

lemma wire_sent_frame: "\<not> exclusive_frame t \<Longrightarrow> wire_frame (sent_frame t) = wire_frame t"
  by (cases t) (auto simp: exclusive_dependency_def)

lemma length_wire_sent [simp]:
  "length (fr_payload (wire_frame (sent_frame t))) = length (fr_payload (wire_frame t))"
  by (cases t) (simp_all add: padded_def set_id_def)

lemma build_frame_header_eq:
  assumes "n = length p"
  shows "build_frame_header ty flags i n @ p = frame_bytes (set_id
    \<lparr>fr_type = frame_type_code ty, fr_flags = flags, fr_stream_id = 0, fr_payload = p\<rparr> i)"
  using assms push_be31_eq [of i]
  by (simp add: build_frame_header_def frame_bytes_def set_id_def Let_def push_be31_def)

lemma foldl_concat: "foldl (\<lambda>r e. r @ f e) xs es = xs @ concat (map f es)"
  by (induction es arbitrary: xs) simp_all

lemma flags_or:
  "flag_if b f OR 0 = flag_if b f" "(0 :: byte) OR x = x"
  "(if b then f else 0) = flag_if b f" "(if b then g OR f else g) = g OR flag_if b f"
  by (simp_all add: flag_if_def)

lemma length_padded: "length (padded p b) = (if p > 0 then length b + (1 + unat p) else length b)"
  by (auto simp: padded_def word_gt_0)

lemma encode_typed_eq: "encode_typed t = frame_bytes (wire_frame (sent_frame t))"
proof (cases t)
  case (Data_frame f)
  show ?thesis using build_frame_header_eq [OF length_padded [symmetric],
      of FT_data _ "df_stream_id f" "df_pad_length f" "df_data f"]
    by (auto simp: Data_frame encode_data_frame_def Let_def padded_def flag_if_def word_gt_0
        HTTP2_FLAG_END_STREAM_def HTTP2_FLAG_PADDED_def)
next
  case (Headers_frame f)
  let ?body = "(if hf_has_priority f
      then push_be32 (stream_dependency (hf_priority f) AND 0x7FFFFFFF) @ [pr_weight (hf_priority f)]
      else []) @ hf_header_block f"
  show ?thesis using build_frame_header_eq [OF length_padded [symmetric],
      of FT_headers _ "hf_stream_id f" "hf_pad_length f" ?body]
    by (auto simp: Headers_frame encode_headers_frame_def Let_def padded_def flag_if_def word_gt_0
        push_be31_eq exclusive_dependency_def HTTP2_FLAG_END_STREAM_def HTTP2_FLAG_END_HEADERS_def HTTP2_FLAG_PRIORITY_def
        HTTP2_FLAG_PADDED_def ac_simps)
next
  case (Push_promise_frame f)
  let ?body = "push_be32 (ppf_promised_id f AND 0x7FFFFFFF) @ ppf_header_block f"
  show ?thesis using build_frame_header_eq [OF length_padded [symmetric],
      of FT_push_promise _ "ppf_stream_id f" "ppf_pad_length f" ?body]
    by (auto simp: Push_promise_frame encode_push_promise_frame_def Let_def padded_def flag_if_def
        word_gt_0 HTTP2_FLAG_END_HEADERS_def HTTP2_FLAG_PADDED_def ac_simps)
next
  case (Rst_stream_frame f)
  show ?thesis by (simp add: Rst_stream_frame encode_rst_stream_frame_def build_frame_header_eq)
next
  case (Settings_frame f)
  have "length (sf_entries f) * 6 = length (concat (map (\<lambda>e. [ucast (drop_bit 8 (se_id e)) :: byte,
      ucast (se_id e)] @ push_be32 (se_value e)) (sf_entries f)))"
    by (simp add: length_concat comp_def sum_list_triv)
  from build_frame_header_eq [OF this] show ?thesis
    by (simp add: Settings_frame encode_settings_frame_def Let_def foldl_concat flags_or HTTP2_FLAG_ACK_def)
next
  case (Ping_frame f)
  show ?thesis
    using build_frame_header_eq [of 8 "map (\<lambda>i. ucast (drop_bit (i * 8) (ping_opaque_data f))) (rev [0..<8])"]
    by (simp add: Ping_frame encode_ping_frame_def Let_def foldl_concat flags_or HTTP2_FLAG_ACK_def upt_rec)
next
  case (Goaway_frame f)
  show ?thesis
    by (simp add: Goaway_frame encode_goaway_frame_def build_frame_header_eq push_be31_eq)
next
  case (Window_update_frame f)
  show ?thesis by (simp add: Window_update_frame encode_window_update_frame_def build_frame_header_eq)
next
  case (Continuation_frame f)
  show ?thesis
    by (simp add: Continuation_frame encode_continuation_frame_def Let_def build_frame_header_eq
        flags_or HTTP2_FLAG_END_HEADERS_def)
qed

lemma wire_stream_id: "unat (fr_stream_id (wire_frame t)) < 2 ^ 31"
proof (cases t)
qed (simp_all only: wire_frame.simps set_id_def frame.simps stream_id_31)

text \<open>C19 (frames_any_chunking): frames of any type, encoded one after the other, followed by the
  beginning of another frame and cut anywhere into pieces, are given to the callback exactly once
  each, in order; the incomplete rest is kept for the next piece. Type, flags, stream and payload
  are those of the layout of RFC 7540, with one exception: a HEADERS frame whose priority is
  exclusive arrives with the E bit clear (\<open>sent_frame\<close>). Without such frames the layout is exact.\<close>

theorem frames_any_chunking:
  assumes "concat chunks = concat (map encode_typed ts) @ rest" "length (concat chunks) < 2 ^ 63"
    "\<forall>t \<in> set ts. length (fr_payload (wire_frame t)) < 2 ^ 24" "\<not> whole_frame rest"
  shows "\<exists>cs. feed_chunks chunks \<lparr>partial_buffer = []\<rparr> = Some (\<lparr>partial_buffer = rest\<rparr>, cs) \<and>
    map call_frame cs = map (wire_frame \<circ> sent_frame) ts \<and>
    (\<forall>t \<in> set ts. \<not> exclusive_frame t \<longrightarrow> wire_frame (sent_frame t) = wire_frame t)"
proof -
  let ?fs = "map (wire_frame \<circ> sent_frame) ts"
  have ok: "list_all frame_ok ?fs"
    using assms(3) wire_stream_id by (auto simp: list_all_iff frame_ok_def)
  have "concat chunks = concat (map frame_bytes ?fs) @ rest"
    by (simp add: assms(1) ext [of encode_typed, OF encode_typed_eq] comp_def)
  then have s: "split_frames (concat chunks) = (?fs, rest)"
    using split_frames_concat [OF ok, of rest] by (simp add: split_frames_None [OF assms(4)])
  have "snd (split_frames []) = []" by (simp add: split_frames.simps whole_frame_def)
  from feed_chunks_ok [of "\<lparr>partial_buffer = []\<rparr>" chunks] this assms(2) s wire_sent_frame
  show ?thesis by simp
qed

theorem frames_any_chunking_witness:
  "\<exists>cs. feed_chunks [[0, 0, 4, 8, 0, 0, 0], [0, 3, 0, 0, 1], [], [0, 7, 7]] \<lparr>partial_buffer = []\<rparr> =
      Some (\<lparr>partial_buffer = [7, 7]\<rparr>, cs) \<and>
    map call_frame cs = [\<lparr>fr_type = 8, fr_flags = 0, fr_stream_id = 3, fr_payload = [0, 0, 1, 0]\<rparr>]"
proof -
  let ?t = "Window_update_frame \<lparr>wuf_stream_id = 3, wuf_increment = 256\<rparr>"
  have w: "wire_frame ?t = \<lparr>fr_type = 8, fr_flags = 0, fr_stream_id = 3, fr_payload = [0, 0, 1, 0]\<rparr>"
    "encode_typed ?t = [0, 0, 4, 8, 0, 0, 0, 0, 3, 0, 0, 1, 0]" by code_simp+
  have "concat [[0, 0, 4, 8, 0, 0, 0], [0, 3, 0, 0, 1], [], [0, 7, 7]] =
      concat (map encode_typed [?t]) @ [7, 7]" by (simp add: w del: encode_typed.simps)
  from frames_any_chunking [OF this] show ?thesis by (simp add: w whole_frame_def del: wire_frame.simps)
qed

text \<open>Fact (exclusive_flag_lost): the encoder writes the same bytes whether the priority is exclusive
  or not, where the layout has the two frames differ in the E bit.\<close>

theorem exclusive_flag_lost:
  "let f = \<lparr>hf_stream_id = 5, hf_header_block = [0x82], hf_pad_length = 0,
       hf_priority = \<lparr>stream_dependency = 3, pr_weight = 15, pr_exclusive = True\<rparr>,
       hf_end_stream = True, hf_end_headers = True, hf_has_priority = True\<rparr>;
     g = f\<lparr>hf_priority := (hf_priority f)\<lparr>pr_exclusive := False\<rparr>\<rparr>
   in encode_headers_frame f = encode_headers_frame g \<and>
      fr_payload (wire_frame (Headers_frame f)) = [0x80, 0, 0, 3, 15, 0x82] \<and>
      fr_payload (wire_frame (Headers_frame g)) = [0, 0, 0, 3, 15, 0x82]"
  by code_simp

end
