(* ===== verification/Http2Stream.thy ===== *)
theory Http2Stream
  imports Http2Framer
begin

section \<open>HTTP/2 streams, flow control and settings\<close>

text \<open>
  \<open>http2_stream\<close>, \<open>http2_flow_control\<close> and \<open>http2_settings\<close> of
  \<open>src/network/http/http2_protocol.cpp\<close>. A window is a \<open>uint32_t\<close> that wraps. The stream's state
  is related to its two sides: the half on which this endpoint sends and the half on which it
  receives.
\<close>

subsection \<open>http2_stream\<close>

datatype http2_stream_state =
  Idle | Reserved_local | Reserved_remote | Open_state | Half_closed_local | Half_closed_remote |
  Closed_state

record http2_stream =
  st_id :: u32
  st_state :: http2_stream_state
  st_local_window :: u32
  st_remote_window :: u32

definition HTTP2_DEFAULT_INITIAL_WINDOW_SIZE :: u32 where
  "HTTP2_DEFAULT_INITIAL_WINDOW_SIZE = 65535"

definition http2_stream_new :: "u32 \<Rightarrow> http2_stream" where
  "http2_stream_new stream_id =
     \<lparr>st_id = stream_id, st_state = Idle, st_local_window = HTTP2_DEFAULT_INITIAL_WINDOW_SIZE,
      st_remote_window = HTTP2_DEFAULT_INITIAL_WINDOW_SIZE\<rparr>"

definition can_send_headers :: "http2_stream \<Rightarrow> bool" where
  "can_send_headers s \<longleftrightarrow> st_state s = Idle \<or> st_state s = Reserved_local \<or> st_state s = Open_state"

definition can_send_data :: "http2_stream \<Rightarrow> bool" where
  "can_send_data s \<longleftrightarrow> st_state s = Open_state"

definition can_receive :: "http2_stream \<Rightarrow> bool" where
  "can_receive s \<longleftrightarrow> st_state s = Open_state \<or> st_state s = Half_closed_remote"

definition is_closed :: "http2_stream \<Rightarrow> bool" where
  "is_closed s \<longleftrightarrow> st_state s = Closed_state"

definition on_send_headers :: "bool \<Rightarrow> http2_stream \<Rightarrow> http2_stream" where
  "on_send_headers end_stream s =
     (if st_state s = Idle
      then s\<lparr>st_state := (if end_stream then Half_closed_local else Open_state)\<rparr>
      else if st_state s = Reserved_local
      then s\<lparr>st_state := (if end_stream then Closed_state else Half_closed_remote)\<rparr>
      else s)"

definition on_send_data :: "bool \<Rightarrow> http2_stream \<Rightarrow> http2_stream" where
  "on_send_data end_stream s =
     (if end_stream
      then (if st_state s = Open_state then s\<lparr>st_state := Half_closed_local\<rparr>
            else if st_state s = Half_closed_remote then s\<lparr>st_state := Closed_state\<rparr> else s)
      else s)"

definition on_receive_headers :: "bool \<Rightarrow> http2_stream \<Rightarrow> http2_stream" where
  "on_receive_headers end_stream s =
     (if st_state s = Idle
      then s\<lparr>st_state := (if end_stream then Half_closed_remote else Open_state)\<rparr>
      else if st_state s = Reserved_remote
      then s\<lparr>st_state := (if end_stream then Closed_state else Half_closed_local)\<rparr>
      else if st_state s = Half_closed_local \<and> end_stream then s\<lparr>st_state := Closed_state\<rparr>
      else s)"

definition on_receive_data :: "bool \<Rightarrow> http2_stream \<Rightarrow> http2_stream" where
  "on_receive_data end_stream s =
     (if end_stream
      then (if st_state s = Open_state then s\<lparr>st_state := Half_closed_remote\<rparr>
            else if st_state s = Half_closed_local then s\<lparr>st_state := Closed_state\<rparr> else s)
      else s)"

definition on_send_rst_stream :: "http2_stream \<Rightarrow> http2_stream" where
  "on_send_rst_stream s = s\<lparr>st_state := Closed_state\<rparr>"

definition on_receive_rst_stream :: "http2_stream \<Rightarrow> http2_stream" where
  "on_receive_rst_stream s = s\<lparr>st_state := Closed_state\<rparr>"

definition stream_close :: "http2_stream \<Rightarrow> http2_stream" where
  "stream_close s = s\<lparr>st_state := Closed_state\<rparr>"

definition consume_local_window :: "u32 \<Rightarrow> http2_stream \<Rightarrow> http2_stream" where
  "consume_local_window amount s =
     (if amount \<le> st_local_window s then s\<lparr>st_local_window := st_local_window s - amount\<rparr> else s)"

definition consume_remote_window :: "u32 \<Rightarrow> http2_stream \<Rightarrow> http2_stream" where
  "consume_remote_window amount s =
     (if amount \<le> st_remote_window s then s\<lparr>st_remote_window := st_remote_window s - amount\<rparr> else s)"

definition add_local_window :: "u32 \<Rightarrow> http2_stream \<Rightarrow> http2_stream" where
  "add_local_window amount s = s\<lparr>st_local_window := st_local_window s + amount\<rparr>"

definition add_remote_window :: "u32 \<Rightarrow> http2_stream \<Rightarrow> http2_stream" where
  "add_remote_window amount s = s\<lparr>st_remote_window := st_remote_window s + amount\<rparr>"

subsection \<open>http2_flow_control\<close>

record http2_flow_control =
  initial_window :: u32
  connection_window :: u32
  stream_windows :: "(u32 \<times> u32) list"

definition flow_control_new :: "u32 \<Rightarrow> http2_flow_control" where
  "flow_control_new w = \<lparr>initial_window = w, connection_window = w, stream_windows = []\<rparr>"

definition set_initial_window :: "u32 \<Rightarrow> http2_flow_control \<Rightarrow> http2_flow_control" where
  "set_initial_window size_new fc = fc\<lparr>initial_window := size_new\<rparr>"

definition fc_can_send :: "u32 \<Rightarrow> u32 \<Rightarrow> http2_flow_control \<Rightarrow> bool" where
  "fc_can_send stream_id amount fc =
     (if amount > connection_window fc then False
      else (let stream_window =
              (case map_of (stream_windows fc) stream_id of Some w \<Rightarrow> w | None \<Rightarrow> initial_window fc)
            in amount \<le> stream_window))"

definition fc_consume :: "u32 \<Rightarrow> u32 \<Rightarrow> http2_flow_control \<Rightarrow> http2_flow_control" where
  "fc_consume stream_id amount fc =
     (let fc = fc\<lparr>connection_window := connection_window fc - amount\<rparr>
      in case map_of (stream_windows fc) stream_id of
           None \<Rightarrow> fc\<lparr>stream_windows := AList.update stream_id (initial_window fc - amount) (stream_windows fc)\<rparr>
         | Some w \<Rightarrow> fc\<lparr>stream_windows := AList.update stream_id (w - amount) (stream_windows fc)\<rparr>)"

definition fc_add_window :: "u32 \<Rightarrow> u32 \<Rightarrow> http2_flow_control \<Rightarrow> http2_flow_control" where
  "fc_add_window stream_id amount fc =
     (if stream_id = 0 then fc\<lparr>connection_window := connection_window fc + amount\<rparr>
      else (case map_of (stream_windows fc) stream_id of
           None \<Rightarrow> fc\<lparr>stream_windows := AList.update stream_id (initial_window fc + amount) (stream_windows fc)\<rparr>
         | Some w \<Rightarrow> fc\<lparr>stream_windows := AList.update stream_id (w + amount) (stream_windows fc)\<rparr>))"

definition fc_window :: "u32 \<Rightarrow> http2_flow_control \<Rightarrow> u32" where
  "fc_window stream_id fc =
     (case map_of (stream_windows fc) stream_id of Some w \<Rightarrow> w | None \<Rightarrow> initial_window fc)"

subsection \<open>http2_settings\<close>

type_synonym http2_settings = "(u16 \<times> u32) list"

definition settings_set :: "http2_settings_id \<Rightarrow> u32 \<Rightarrow> http2_settings \<Rightarrow> http2_settings" where
  "settings_set i v params = AList.update (settings_code i) v params"

definition settings_get :: "http2_settings_id \<Rightarrow> http2_settings \<Rightarrow> u32" where
  "settings_get i params = (case map_of params (settings_code i) of Some v \<Rightarrow> v | None \<Rightarrow> 0)"

definition http2_settings_new :: http2_settings where
  "http2_settings_new =
     settings_set Max_header_list_size 0xFFFFFFFF
      (settings_set Max_frame_size 16384
       (settings_set Initial_window_size HTTP2_DEFAULT_INITIAL_WINDOW_SIZE
        (settings_set Max_concurrent_streams 100
         (settings_set Enable_push 0
          (settings_set Header_table_size 4096 [])))))"

definition header_table_size :: "http2_settings \<Rightarrow> u32" where
  "header_table_size params = settings_get Header_table_size params"

definition enable_push :: "http2_settings \<Rightarrow> bool" where
  "enable_push params \<longleftrightarrow> settings_get Enable_push params \<noteq> 0"

definition max_concurrent_streams :: "http2_settings \<Rightarrow> u32" where
  "max_concurrent_streams params = settings_get Max_concurrent_streams params"

definition initial_window_size :: "http2_settings \<Rightarrow> u32" where
  "initial_window_size params = settings_get Initial_window_size params"

definition max_frame_size :: "http2_settings \<Rightarrow> u32" where
  "max_frame_size params = settings_get Max_frame_size params"

definition max_header_list_size :: "http2_settings \<Rightarrow> u32" where
  "max_header_list_size params = settings_get Max_header_list_size params"

text \<open>The body of the loop: an entry is skipped by \<open>continue\<close> or assigned.\<close>

definition apply_setting :: "http2_settings_entry \<Rightarrow> http2_settings \<Rightarrow> http2_settings" where
  "apply_setting entry params =
     (let v = se_value entry
      in if se_id entry = settings_code Max_frame_size \<and> (v < 16384 \<or> v > 16777215) then params
         else if se_id entry = settings_code Enable_push \<and> v > 1 then params
         else if se_id entry = settings_code Initial_window_size \<and> v > 0x7FFFFFFF then params
         else AList.update (se_id entry) v params)"

definition apply_remote_settings :: "http2_settings_frame \<Rightarrow> http2_settings \<Rightarrow> http2_settings" where
  "apply_remote_settings frame params = fold apply_setting (sf_entries frame) params"

subsection \<open>The two sides of a stream\<close>

text \<open>
  The contract of RFC 7540, 5.1, in terms of the two sides of a stream: each side starts when it
  is opened, is active, and ends for good with END\_STREAM or a reset. HEADERS open the sending
  side and, on an idle stream, the other side too.
\<close>

datatype side = Not_open | Active | Ended

datatype stream_event =
  Send_headers bool | Send_data bool | Receive_headers bool | Receive_data bool |
  Send_rst | Receive_rst | Close

fun stream_apply :: "stream_event \<Rightarrow> http2_stream \<Rightarrow> http2_stream" where
  "stream_apply (Send_headers fin) s = on_send_headers fin s"
| "stream_apply (Send_data fin) s = on_send_data fin s"
| "stream_apply (Receive_headers fin) s = on_receive_headers fin s"
| "stream_apply (Receive_data fin) s = on_receive_data fin s"
| "stream_apply Send_rst s = on_send_rst_stream s"
| "stream_apply Receive_rst s = on_receive_rst_stream s"
| "stream_apply Close s = stream_close s"

fun state_sides :: "http2_stream_state \<Rightarrow> side \<times> side" where
  "state_sides Idle = (Not_open, Not_open)"
| "state_sides Reserved_local = (Not_open, Ended)"
| "state_sides Reserved_remote = (Ended, Not_open)"
| "state_sides Open_state = (Active, Active)"
| "state_sides Half_closed_local = (Ended, Active)"
| "state_sides Half_closed_remote = (Active, Ended)"
| "state_sides Closed_state = (Ended, Ended)"

definition sides :: "http2_stream \<Rightarrow> side \<times> side" where
  "sides s = state_sides (st_state s)"

fun headers_on :: "bool \<Rightarrow> side \<Rightarrow> side \<Rightarrow> side \<times> side" where
  "headers_on fin Not_open other = (if fin then Ended else Active, if other = Not_open then Active else other)"
| "headers_on fin Active other = (if fin then Ended else Active, other)"
| "headers_on fin Ended other = (Ended, other)"

fun data_on :: "bool \<Rightarrow> side \<Rightarrow> side" where
  "data_on fin Active = (if fin then Ended else Active)"
| "data_on fin sd = sd"

fun sides_step :: "stream_event \<Rightarrow> side \<times> side \<Rightarrow> side \<times> side" where
  "sides_step (Send_headers fin) (s, r) = headers_on fin s r"
| "sides_step (Receive_headers fin) (s, r) = (let (r, s) = headers_on fin r s in (s, r))"
| "sides_step (Send_data fin) (s, r) = (data_on fin s, r)"
| "sides_step (Receive_data fin) (s, r) = (s, data_on fin r)"
| "sides_step _ (s, r) = (Ended, Ended)"

text \<open>
  HEADERS with END\_STREAM that the code takes no notice of: those that are sent when the own side is
  active already (trailers, and a first response without a body on a stream that the request opened),
  and those received when both sides are active (trailers of the request).
\<close>

fun ignored_end :: "stream_event \<Rightarrow> side \<times> side \<Rightarrow> bool" where
  "ignored_end (Send_headers fin) p \<longleftrightarrow> fin \<and> fst p = Active"
| "ignored_end (Receive_headers fin) p \<longleftrightarrow> fin \<and> p = (Active, Active)"
| "ignored_end _ p \<longleftrightarrow> False"

definition code_step :: "stream_event \<Rightarrow> side \<times> side \<Rightarrow> side \<times> side" where
  "code_step e p = (if ignored_end e p then p else sides_step e p)"

lemmas stream_defs = on_send_headers_def on_send_data_def on_receive_headers_def on_receive_data_def
  on_send_rst_stream_def on_receive_rst_stream_def stream_close_def sides_def

lemma end_ignored: "ignored_end e (sides s) \<Longrightarrow> stream_apply e s = s"
  by (cases e; cases "st_state s") (auto simp: stream_defs)

lemma sides_apply: "sides (stream_apply e s) = code_step e (sides s)"
proof (cases "ignored_end e (sides s)")
  case True
  then show ?thesis by (simp add: code_step_def end_ignored)
next
  case False
  then show ?thesis by (cases e; cases "st_state s") (auto simp: stream_defs code_step_def)
qed

text \<open>A stream as a transition system, with the events that led to the state.\<close>

inductive stream_run :: "http2_stream \<Rightarrow> stream_event list \<Rightarrow> http2_stream \<Rightarrow> bool" where
  Start: "stream_run s [] s"
| Step: "stream_run s es t \<Longrightarrow> stream_run s (es @ [e]) (stream_apply e t)"

inductive_cases stream_run_SnocE: "stream_run s (es @ [e]) t"

fun side_rank :: "side \<Rightarrow> nat" where
  "side_rank Not_open = 0"
| "side_rank Active = 1"
| "side_rank Ended = 2"

lemma headers_on_rank:
  "side_rank s \<le> side_rank (fst (headers_on fin s r)) \<and> side_rank r \<le> side_rank (snd (headers_on fin s r))"
  by (cases s; cases r) auto

lemma data_on_rank: "side_rank s \<le> side_rank (data_on fin s)"
  by (cases s) auto

lemma rank_2: "side_rank s \<le> 2"
  by (cases s) auto

lemma sides_step_rank:
  "side_rank (fst p) \<le> side_rank (fst (sides_step e p)) \<and> side_rank (snd p) \<le> side_rank (snd (sides_step e p))"
  by (cases e; cases p) (simp_all add: headers_on_rank data_on_rank rank_2 case_prod_beta)

lemma apply_rank:
  "side_rank (fst (sides s)) \<le> side_rank (fst (sides (stream_apply e s))) \<and>
   side_rank (snd (sides s)) \<le> side_rank (snd (sides (stream_apply e s)))"
  using sides_step_rank [of "sides s" e] by (simp add: sides_apply code_step_def)

lemma apply_keeps_id: "st_id (stream_apply e s) = st_id s"
  by (cases e) (auto simp: stream_defs)

lemma run_rank:
  "stream_run s es t \<Longrightarrow> st_id t = st_id s \<and> side_rank (fst (sides s)) \<le> side_rank (fst (sides t)) \<and>
    side_rank (snd (sides s)) \<le> side_rank (snd (sides t))"
  by (induction rule: stream_run.induct) (auto simp: apply_keeps_id intro: order_trans [OF _ conjunct1 [OF apply_rank]]
      order_trans [OF _ conjunct2 [OF apply_rank]])

lemma Ended_mono: "side_rank a \<le> side_rank b \<Longrightarrow> a = Ended \<longrightarrow> b = Ended"
  by (cases a; cases b) auto

lemma state_of_sides: "state_sides a = state_sides b \<longleftrightarrow> a = b"
  by (cases a; cases b) auto

lemma run_sides: "stream_run s es t \<Longrightarrow> sides t = fold code_step es (sides s)"
  by (induction rule: stream_run.induct) (simp_all add: sides_apply)

lemma code_steps_rfc:
  "\<forall>k < length es. \<not> ignored_end (es ! k) (fold sides_step (take k es) p) \<Longrightarrow>
   fold code_step es p = fold sides_step es p"
proof (induction es rule: rev_induct)
  case (snoc e es)
  have "\<forall>k < length es. \<not> ignored_end (es ! k) (fold sides_step (take k es) p)"
    using snoc.prems by (auto simp: nth_append dest: spec less_SucI)
  moreover have "\<not> ignored_end e (fold sides_step es p)"
    using snoc.prems [rule_format, of "length es"] by simp
  ultimately show ?case using snoc.IH by (simp add: code_step_def)
qed simp

text \<open>C23 (stream_refines_sides): along any events the state of a stream is the one its two sides
  prescribe, where a side does not notice END\_STREAM on HEADERS that are sent when it is active
  already (trailers, and also a response of HEADERS alone on an open or half-closed stream) or
  received when both sides are active (\<open>ignored_end\<close>). Along events without such HEADERS the sides
  are those of RFC 7540. No state has more than its sides in it.\<close>

theorem stream_refines_sides:
  assumes "stream_run (http2_stream_new i) es t"
  shows "sides t = fold code_step es (Not_open, Not_open) \<and>
    ((\<forall>k < length es. \<not> ignored_end (es ! k) (fold sides_step (take k es) (Not_open, Not_open))) \<longrightarrow>
      sides t = fold sides_step es (Not_open, Not_open)) \<and>
    st_id t = i \<and> (\<forall>u. sides u = sides t \<longrightarrow> st_state u = st_state t)"
proof -
  have n: "sides (http2_stream_new i) = (Not_open, Not_open)" by (simp add: sides_def http2_stream_new_def)
  have c: "sides t = fold code_step es (Not_open, Not_open)" using run_sides [OF assms] unfolding n .
  moreover have "(\<forall>k < length es. \<not> ignored_end (es ! k) (fold sides_step (take k es) (Not_open, Not_open))) \<longrightarrow>
      sides t = fold sides_step es (Not_open, Not_open)"
    using code_steps_rfc [of es "(Not_open, Not_open)"] unfolding c by blast
  moreover have "st_id t = i" using run_rank [OF assms] by (simp add: http2_stream_new_def)
  moreover have "\<forall>u. sides u = sides t \<longrightarrow> st_state u = st_state t" by (simp add: sides_def state_of_sides)
  ultimately show ?thesis by blast
qed

lemma http2_stream_new_states [simp]: "st_state (http2_stream_new i) = Idle"
  by (simp add: http2_stream_new_def)

theorem stream_refines_sides_witness:
  "\<exists>t. stream_run (http2_stream_new 1) [Receive_headers False, Receive_data True, Send_data True] t \<and>
     st_state t = Closed_state"
proof -
  let ?s = "http2_stream_new 1" and ?es = "[Receive_headers False, Receive_data True, Send_data True]"
  have r1: "stream_run ?s [Receive_headers False] (stream_apply (Receive_headers False) ?s)"
    using Step [OF Start, of ?s "Receive_headers False"] by simp
  have r2: "stream_run ?s [Receive_headers False, Receive_data True]
      (stream_apply (Receive_data True) (stream_apply (Receive_headers False) ?s))"
    using Step [OF r1, of "Receive_data True"] by simp
  let ?t = "stream_apply (Send_data True) (stream_apply (Receive_data True) (stream_apply (Receive_headers False) ?s))"
  have r3: "stream_run ?s ?es ?t" using Step [OF r2, of "Send_data True"] by simp
  have "\<forall>k < length ?es. \<not> ignored_end (?es ! k) (fold sides_step (take k ?es) (Not_open, Not_open))"
    by (auto simp: less_Suc_eq numeral_3_eq_3)
  from stream_refines_sides [OF r3, THEN conjunct2, THEN conjunct1, THEN mp, OF this]
  have "sides ?t = (Ended, Ended)" by simp
  then have "st_state ?t = Closed_state" by (cases "st_state ?t") (simp_all add: sides_def)
  with r3 show ?thesis by blast
qed

text \<open>C24 (stream_never_reopens): no sequence of events makes a side of a stream go back: a stream
  that is closed stays closed, and a side that has ended never becomes active again, trailers or
  not.\<close>

theorem stream_never_reopens:
  assumes "stream_run s es t"
  shows "(is_closed s \<longrightarrow> is_closed t) \<and>
    (fst (sides s) = Ended \<longrightarrow> fst (sides t) = Ended) \<and>
    (snd (sides s) = Ended \<longrightarrow> snd (sides t) = Ended) \<and>
    (st_state t = Idle \<longrightarrow> st_state s = Idle)"
proof -
  note r = run_rank [OF assms]
  have e: "fst (sides s) = Ended \<longrightarrow> fst (sides t) = Ended" "snd (sides s) = Ended \<longrightarrow> snd (sides t) = Ended"
    using r by (blast intro: Ended_mono [THEN mp])+
  have closed: "is_closed u \<longleftrightarrow> sides u = (Ended, Ended)" for u
    by (cases "st_state u") (auto simp: is_closed_def sides_def)
  have idle: "st_state u = Idle \<longleftrightarrow> side_rank (fst (sides u)) = 0 \<and> side_rank (snd (sides u)) = 0" for u
    by (cases "st_state u") (auto simp: sides_def)
  have "is_closed s \<longrightarrow> is_closed t" unfolding closed using e by (auto simp only: prod_eq_iff fst_conv snd_conv)
  moreover have "st_state t = Idle \<longrightarrow> st_state s = Idle" unfolding idle using r by linarith
  ultimately show ?thesis using e by blast
qed

theorem stream_never_reopens_witness:
  "is_closed (stream_apply (Receive_headers False) (stream_close (http2_stream_new 7)))"
proof -
  have "stream_run (stream_close (http2_stream_new 7)) [Receive_headers False]
      (stream_apply (Receive_headers False) (stream_close (http2_stream_new 7)))"
    using Step [OF Start, of _ "Receive_headers False"] by simp
  from stream_never_reopens [OF this] show ?thesis by (simp add: is_closed_def stream_close_def)
qed

text \<open>Fact (stream_trailers_ignored): HEADERS with END\_STREAM on an open stream do not end its side,
  so the stream is not closed by the other side's END\_STREAM either; \<open>can_receive\<close> is true for the
  side that has ended and false for the one that still receives, and \<open>can_send_data\<close> is false on
  a stream that \<open>on_send_data\<close> can close.\<close>

theorem stream_trailers_ignored:
  "st_state (on_send_data True (on_receive_headers True (on_receive_headers False (http2_stream_new i)))) =
     Half_closed_local \<and>
   can_receive (on_receive_data True (on_receive_headers False (http2_stream_new i))) \<and>
   \<not> can_receive (on_send_data True (on_receive_headers False (http2_stream_new i))) \<and>
   \<not> can_send_data (on_receive_data True (on_receive_headers False (http2_stream_new i))) \<and>
   is_closed (on_send_data True (on_receive_data True (on_receive_headers False (http2_stream_new i))))"
  by (simp add: stream_defs can_receive_def can_send_data_def is_closed_def)

text \<open>Fact (headers_only_response_stays_open): a response that consists of HEADERS with END\_STREAM
  leaves an open stream open and a half-closed one half-closed, so that it is never closed, where the
  contract of the sides ends the sending side.\<close>

theorem headers_only_response_stays_open:
  "st_state (on_send_headers True (on_receive_headers False (http2_stream_new i))) = Open_state \<and>
   st_state (on_send_headers True (on_receive_headers True (http2_stream_new i))) = Half_closed_remote \<and>
   fold sides_step [Receive_headers True, Send_headers True] (Not_open, Not_open) = (Ended, Ended)"
  by (simp add: stream_defs)

subsection \<open>Flow control accounts\<close>

datatype fc_op = Consume u32 u32 | Add_window u32 u32

fun fc_apply :: "fc_op \<Rightarrow> http2_flow_control \<Rightarrow> http2_flow_control" where
  "fc_apply (Consume i a) fc = fc_consume i a fc"
| "fc_apply (Add_window i a) fc = fc_add_window i a fc"

text \<open>A sender that asks \<open>can_send\<close> first, and a peer whose increments do not overflow a window.\<close>

fun fc_allowed :: "fc_op \<Rightarrow> http2_flow_control \<Rightarrow> bool" where
  "fc_allowed (Consume i a) fc = fc_can_send i a fc"
| "fc_allowed (Add_window i a) fc =
     (unat (if i = 0 then connection_window fc else fc_window i fc) + unat a < 2 ^ 32)"

fun fc_all_allowed :: "fc_op list \<Rightarrow> http2_flow_control \<Rightarrow> bool" where
  "fc_all_allowed [] fc = True"
| "fc_all_allowed (x # xs) fc = (fc_allowed x fc \<and> fc_all_allowed xs (fc_apply x fc))"

text \<open>What was sent on the streams of \<open>S\<close> and what was granted to them.\<close>

definition fc_sent :: "(u32 \<Rightarrow> bool) \<Rightarrow> fc_op list \<Rightarrow> nat" where
  "fc_sent S ops = sum_list (map (\<lambda>x. case x of Consume i a \<Rightarrow> if S i then unat a else 0 | _ \<Rightarrow> 0) ops)"

definition fc_granted :: "u32 \<Rightarrow> fc_op list \<Rightarrow> nat" where
  "fc_granted j ops = sum_list (map (\<lambda>x. case x of Add_window i a \<Rightarrow> if i = j then unat a else 0 | _ \<Rightarrow> 0) ops)"

lemma unat_minus: "a \<le> (w :: u32) \<Longrightarrow> unat (w - a) = unat w - unat a"
  by (simp add: unat_sub)

lemma unat_plus: "unat (w :: u32) + unat a < 2 ^ 32 \<Longrightarrow> unat (w + a) = unat w + unat a"
  by (simp add: unat_word_ariths)

lemma fc_consume_ok:
  assumes "fc_can_send i a fc"
  shows "unat (connection_window (fc_consume i a fc)) = unat (connection_window fc) - unat a"
    "unat a \<le> unat (connection_window fc)" "unat a \<le> unat (fc_window i fc)"
    "unat (fc_window j (fc_consume i a fc)) = (if j = i then unat (fc_window j fc) - unat a else unat (fc_window j fc))"
proof -
  have le: "a \<le> connection_window fc" "a \<le> fc_window i fc"
    using assms by (auto simp: fc_can_send_def fc_window_def Let_def not_less split: if_splits)
  then show "unat a \<le> unat (connection_window fc)" "unat a \<le> unat (fc_window i fc)"
    by (simp_all add: word_le_nat_alt)
  show "unat (connection_window (fc_consume i a fc)) = unat (connection_window fc) - unat a"
    using unat_minus [OF le(1)] by (simp add: fc_consume_def Let_def split: option.split)
  have "fc_window j (fc_consume i a fc) = (if j = i then fc_window i fc - a else fc_window j fc)"
    by (auto simp: fc_consume_def fc_window_def Let_def split: option.splits)
  then show "unat (fc_window j (fc_consume i a fc)) = (if j = i then unat (fc_window j fc) - unat a else unat (fc_window j fc))"
    using unat_minus [OF le(2)] by auto
qed

lemma fc_add_ok:
  "fc_window j (fc_add_window i a fc) = (if i \<noteq> 0 \<and> j = i then fc_window j fc + a else fc_window j fc)"
  "connection_window (fc_add_window i a fc) = (if i = 0 then connection_window fc + a else connection_window fc)"
  by (auto simp: fc_add_window_def fc_window_def split: option.splits)

lemma fc_apply_accounts:
  assumes "fc_allowed x fc"
  shows "unat (connection_window (fc_apply x fc)) + fc_sent (\<lambda>_. True) [x] =
      unat (connection_window fc) + fc_granted 0 [x]"
    "j \<noteq> 0 \<Longrightarrow> unat (fc_window j (fc_apply x fc)) + fc_sent ((=) j) [x] =
      unat (fc_window j fc) + fc_granted j [x]"
  using assms fc_consume_ok [of _ _ fc]
  by (cases x; auto simp: fc_sent_def fc_granted_def fc_add_ok unat_plus split: if_splits)+

text \<open>Modulo \<open>2 ^ 32\<close> the accounts hold for every sequence of calls.\<close>

lemma fc_apply_modulo:
  "connection_window (fc_apply x fc) + of_nat (fc_sent (\<lambda>_. True) [x]) =
     connection_window fc + of_nat (fc_granted 0 [x])"
  "j \<noteq> 0 \<Longrightarrow> fc_window j (fc_apply x fc) + of_nat (fc_sent ((=) j) [x]) =
     fc_window j fc + of_nat (fc_granted j [x])"
proof -
  have c: "connection_window (fc_consume i a fc) = connection_window fc - a"
    "fc_window j (fc_consume i a fc) = (if j = i then fc_window i fc - a else fc_window j fc)" for i a
    by (auto simp: fc_consume_def fc_window_def Let_def split: option.splits)
  show "connection_window (fc_apply x fc) + of_nat (fc_sent (\<lambda>_. True) [x]) =
     connection_window fc + of_nat (fc_granted 0 [x])"
    by (cases x) (auto simp: fc_sent_def fc_granted_def fc_add_ok c)
  show "fc_window j (fc_apply x fc) + of_nat (fc_sent ((=) j) [x]) = fc_window j fc + of_nat (fc_granted j [x])"
    if "j \<noteq> 0"
    using that by (cases x) (auto simp: fc_sent_def fc_granted_def fc_add_ok c)
qed

lemma fc_split:
  "fc_sent S (x # xs) = fc_sent S [x] + fc_sent S xs" "fc_granted i (x # xs) = fc_granted i [x] + fc_granted i xs"
  "fc_sent S [] = 0" "fc_granted i [] = 0"
  by (simp_all add: fc_sent_def fc_granted_def)

lemma add_step: "a + s = b + g \<Longrightarrow> c + s' = a + g' \<Longrightarrow> c + (s + s') = b + (g + g')"
  for a :: "'a::ab_group_add"
  by (metis add.assoc add.commute)

lemma fc_modulo:
  "connection_window (fold fc_apply ops fc) + of_nat (fc_sent (\<lambda>_. True) ops) =
     connection_window fc + of_nat (fc_granted 0 ops)"
  "j \<noteq> 0 \<Longrightarrow> fc_window j (fold fc_apply ops fc) + of_nat (fc_sent ((=) j) ops) =
     fc_window j fc + of_nat (fc_granted j ops)"
proof (induction ops arbitrary: fc)
  case (Cons x xs)
  { case 1
    show ?case unfolding fc_split(1,2)[of _ x xs] of_nat_add fold.simps comp_def
      by (rule add_step [OF fc_apply_modulo(1) Cons.IH(1)]) }
  { case 2
    show ?case unfolding fc_split(1,2)[of _ x xs] of_nat_add fold.simps comp_def
      by (rule add_step [OF fc_apply_modulo(2) [OF 2] Cons.IH(2) [OF 2]]) }
qed (simp_all add: fc_split)

lemma fc_exact:
  assumes "fc_all_allowed ops fc" "j \<noteq> 0"
  shows "unat (connection_window (fold fc_apply ops fc)) + fc_sent (\<lambda>_. True) ops =
      unat (connection_window fc) + fc_granted 0 ops \<and>
    unat (fc_window j (fold fc_apply ops fc)) + fc_sent ((=) j) ops = unat (fc_window j fc) + fc_granted j ops"
  using assms
proof (induction ops arbitrary: fc)
  case (Cons x xs)
  show ?case using Cons.IH [of "fc_apply x fc"] Cons.prems fc_apply_accounts(1) [of x fc]
      fc_apply_accounts(2) [of x fc j] unfolding fc_split(1,2)[of _ x xs] by simp
qed (simp add: fc_split)

text \<open>C25 (flow_control_accounts): after any calls of \<open>consume\<close> and \<open>add_window\<close> the window of the
  connection and that of every stream is the initial one plus what was granted minus what was sent,
  modulo \<open>2 ^ 32\<close>. If the caller asks \<open>can_send\<close> before each \<open>consume\<close> and also keeps every increment
  from overflowing its window, which \<open>add_window\<close> itself does not check, the accounts hold as
  numbers: then neither the connection nor a stream sends more than its peer allowed.\<close>

theorem flow_control_accounts:
  assumes "j \<noteq> 0"
  shows "let fc = fold fc_apply ops (flow_control_new w);
      sent = fc_sent (\<lambda>_. True) ops; sent_on = fc_sent ((=) j) ops in
    connection_window fc + of_nat sent = w + of_nat (fc_granted 0 ops) \<and>
    fc_window j fc + of_nat sent_on = w + of_nat (fc_granted j ops) \<and>
    (fc_all_allowed ops (flow_control_new w) \<longrightarrow>
      unat (connection_window fc) + sent = unat w + fc_granted 0 ops \<and>
      unat (fc_window j fc) + sent_on = unat w + fc_granted j ops)"
proof -
  have n: "connection_window (flow_control_new w) = w" "fc_window j (flow_control_new w) = w"
    by (simp_all add: flow_control_new_def fc_window_def)
  show ?thesis unfolding Let_def
    using fc_modulo(1) [of ops "flow_control_new w"] fc_modulo(2) [OF assms, of ops "flow_control_new w"]
      fc_exact [OF _ assms, of ops "flow_control_new w"] unfolding n by blast
qed

theorem flow_control_accounts_witness:
  "let fc = fold fc_apply [Consume 1 60000, Add_window 0 100, Consume 3 5000] (flow_control_new 65535)
   in unat (connection_window fc) = 635 \<and> unat (fc_window 3 fc) = 60535"
proof -
  let ?ops = "[Consume 1 60000, Add_window 0 100, Consume 3 5000]"
  have "fc_all_allowed ?ops (flow_control_new 65535)"
    by (simp add: flow_control_new_def fc_can_send_def fc_consume_def fc_add_window_def)
  with flow_control_accounts [of 3 ?ops 65535] show ?thesis
    by (simp add: fc_sent_def fc_granted_def Let_def del: fold_simps)
qed

text \<open>Fact (add_window_wraps): an increment that overflows a window is taken without an error, and the
  window wraps.\<close>

theorem add_window_wraps:
  "connection_window (fc_add_window 0 0x7FFFFFFF (fc_add_window 0 0x7FFFFFFF (flow_control_new 65535))) = 65533"
  by (simp add: fc_add_window_def flow_control_new_def)

subsection \<open>Negotiated settings\<close>

text \<open>The values of RFC 7540, 6.5.2, that the code accepts.\<close>

definition setting_accepted :: "http2_settings_entry \<Rightarrow> bool" where
  "setting_accepted e \<longleftrightarrow>
     (se_id e = 5 \<longrightarrow> 16384 \<le> se_value e \<and> se_value e \<le> 16777215) \<and>
     (se_id e = 2 \<longrightarrow> se_value e \<le> 1) \<and>
     (se_id e = 4 \<longrightarrow> se_value e \<le> 0x7FFFFFFF)"

definition settings_ok :: "http2_settings \<Rightarrow> bool" where
  "settings_ok params \<longleftrightarrow> 16384 \<le> max_frame_size params \<and> max_frame_size params \<le> 16777215 \<and>
     settings_get Enable_push params \<le> 1 \<and> initial_window_size params \<le> 0x7FFFFFFF"

lemma apply_setting_eq:
  "apply_setting e params = (if setting_accepted e then AList.update (se_id e) (se_value e) params else params)"
  by (auto simp: apply_setting_def setting_accepted_def Let_def)

lemma apply_settings_map:
  "map_of (fold apply_setting es params) =
     map_of params ++ map_of (rev (map (\<lambda>e. (se_id e, se_value e)) (filter setting_accepted es)))"
  by (induction es arbitrary: params) (auto simp: apply_setting_eq)

lemma settings_code_inj [simp]: "settings_code i = settings_code j \<longleftrightarrow> i = j"
  by (cases i; cases j) auto

lemma settings_ok_update:
  "settings_ok params \<Longrightarrow> setting_accepted e \<Longrightarrow> settings_ok (AList.update (se_id e) (se_value e) params)"
  by (auto simp: settings_ok_def setting_accepted_def max_frame_size_def initial_window_size_def settings_get_def)

lemma settings_ok_new: "settings_ok http2_settings_new"
  by code_simp

text \<open>C26 (settings_negotiated): after a SETTINGS frame each parameter has the last acceptable value
  that the frame gives for it, or its old one; and the frame size, push flag and window size stay
  within the limits of the specification.\<close>

theorem settings_negotiated:
  assumes "settings_ok params"
  shows "settings_get i (apply_remote_settings frame params) =
      (case map_of (rev (map (\<lambda>e. (se_id e, se_value e)) (filter setting_accepted (sf_entries frame))))
          (settings_code i) of Some v \<Rightarrow> v | None \<Rightarrow> settings_get i params) \<and>
    settings_ok (apply_remote_settings frame params)"
proof -
  have "settings_ok (fold apply_setting es params)" for es
    using assms by (induction es arbitrary: params) (auto simp: apply_setting_eq settings_ok_update)
  then show ?thesis
    by (auto simp: settings_get_def apply_remote_settings_def apply_settings_map map_add_def split: option.split)
qed

theorem settings_negotiated_witness:
  "max_frame_size (apply_remote_settings \<lparr>sf_ack = False, sf_entries =
      [\<lparr>se_id = 5, se_value = 20000\<rparr>, \<lparr>se_id = 5, se_value = 7\<rparr>]\<rparr> http2_settings_new) = 20000"
  using settings_negotiated [OF settings_ok_new, of Max_frame_size "\<lparr>sf_ack = False, sf_entries =
      [\<lparr>se_id = 5, se_value = 20000\<rparr>, \<lparr>se_id = 5, se_value = 7\<rparr>]\<rparr>"]
  by (simp add: max_frame_size_def setting_accepted_def)

end
