(* ===== verification/Strings.thy ===== *)
theory Strings
  imports Prelude
begin

section \<open>Strings\<close>

text \<open>
  The operations of \<open>basic_string\<close> and \<open>basic_string_view\<close> that the network code uses
  (\<open>include/NeForce/core/string/\<close>). A string is a list of characters; \<open>npos\<close> is None for
  a position and the length of the string for a count, which the code clamps.
\<close>

definition is_upper :: "char \<Rightarrow> bool" where
  "is_upper c \<longleftrightarrow> 65 \<le> (of_char c :: nat) \<and> (of_char c :: nat) \<le> 90"

definition is_lower :: "char \<Rightarrow> bool" where
  "is_lower c \<longleftrightarrow> 97 \<le> (of_char c :: nat) \<and> (of_char c :: nat) \<le> 122"

definition is_digit :: "char \<Rightarrow> bool" where
  "is_digit c \<longleftrightarrow> 48 \<le> (of_char c :: nat) \<and> (of_char c :: nat) \<le> 57"

definition to_lowercase :: "char \<Rightarrow> char" where
  "to_lowercase c = (if is_upper c then char_of (of_char c + 32 :: nat) else c)"

definition lowercase :: "string \<Rightarrow> string" where
  "lowercase s = map to_lowercase s"

fun starts_with :: "string \<Rightarrow> string \<Rightarrow> bool" where
  "starts_with s [] = True"
| "starts_with [] (c # cs) = False"
| "starts_with (d # s) (c # cs) = (d = c \<and> starts_with s cs)"

text \<open>\<open>find(c, pos)\<close>: the position counts from the start of the whole string.\<close>

fun find_from :: "nat \<Rightarrow> char \<Rightarrow> string \<Rightarrow> nat option" where
  "find_from i c [] = None"
| "find_from i c (d # s) = (if d = c then Some i else find_from (i + 1) c s)"

definition find_char :: "char \<Rightarrow> nat \<Rightarrow> string \<Rightarrow> nat option" where
  "find_char c pos s = find_from pos c (drop pos s)"

text \<open>\<open>substr(off, count)\<close>, \<open>head(count)\<close> and \<open>tail(off)\<close>, for an offset inside the string.\<close>

definition substr :: "nat \<Rightarrow> nat \<Rightarrow> string \<Rightarrow> string" where
  "substr off cnt s = take cnt (drop off s)"

text \<open>\<open>to_string\<close> of an unsigned number.\<close>

fun decimal :: "nat \<Rightarrow> string" where
  "decimal n = (if n < 10 then [char_of (48 + n)] else decimal (n div 10) @ [char_of (48 + n mod 10)])"

declare decimal.simps [simp del]

lemma starts_with_append [simp]: "starts_with (s @ t) s"
  by (induction s) auto

lemma starts_with_iff: "starts_with s p \<longleftrightarrow> take (length p) s = p"
  by (induction s p rule: starts_with.induct) auto

lemma find_from_None: "find_from i c s = None \<longleftrightarrow> c \<notin> set s"
  by (induction s arbitrary: i) auto

lemma find_from_append:
  "c \<notin> set s \<Longrightarrow> find_from i c (s @ t) = find_from (i + length s) c t"
  by (induction s arbitrary: i) auto

lemma find_from_Some:
  "find_from i c s = Some k \<Longrightarrow> i \<le> k \<and> k < i + length s \<and> s ! (k - i) = c \<and> c \<notin> set (take (k - i) s)"
proof (induction s arbitrary: i)
  case (Cons d s)
  show ?case
  proof (cases "d = c")
    case False
    then have IH: "i + 1 \<le> k" "k < i + 1 + length s" "s ! (k - (i + 1)) = c" "c \<notin> set (take (k - (i + 1)) s)"
      using Cons.IH [of "i + 1"] Cons.prems by auto
    then obtain j where "k = i + 1 + j" using le_Suc_ex by blast
    then show ?thesis using IH False by simp
  qed (use Cons in simp)
qed simp

end
