(* ===== verification/Http2Connection.thy ===== *)
theory Http2Connection
  imports Hpack Http2Stream Strings
begin

section \<open>HTTP/2 connections\<close>

text \<open>
  \<open>src/network/http/http2_connection.cpp\<close>: the server side of a connection. One record holds
  its members; an operation takes and returns it. What the environment sees is part of the
  record: the bytes given to the socket, the requests given to the router or the stream handler,
  and the codes given to the close handler. The socket accepts every byte. \<open>None\<close> is a read
  behind the end of the received bytes or a loop that does not end. Locks and the registration
  with the I/O context are left out, and a handler answers after it returned: its answer is a
  later call of \<open>send_response\<close>.
\<close>

subsection \<open>State\<close>

record pending_stream =
  ps_headers :: "header_field list"
  ps_fragment :: "byte list"
  ps_data :: "byte list"
  ps_end_stream :: bool
  ps_waiting :: bool

definition pending_stream_new :: pending_stream where
  "pending_stream_new =
     \<lparr>ps_headers = [], ps_fragment = [], ps_data = [], ps_end_stream = False, ps_waiting = False\<rparr>"

text \<open>The members of \<open>http_request\<close> that \<open>route_stream\<close> sets.\<close>

record http_request =
  rq_method :: string
  rq_path :: string
  rq_query :: string
  rq_headers :: "(string \<times> string) list"
  rq_body :: "byte list"

datatype delivery =
  Routed u32 http_request bool
| Handled u32 "header_field list" "byte list" bool

record http2_connection =
  hc_framer :: http2_framer
  hc_local_settings :: http2_settings
  hc_remote_settings :: http2_settings
  hc_encoder :: hpack_table
  hc_decoder :: hpack_table
  hc_flow :: http2_flow_control
  hc_streams :: "(u32 \<times> http2_stream) list"
  hc_last_stream_id :: u32
  hc_closed :: bool
  hc_preface_received :: bool
  hc_read_buffer :: "byte list"
  hc_write_buffer :: "byte list"
  hc_connection_consumed :: u32
  hc_stream_consumed :: "(u32 \<times> u32) list"
  hc_priorities :: "(u32 \<times> byte) list"
  hc_local_stream_window :: u32
  hc_write_batch_depth :: int
  hc_pending :: "(u32 \<times> pending_stream) list"
  hc_has_router :: bool
  hc_has_handler :: bool
  hc_sent :: "byte list"
  hc_requests :: "delivery list"
  hc_close_codes :: "u32 list"

definition http2_connection_new :: "bool \<Rightarrow> bool \<Rightarrow> http2_connection" where
  "http2_connection_new router handler =
     \<lparr>hc_framer = \<lparr>partial_buffer = []\<rparr>,
      hc_local_settings = http2_settings_new, hc_remote_settings = http2_settings_new,
      hc_encoder = hpack_new (header_table_size http2_settings_new),
      hc_decoder = hpack_new (header_table_size http2_settings_new),
      hc_flow = flow_control_new (initial_window_size http2_settings_new),
      hc_streams = [], hc_last_stream_id = 0, hc_closed = False, hc_preface_received = False,
      hc_read_buffer = [], hc_write_buffer = [], hc_connection_consumed = 0,
      hc_stream_consumed = [], hc_priorities = [],
      hc_local_stream_window = initial_window_size http2_settings_new,
      hc_write_batch_depth = 0, hc_pending = [], hc_has_router = router, hc_has_handler = handler,
      hc_sent = [], hc_requests = [], hc_close_codes = []\<rparr>"

definition MAX_READ_BUFFER_SIZE :: nat where "MAX_READ_BUFFER_SIZE = 65536"
definition MAX_WRITE_BUFFER_SIZE :: int where "MAX_WRITE_BUFFER_SIZE = 4194304"
definition WINDOW_UPDATE_THRESHOLD :: u32 where "WINDOW_UPDATE_THRESHOLD = 65535"

definition HTTP2_CLIENT_PREFACE :: "byte list" where
  "HTTP2_CLIENT_PREFACE = map of_char
     (''PRI * HTTP/2.0'' @ [CHR 0x0D, CHR 0x0A, CHR 0x0D, CHR 0x0A] @ ''SM'' @
      [CHR 0x0D, CHR 0x0A, CHR 0x0D, CHR 0x0A])"

subsection \<open>Writing\<close>

definition flush_writes :: "http2_connection \<Rightarrow> http2_connection" where
  "flush_writes c =
     (if hc_write_buffer c = [] then c
      else c\<lparr>hc_sent := hc_sent c @ hc_write_buffer c, hc_write_buffer := []\<rparr>)"

definition flush_writes_over :: "int \<Rightarrow> http2_connection \<Rightarrow> http2_connection" where
  "flush_writes_over threshold c =
     (if int (length (hc_write_buffer c)) < threshold then c
      else c\<lparr>hc_sent := hc_sent c @ hc_write_buffer c, hc_write_buffer := []\<rparr>)"

definition close_connection :: "http2_error \<Rightarrow> http2_connection \<Rightarrow> http2_connection" where
  "close_connection error c =
     (if hc_closed c then c
      else (let c = flush_writes (c\<lparr>hc_closed := True\<rparr>)
            in c\<lparr>hc_close_codes := hc_close_codes c @ [error_code error]\<rparr>))"

definition write_frame :: "byte list \<Rightarrow> http2_connection \<Rightarrow> http2_connection" where
  "write_frame frame c =
     (if frame = [] then c
      else if int (length (hc_write_buffer c) + length frame) > MAX_WRITE_BUFFER_SIZE
      then close_connection Enhance_your_calm c
      else c\<lparr>hc_write_buffer := hc_write_buffer c @ frame\<rparr>)"

definition send_window_update :: "u32 \<Rightarrow> u32 \<Rightarrow> http2_connection \<Rightarrow> http2_connection" where
  "send_window_update stream_id increment c =
     (let increment = increment AND 0x7FFFFFFF
      in if increment = 0 then c
         else write_frame (encode_window_update_frame
           \<lparr>wuf_stream_id = stream_id, wuf_increment = increment\<rparr>) c)"

text \<open>\<open>erase\<close> of a stream from the maps that \<open>send_rst_stream\<close> clears.\<close>

definition send_rst_stream :: "u32 \<Rightarrow> http2_error \<Rightarrow> http2_connection \<Rightarrow> http2_connection" where
  "send_rst_stream stream_id error c =
     (let c = write_frame (encode_rst_stream_frame \<lparr>rst_stream_id = stream_id, rst_error_code = error\<rparr>) c
      in c\<lparr>hc_streams := AList.delete stream_id (hc_streams c),
           hc_priorities := AList.delete stream_id (hc_priorities c),
           hc_pending := AList.delete stream_id (hc_pending c),
           hc_stream_consumed := AList.delete stream_id (hc_stream_consumed c)\<rparr>)"

definition send_goaway :: "http2_error \<Rightarrow> http2_connection \<Rightarrow> http2_connection" where
  "send_goaway error c =
     close_connection error (write_frame (encode_goaway_frame
       \<lparr>ga_last_stream_id = hc_last_stream_id c, ga_error_code = error, ga_debug_data = []\<rparr>) c)"

definition settings_entry :: "http2_settings_id \<Rightarrow> u32 \<Rightarrow> http2_settings_entry" where
  "settings_entry i v = \<lparr>se_id = settings_code i, se_value = v\<rparr>"

definition connection_start :: "http2_connection \<Rightarrow> http2_connection" where
  "connection_start c =
     (let ls = hc_local_settings c;
          sf = \<lparr>sf_ack = False, sf_entries =
            [settings_entry Max_concurrent_streams (max_concurrent_streams ls),
             settings_entry Initial_window_size (initial_window_size ls),
             settings_entry Max_frame_size (max_frame_size ls),
             settings_entry Header_table_size (header_table_size ls)]\<rparr>
      in flush_writes (write_frame (encode_settings_frame sf) c))"

definition set_max_concurrent_streams :: "u32 \<Rightarrow> http2_connection \<Rightarrow> http2_connection" where
  "set_max_concurrent_streams v c =
     (if v > 0
      then c\<lparr>hc_local_settings := settings_set Max_concurrent_streams v (hc_local_settings c)\<rparr> else c)"

definition connection_stop :: "http2_connection \<Rightarrow> http2_connection" where
  "connection_stop c = (if hc_closed c then c else c\<lparr>hc_closed := True\<rparr>)"

subsection \<open>Requests\<close>

definition request_new :: http_request where
  "request_new = \<lparr>rq_method = ''GET'', rq_path = ''/'', rq_query = '''', rq_headers = [], rq_body = []\<rparr>"

definition request_header :: "header_field \<Rightarrow> http_request \<Rightarrow> http_request" where
  "request_header h req =
     (let (name, v) = h in
      if name = '':method'' then req\<lparr>rq_method := v\<rparr>
      else if name = '':path'' then
        (case find_char (CHR ''?'') 0 v of
           Some qpos \<Rightarrow> req\<lparr>rq_path := take qpos v, rq_query := drop (qpos + 1) v\<rparr>
         | None \<Rightarrow> req\<lparr>rq_path := v\<rparr>)
      else if name = '':authority'' then req\<lparr>rq_headers := AList.update ''Host'' v (rq_headers req)\<rparr>
      else if name = '':scheme'' then req\<lparr>rq_headers := AList.update ''X-Forwarded-Proto'' v (rq_headers req)\<rparr>
      else if \<not> starts_with name '':'' then req\<lparr>rq_headers := AList.update name v (rq_headers req)\<rparr>
      else req)"

definition route_stream ::
  "u32 \<Rightarrow> header_field list \<Rightarrow> byte list \<Rightarrow> bool \<Rightarrow> http2_connection \<Rightarrow> http2_connection" where
  "route_stream stream_id headers data end_stream c =
     (if \<not> hc_has_router c then c
      else (let req = fold request_header headers request_new;
                req = (if length data > 0 then req\<lparr>rq_body := data\<rparr> else req)
            in c\<lparr>hc_requests := hc_requests c @ [Routed stream_id req end_stream]\<rparr>))"

definition handle_upgrade_request ::
  "u32 \<Rightarrow> header_field list \<Rightarrow> byte list \<Rightarrow> bool \<Rightarrow> http2_connection \<Rightarrow> http2_connection" where
  "handle_upgrade_request stream_id headers data end_stream c =
     route_stream stream_id headers data end_stream c"

text \<open>The choice between the router and the stream handler, at each end of a request.\<close>

definition deliver :: "u32 \<Rightarrow> header_field list \<Rightarrow> byte list \<Rightarrow> http2_connection \<Rightarrow> http2_connection" where
  "deliver stream_id headers data c =
     (if hc_has_router c then route_stream stream_id headers data True c
      else if hc_has_handler c
      then c\<lparr>hc_requests := hc_requests c @ [Handled stream_id headers data True]\<rparr>
      else c)"

text \<open>Removal of a stream that is closed, with its priority.\<close>

definition erase_if_closed :: "u32 \<Rightarrow> http2_connection \<Rightarrow> http2_connection" where
  "erase_if_closed stream_id c =
     (case map_of (hc_streams c) stream_id of
        None \<Rightarrow> c
      | Some s \<Rightarrow>
          if is_closed s
          then c\<lparr>hc_streams := AList.delete stream_id (hc_streams c),
                 hc_priorities := AList.delete stream_id (hc_priorities c)\<rparr>
          else c)"

definition update_stream ::
  "u32 \<Rightarrow> (http2_stream \<Rightarrow> http2_stream) \<Rightarrow> http2_connection \<Rightarrow> http2_connection" where
  "update_stream stream_id f c =
     (case map_of (hc_streams c) stream_id of
        None \<Rightarrow> c
      | Some s \<Rightarrow> c\<lparr>hc_streams := AList.update stream_id (f s) (hc_streams c)\<rparr>)"

subsection \<open>Sending\<close>

text \<open>The loop that cuts a header block into HEADERS and CONTINUATION frames.\<close>

primrec header_loop ::
  "nat \<Rightarrow> u32 \<Rightarrow> byte list \<Rightarrow> nat \<Rightarrow> bool \<Rightarrow> bool \<Rightarrow> nat \<Rightarrow> http2_connection \<Rightarrow> http2_connection option" where
  "header_loop 0 stream_id header_block offset is_first end_stream max_frame c = None"
| "header_loop (Suc rounds) stream_id header_block offset is_first end_stream max_frame c =
     (if offset < length header_block then
        (let chunk_size = min (length header_block - offset) max_frame;
             is_last = (offset + chunk_size \<ge> length header_block);
             fragment = take chunk_size (drop offset header_block);
             c = (if is_first
                  then write_frame (encode_headers_frame
                    \<lparr>hf_stream_id = stream_id, hf_header_block = fragment, hf_pad_length = 0,
                     hf_priority = \<lparr>stream_dependency = 0, pr_weight = 0, pr_exclusive = False\<rparr>,
                     hf_end_stream = (is_last \<and> end_stream), hf_end_headers = is_last,
                     hf_has_priority = False\<rparr>) c
                  else write_frame (encode_continuation_frame
                    \<lparr>cf_stream_id = stream_id, cf_header_block = fragment, cf_end_headers = is_last\<rparr>) c)
         in header_loop rounds stream_id header_block (offset + chunk_size) False end_stream max_frame c)
      else Some c)"

definition write_header_block ::
  "u32 \<Rightarrow> byte list \<Rightarrow> bool \<Rightarrow> http2_connection \<Rightarrow> http2_connection option" where
  "write_header_block stream_id header_block end_stream c =
     (let max_frame = unat (max_frame_size (hc_local_settings c)) in
      if length header_block > max_frame
      then header_loop (length header_block + 1) stream_id header_block 0 True end_stream max_frame c
      else Some (write_frame (encode_headers_frame
        \<lparr>hf_stream_id = stream_id, hf_header_block = header_block, hf_pad_length = 0,
         hf_priority = \<lparr>stream_dependency = 0, pr_weight = 0, pr_exclusive = False\<rparr>,
         hf_end_stream = end_stream, hf_end_headers = True, hf_has_priority = False\<rparr>) c))"

text \<open>The size of the next DATA frame: at least one byte, whatever the windows say.\<close>

definition data_chunk :: "u32 \<Rightarrow> nat \<Rightarrow> http2_connection \<Rightarrow> nat" where
  "data_chunk stream_id remaining c =
     (let available = fc_window stream_id (hc_flow c);
          available = min available (connection_window (hc_flow c));
          available = (if available = 0 then 1 else available)
      in min (min remaining (unat available)) (unat (max_frame_size (hc_local_settings c))))"

primrec data_loop ::
  "nat \<Rightarrow> u32 \<Rightarrow> byte list \<Rightarrow> bool \<Rightarrow> http2_connection \<Rightarrow> http2_connection option" where
  "data_loop 0 stream_id data end_stream c = None"
| "data_loop (Suc rounds) stream_id data end_stream c =
     (if length data > 0 then
        (let chunk = data_chunk stream_id (length data) c;
             df = \<lparr>df_stream_id = stream_id, df_data = take chunk data, df_pad_length = 0,
               df_end_stream = (chunk \<ge> length data \<and> end_stream)\<rparr>;
             c = c\<lparr>hc_flow := fc_consume stream_id (of_nat chunk) (hc_flow c)\<rparr>;
             c = write_frame (encode_data_frame df) c
         in data_loop rounds stream_id (drop chunk data) end_stream c)
      else Some c)"

text \<open>What \<open>send_response\<close>, \<open>send_data\<close> and \<open>send_trailers\<close> do to the stream they end.\<close>

definition end_sending :: "u32 \<Rightarrow> http2_connection \<Rightarrow> http2_connection" where
  "end_sending stream_id c = erase_if_closed stream_id (update_stream stream_id (on_send_data True) c)"

definition send_response ::
  "u32 \<Rightarrow> header_field list \<Rightarrow> byte list \<Rightarrow> bool \<Rightarrow> http2_connection \<Rightarrow> http2_connection option" where
  "send_response stream_id headers body end_stream c =
     (let (enc, header_block) = hpack_encode headers (hc_encoder c);
          c = c\<lparr>hc_encoder := enc\<rparr>
      in case write_header_block stream_id header_block (end_stream \<and> body = []) c of
           None \<Rightarrow> None
         | Some c \<Rightarrow>
             (case data_loop (length body + 1) stream_id body end_stream c of
                None \<Rightarrow> None
              | Some c \<Rightarrow>
                  (let c = (if end_stream then end_sending stream_id c else c);
                       peer_multiplexes = (max_concurrent_streams (hc_remote_settings c) > 1)
                   in if hc_write_batch_depth c = 0 \<or> length body \<ge> 16 * 1024 \<or> \<not> peer_multiplexes
                      then Some (flush_writes c)
                      else Some (flush_writes_over (1024 * 1024) c))))"

definition send_headers ::
  "u32 \<Rightarrow> header_field list \<Rightarrow> bool \<Rightarrow> http2_connection \<Rightarrow> http2_connection option" where
  "send_headers stream_id headers end_stream c =
     (let (enc, header_block) = hpack_encode headers (hc_encoder c)
      in case write_header_block stream_id header_block end_stream (c\<lparr>hc_encoder := enc\<rparr>) of
           None \<Rightarrow> None
         | Some c \<Rightarrow>
             (let c = update_stream stream_id (on_send_headers False) c;
                  c = (if end_stream then update_stream stream_id (on_send_data True) c else c)
              in Some (flush_writes (erase_if_closed stream_id c))))"

definition send_data :: "u32 \<Rightarrow> byte list \<Rightarrow> bool \<Rightarrow> http2_connection \<Rightarrow> http2_connection option" where
  "send_data stream_id data end_stream c =
     (case data_loop (length data + 1) stream_id data end_stream c of
        None \<Rightarrow> None
      | Some c \<Rightarrow> Some (flush_writes (if end_stream then end_sending stream_id c else c)))"

definition send_trailers :: "u32 \<Rightarrow> header_field list \<Rightarrow> http2_connection \<Rightarrow> http2_connection option" where
  "send_trailers stream_id trailers c =
     (let (enc, header_block) = hpack_encode trailers (hc_encoder c)
      in case write_header_block stream_id header_block True (c\<lparr>hc_encoder := enc\<rparr>) of
           None \<Rightarrow> None
         | Some c \<Rightarrow> Some (flush_writes (end_sending stream_id c)))"

definition send_push_promise ::
  "u32 \<Rightarrow> u32 \<Rightarrow> header_field list \<Rightarrow> http2_connection \<Rightarrow> http2_connection" where
  "send_push_promise stream_id promised_stream_id request_headers c =
     (if hc_closed c then c
      else if \<not> enable_push (hc_remote_settings c) then c
      else if promised_stream_id AND 1 \<noteq> 0 \<or> promised_stream_id = 0 then c
      else
        (let (enc, header_block) = hpack_encode request_headers (hc_encoder c);
             stream = on_send_headers False (http2_stream_new promised_stream_id);
             c = c\<lparr>hc_encoder := enc, hc_streams := AList.update promised_stream_id stream (hc_streams c)\<rparr>;
             c = write_frame (encode_push_promise_frame
               \<lparr>ppf_stream_id = stream_id, ppf_promised_id = promised_stream_id,
                ppf_header_block = header_block, ppf_pad_length = 0, ppf_end_headers = True\<rparr>) c
         in c\<lparr>hc_last_stream_id := max promised_stream_id (hc_last_stream_id c)\<rparr>))"

text \<open>
  \<open>write_body_frames\<close> writes the DATA frames of a body into the buffer without building a frame
  structure; a full buffer closes the connection and drops the rest.
\<close>

primrec body_loop ::
  "nat \<Rightarrow> u32 \<Rightarrow> byte list \<Rightarrow> bool \<Rightarrow> http2_connection \<Rightarrow> http2_connection option" where
  "body_loop 0 stream_id data end_stream c = None"
| "body_loop (Suc rounds) stream_id data end_stream c =
     (if length data > 0 then
        (let chunk = data_chunk stream_id (length data) c;
             frame_size = 9 + chunk;
             n = (of_nat chunk :: u64)
         in if int (length (hc_write_buffer c) + frame_size) > MAX_WRITE_BUFFER_SIZE
            then Some (close_connection Enhance_your_calm c)
            else
              (let out =
                 [ucast (drop_bit 16 n AND 0xFF), ucast (drop_bit 8 n AND 0xFF), ucast (n AND 0xFF),
                  frame_type_code FT_data,
                  (if chunk \<ge> length data \<and> end_stream then HTTP2_FLAG_END_STREAM else 0),
                  ucast (drop_bit 24 stream_id AND 0x7F), ucast (drop_bit 16 stream_id AND 0xFF),
                  ucast (drop_bit 8 stream_id AND 0xFF), ucast (stream_id AND 0xFF)] @ take chunk data;
                c = c\<lparr>hc_write_buffer := hc_write_buffer c @ out\<rparr>;
                c = c\<lparr>hc_flow := fc_consume stream_id (of_nat chunk) (hc_flow c)\<rparr>
               in body_loop rounds stream_id (drop chunk data) end_stream c))
      else Some c)"

definition write_body_frames ::
  "u32 \<Rightarrow> byte list \<Rightarrow> bool \<Rightarrow> http2_connection \<Rightarrow> http2_connection option" where
  "write_body_frames stream_id data end_stream c = body_loop (length data + 1) stream_id data end_stream c"

text \<open>The answer of the router, and the headers it becomes.\<close>

definition hop_by_hop :: "string \<Rightarrow> bool" where
  "hop_by_hop lower \<longleftrightarrow>
     lower = ''connection'' \<or> lower = ''transfer-encoding'' \<or> lower = ''keep-alive'' \<or> starts_with lower '':''"

definition response_headers_to_hpack :: "nat \<Rightarrow> (string \<times> string) list \<Rightarrow> header_field list" where
  "response_headers_to_hpack status_code headers =
     foldl (\<lambda>result h. let lower = lowercase (fst h)
        in if hop_by_hop lower then result else result @ [(lower, snd h)])
       [('':status'', decimal status_code)] headers"

definition router_answer ::
  "u32 \<Rightarrow> bool \<Rightarrow> nat \<Rightarrow> (string \<times> string) list \<Rightarrow> byte list \<Rightarrow> http2_connection \<Rightarrow> http2_connection option" where
  "router_answer stream_id end_stream status headers body c =
     (if hc_closed c then Some c
      else if status \<ge> 101
      then send_response stream_id (response_headers_to_hpack status headers) body end_stream c
      else Some c)"
subsection \<open>Frame handlers\<close>

definition consume_window_of :: "u32 \<Rightarrow> nat \<Rightarrow> http2_connection \<Rightarrow> http2_connection" where
  "consume_window_of stream_id len c =
     (let c = c\<lparr>hc_flow := fc_consume stream_id (of_nat len) (hc_flow c),
                hc_connection_consumed := hc_connection_consumed c + of_nat len\<rparr>;
          c = (if hc_connection_consumed c \<ge> WINDOW_UPDATE_THRESHOLD
               then (send_window_update 0 (hc_connection_consumed c) c)\<lparr>hc_connection_consumed := 0\<rparr>
               else c);
          consumed = (case map_of (hc_stream_consumed c) stream_id of Some v \<Rightarrow> v | None \<Rightarrow> 0) + of_nat len;
          c = c\<lparr>hc_stream_consumed := AList.update stream_id consumed (hc_stream_consumed c)\<rparr>
      in if consumed \<ge> WINDOW_UPDATE_THRESHOLD
         then (let c = send_window_update stream_id consumed c
               in c\<lparr>hc_stream_consumed := AList.update stream_id 0 (hc_stream_consumed c)\<rparr>)
         else c)"

definition handle_data_frame ::
  "byte \<Rightarrow> u32 \<Rightarrow> byte list \<Rightarrow> nat \<Rightarrow> http2_connection \<Rightarrow> http2_connection" where
  "handle_data_frame flags stream_id payload len c =
     (case map_of (hc_pending c) stream_id of
        None \<Rightarrow> send_rst_stream stream_id Stream_closed c
      | Some ps \<Rightarrow>
          (let c = consume_window_of stream_id len c;
               end_stream = (flags AND HTTP2_FLAG_END_STREAM \<noteq> 0);
               ps = ps\<lparr>ps_data := ps_data ps @ take len payload, ps_end_stream := end_stream\<rparr>;
               c = c\<lparr>hc_pending := AList.update stream_id ps (hc_pending c)\<rparr>
           in if end_stream then
                (let c = erase_if_closed stream_id (update_stream stream_id (on_receive_data True) c);
                     c = deliver stream_id (ps_headers ps) (ps_data ps) c
                 in c\<lparr>hc_pending := AList.delete stream_id (hc_pending c),
                      hc_stream_consumed := AList.delete stream_id (hc_stream_consumed c)\<rparr>)
              else c))"

definition handle_headers_frame ::
  "byte \<Rightarrow> u32 \<Rightarrow> byte list \<Rightarrow> nat \<Rightarrow> http2_connection \<Rightarrow> http2_connection option" where
  "handle_headers_frame flags stream_id payload len c =
     (let end_stream = (flags AND HTTP2_FLAG_END_STREAM \<noteq> 0);
          end_headers = (flags AND HTTP2_FLAG_END_HEADERS \<noteq> 0);
          is_new = (map_of (hc_streams c) stream_id = None)
      in if is_new \<and> length (hc_streams c) \<ge> unat (max_concurrent_streams (hc_local_settings c))
         then Some (send_rst_stream stream_id Refused_stream c)
         else
           (let c = (if is_new
                     then c\<lparr>hc_streams := AList.update stream_id
                       (on_receive_headers end_stream (http2_stream_new stream_id)) (hc_streams c)\<rparr>
                     else c);
                ps = (case map_of (hc_pending c) stream_id of Some ps \<Rightarrow> ps | None \<Rightarrow> pending_stream_new);
                ps = ps\<lparr>ps_fragment := ps_fragment ps @ take len payload, ps_end_stream := end_stream\<rparr>
            in if \<not> end_headers
               then Some (c\<lparr>hc_pending := AList.update stream_id (ps\<lparr>ps_waiting := True\<rparr>) (hc_pending c)\<rparr>)
               else
                 (case hpack_decode (ps_fragment ps) (hc_decoder c) of
                    None \<Rightarrow> None
                  | Some (dec, headers) \<Rightarrow>
                      (let ps = ps\<lparr>ps_headers := headers, ps_fragment := [], ps_waiting := False\<rparr>;
                           c = c\<lparr>hc_decoder := dec, hc_pending := AList.update stream_id ps (hc_pending c)\<rparr>
                       in if end_stream then
                            (let c = erase_if_closed stream_id c;
                                 c = deliver stream_id headers [] c
                             in Some (c\<lparr>hc_pending := AList.delete stream_id (hc_pending c)\<rparr>))
                          else Some c))))"

definition handle_continuation_frame ::
  "byte \<Rightarrow> u32 \<Rightarrow> byte list \<Rightarrow> nat \<Rightarrow> http2_connection \<Rightarrow> http2_connection option" where
  "handle_continuation_frame flags stream_id payload len c =
     (let end_headers = (flags AND HTTP2_FLAG_END_HEADERS \<noteq> 0)
      in case map_of (hc_pending c) stream_id of
           None \<Rightarrow> Some (close_connection Protocol_error c)
         | Some ps \<Rightarrow>
             if \<not> ps_waiting ps then Some (close_connection Protocol_error c)
             else
               (let ps = ps\<lparr>ps_fragment := ps_fragment ps @ take len payload\<rparr>
                in if \<not> end_headers
                   then Some (c\<lparr>hc_pending := AList.update stream_id ps (hc_pending c)\<rparr>)
                   else
                     (case hpack_decode (ps_fragment ps) (hc_decoder c) of
                        None \<Rightarrow> None
                      | Some (dec, headers) \<Rightarrow>
                          (let ps = ps\<lparr>ps_headers := headers, ps_fragment := [], ps_waiting := False\<rparr>;
                               c = c\<lparr>hc_decoder := dec, hc_pending := AList.update stream_id ps (hc_pending c)\<rparr>
                           in if ps_end_stream ps
                              then (let c = deliver stream_id headers [] c
                                    in Some (c\<lparr>hc_pending := AList.delete stream_id (hc_pending c)\<rparr>))
                              else Some c))))"

definition handle_push_promise_frame :: "byte list \<Rightarrow> nat \<Rightarrow> http2_connection \<Rightarrow> http2_connection" where
  "handle_push_promise_frame payload len c =
     (case try_read_be32 (cursor_of (take len payload)) of
        (cur, None) \<Rightarrow> c
      | (cur, Some psid) \<Rightarrow>
          (let promised_stream_id = psid AND 0x7FFFFFFF;
               ps = (case map_of (hc_pending c) promised_stream_id of Some ps \<Rightarrow> ps | None \<Rightarrow> pending_stream_new);
               ps = ps\<lparr>ps_fragment := ps_fragment ps @ take (cur_remaining cur) (bc_data cur)\<rparr>
           in c\<lparr>hc_pending := AList.update promised_stream_id ps (hc_pending c)\<rparr>))"

definition handle_priority_frame :: "u32 \<Rightarrow> byte list \<Rightarrow> nat \<Rightarrow> http2_connection \<Rightarrow> http2_connection" where
  "handle_priority_frame stream_id payload len c =
     (let (cur, _) = cur_skip 4 (cursor_of (take len payload));
          (cur, weight) = try_read_byte cur
      in case weight of
           None \<Rightarrow> c
         | Some w \<Rightarrow> c\<lparr>hc_priorities := AList.update stream_id w (hc_priorities c)\<rparr>)"

primrec settings_loop :: "nat \<Rightarrow> byte_cursor \<Rightarrow> http2_settings_entry list \<Rightarrow> http2_settings_entry list option" where
  "settings_loop 0 cur entries = None"
| "settings_loop (Suc rounds) cur entries =
     (if cur_remaining cur \<ge> 6 then
        (let (cur, id_opt) = try_read_be16 cur; (cur, val_opt) = try_read_be32 cur
         in case (id_opt, val_opt) of
              (Some i, Some v) \<Rightarrow> settings_loop rounds cur (entries @ [\<lparr>se_id = i, se_value = v\<rparr>])
            | _ \<Rightarrow> Some entries)
      else Some entries)"

definition handle_settings_frame ::
  "byte \<Rightarrow> byte list \<Rightarrow> nat \<Rightarrow> http2_connection \<Rightarrow> http2_connection option" where
  "handle_settings_frame flags payload len c =
     (if flags AND HTTP2_FLAG_ACK \<noteq> 0 then Some c
      else case settings_loop (len + 1) (cursor_of (take len payload)) [] of
             None \<Rightarrow> None
           | Some entries \<Rightarrow>
               (let c = c\<lparr>hc_remote_settings :=
                      apply_remote_settings \<lparr>sf_ack = False, sf_entries = entries\<rparr> (hc_remote_settings c)\<rparr>;
                    c = c\<lparr>hc_encoder := set_max_table_size (header_table_size (hc_remote_settings c)) (hc_encoder c),
                          hc_decoder := set_max_table_size (header_table_size (hc_remote_settings c)) (hc_decoder c),
                          hc_flow := set_initial_window (initial_window_size (hc_remote_settings c)) (hc_flow c)\<rparr>
                in Some (write_frame (encode_settings_frame \<lparr>sf_ack = True, sf_entries = []\<rparr>) c)))"

text \<open>
  The next three handlers give their cursor a fixed size, not that of the payload: the bytes they
  read are there only if the buffer goes on behind the payload.
\<close>

definition handle_ping_frame :: "byte \<Rightarrow> byte list \<Rightarrow> http2_connection \<Rightarrow> http2_connection option" where
  "handle_ping_frame flags payload c =
     (if flags AND HTTP2_FLAG_ACK \<noteq> 0 then Some c
      else if length payload < 8 then None
      else (case try_read_be64 (cursor_of (take 8 payload)) of
             (cur, None) \<Rightarrow> Some c
           | (cur, Some data) \<Rightarrow>
               Some (write_frame (encode_ping_frame \<lparr>ping_opaque_data = data, ping_ack = True\<rparr>) c)))"

definition handle_goaway_frame :: "byte list \<Rightarrow> http2_connection \<Rightarrow> http2_connection option" where
  "handle_goaway_frame payload c =
     (if length payload < 4 then None
      else (case try_read_be32 (cursor_of (take 8 payload)) of
             (cur, None) \<Rightarrow> Some c
           | (cur, Some sid) \<Rightarrow>
               Some (close_connection No_error (c\<lparr>hc_last_stream_id := sid AND 0x7FFFFFFF\<rparr>))))"

definition handle_rst_stream_frame :: "u32 \<Rightarrow> http2_connection \<Rightarrow> http2_connection" where
  "handle_rst_stream_frame stream_id c =
     (let c = (case map_of (hc_streams c) stream_id of
                 None \<Rightarrow> c
               | Some s \<Rightarrow> c\<lparr>hc_streams := AList.delete stream_id (hc_streams c),
                             hc_priorities := AList.delete stream_id (hc_priorities c)\<rparr>)
      in c\<lparr>hc_pending := AList.delete stream_id (hc_pending c),
           hc_stream_consumed := AList.delete stream_id (hc_stream_consumed c)\<rparr>)"

definition handle_window_update_frame :: "u32 \<Rightarrow> byte list \<Rightarrow> http2_connection \<Rightarrow> http2_connection option" where
  "handle_window_update_frame stream_id payload c =
     (if length payload < 4 then None
      else (case try_read_be32 (cursor_of (take 4 payload)) of
             (cur, None) \<Rightarrow> Some c
           | (cur, Some inc) \<Rightarrow>
               (let increment = inc AND 0x7FFFFFFF;
                    current = (if stream_id = 0 then connection_window (hc_flow c) else fc_window stream_id (hc_flow c))
                in if increment = 0 then Some (close_connection Protocol_error c)
                   else if (ucast current :: u64) + ucast increment > 0x7FFFFFFF
                   then Some (send_goaway Flow_control_error c)
                   else Some (c\<lparr>hc_flow := fc_add_window stream_id increment (hc_flow c)\<rparr>))))"

text \<open>A value that is no frame type matches no case.\<close>

definition handle_frame :: "frame_call \<Rightarrow> http2_connection \<Rightarrow> http2_connection option" where
  "handle_frame f c =
     (let ty = fc_type f; flags = fc_flags f; stream_id = fc_stream_id f;
          payload = fc_payload f; len = fc_len f
      in if hc_last_stream_id c > 0 \<and> stream_id > hc_last_stream_id c then Some c
         else if ty = frame_type_code FT_data then Some (handle_data_frame flags stream_id payload len c)
         else if ty = frame_type_code FT_headers then handle_headers_frame flags stream_id payload len c
         else if ty = frame_type_code FT_settings then handle_settings_frame flags payload len c
         else if ty = frame_type_code FT_ping then handle_ping_frame flags payload c
         else if ty = frame_type_code FT_goaway then handle_goaway_frame payload c
         else if ty = frame_type_code FT_rst_stream then Some (handle_rst_stream_frame stream_id c)
         else if ty = frame_type_code FT_window_update then handle_window_update_frame stream_id payload c
         else if ty = frame_type_code FT_priority then Some (handle_priority_frame stream_id payload len c)
         else if ty = frame_type_code FT_push_promise then Some (handle_push_promise_frame payload len c)
         else if ty = frame_type_code FT_continuation
         then handle_continuation_frame flags stream_id payload len c
         else Some c)"

primrec handle_frames :: "frame_call list \<Rightarrow> http2_connection \<Rightarrow> http2_connection option" where
  "handle_frames [] c = Some c"
| "handle_frames (f # fs) c = (case handle_frame f c of None \<Rightarrow> None | Some c \<Rightarrow> handle_frames fs c)"

text \<open>The part of \<open>on_readable\<close> behind the preface.\<close>

definition read_frames :: "http2_connection \<Rightarrow> http2_connection option" where
  "read_frames c =
     (let c = c\<lparr>hc_write_batch_depth := hc_write_batch_depth c + 1\<rparr>
      in case decode_frames (hc_read_buffer c) (hc_framer c) of
           None \<Rightarrow> None
         | Some (fr, calls) \<Rightarrow>
             (case handle_frames calls (c\<lparr>hc_framer := fr\<rparr>) of
                None \<Rightarrow> None
              | Some c \<Rightarrow>
                  Some (flush_writes (c\<lparr>hc_write_batch_depth := hc_write_batch_depth c - 1,
                                        hc_read_buffer := []\<rparr>))))"

text \<open>\<open>on_readable\<close>, with the bytes that the socket received; none stands for its error or end.\<close>

definition on_readable :: "byte list \<Rightarrow> http2_connection \<Rightarrow> http2_connection option" where
  "on_readable buf c =
     (if hc_closed c then Some c
      else if buf = [] then Some (close_connection Internal_error c)
      else if length (hc_read_buffer c) + length buf > MAX_READ_BUFFER_SIZE
      then Some (close_connection Enhance_your_calm c)
      else
        (let c = c\<lparr>hc_read_buffer := hc_read_buffer c @ buf\<rparr>
         in if \<not> hc_preface_received c then
              (if length (hc_read_buffer c) \<ge> 24 then
                 (if take 24 (hc_read_buffer c) \<noteq> HTTP2_CLIENT_PREFACE
                  then Some (close_connection Protocol_error c)
                  else
                    (let c = c\<lparr>hc_preface_received := True, hc_read_buffer := drop 24 (hc_read_buffer c)\<rparr>;
                         server_settings = \<lparr>sf_ack = False, sf_entries =
                           [settings_entry Max_concurrent_streams 100, settings_entry Initial_window_size 65535]\<rparr>
                     in read_frames (write_frame (encode_settings_frame server_settings) c)))
               else Some c)
            else read_frames c))"

end
