(* ===== verification/Http2Requests.thy ===== *)
theory Http2Requests
  imports Http2Connection
begin

section \<open>Requests on an HTTP/2 connection\<close>

text \<open>
  What the frame handlers of \<open>Http2Connection\<close> do with a request: the composition of the framer,
  the HPACK decoder and the stream table, the bounds that every operation keeps, and the places
  where a request is lost.
\<close>

subsection \<open>What writing leaves alone\<close>

lemma write_keeps [simp]:
  "hc_framer (write_frame f c) = hc_framer c" "hc_local_settings (write_frame f c) = hc_local_settings c"
  "hc_remote_settings (write_frame f c) = hc_remote_settings c" "hc_encoder (write_frame f c) = hc_encoder c"
  "hc_decoder (write_frame f c) = hc_decoder c" "hc_flow (write_frame f c) = hc_flow c"
  "hc_streams (write_frame f c) = hc_streams c" "hc_last_stream_id (write_frame f c) = hc_last_stream_id c"
  "hc_preface_received (write_frame f c) = hc_preface_received c"
  "hc_read_buffer (write_frame f c) = hc_read_buffer c"
  "hc_connection_consumed (write_frame f c) = hc_connection_consumed c"
  "hc_stream_consumed (write_frame f c) = hc_stream_consumed c"
  "hc_priorities (write_frame f c) = hc_priorities c" "hc_pending (write_frame f c) = hc_pending c"
  "hc_has_router (write_frame f c) = hc_has_router c" "hc_has_handler (write_frame f c) = hc_has_handler c"
  "hc_requests (write_frame f c) = hc_requests c"
  "hc_write_batch_depth (write_frame f c) = hc_write_batch_depth c"
  by (simp_all add: write_frame_def close_connection_def flush_writes_def Let_def)

lemma close_keeps [simp]:
  "hc_framer (close_connection e c) = hc_framer c" "hc_local_settings (close_connection e c) = hc_local_settings c"
  "hc_streams (close_connection e c) = hc_streams c" "hc_pending (close_connection e c) = hc_pending c"
  "hc_requests (close_connection e c) = hc_requests c" "hc_decoder (close_connection e c) = hc_decoder c"
  "hc_read_buffer (close_connection e c) = hc_read_buffer c"
  "hc_stream_consumed (close_connection e c) = hc_stream_consumed c"
  "hc_priorities (close_connection e c) = hc_priorities c"
  by (simp_all add: close_connection_def flush_writes_def Let_def)

lemma window_update_keeps [simp]:
  "hc_framer (send_window_update i n c) = hc_framer c"
  "hc_local_settings (send_window_update i n c) = hc_local_settings c"
  "hc_decoder (send_window_update i n c) = hc_decoder c" "hc_streams (send_window_update i n c) = hc_streams c"
  "hc_last_stream_id (send_window_update i n c) = hc_last_stream_id c"
  "hc_pending (send_window_update i n c) = hc_pending c"
  "hc_has_router (send_window_update i n c) = hc_has_router c"
  "hc_has_handler (send_window_update i n c) = hc_has_handler c"
  "hc_requests (send_window_update i n c) = hc_requests c"
  "hc_read_buffer (send_window_update i n c) = hc_read_buffer c"
  "hc_priorities (send_window_update i n c) = hc_priorities c"
  "hc_stream_consumed (send_window_update i n c) = hc_stream_consumed c"
  by (simp_all add: send_window_update_def Let_def)

lemma consume_keeps [simp]:
  "hc_framer (consume_window_of i n c) = hc_framer c"
  "hc_local_settings (consume_window_of i n c) = hc_local_settings c"
  "hc_decoder (consume_window_of i n c) = hc_decoder c" "hc_streams (consume_window_of i n c) = hc_streams c"
  "hc_last_stream_id (consume_window_of i n c) = hc_last_stream_id c"
  "hc_pending (consume_window_of i n c) = hc_pending c"
  "hc_has_router (consume_window_of i n c) = hc_has_router c"
  "hc_has_handler (consume_window_of i n c) = hc_has_handler c"
  "hc_requests (consume_window_of i n c) = hc_requests c"
  "hc_read_buffer (consume_window_of i n c) = hc_read_buffer c"
  "hc_priorities (consume_window_of i n c) = hc_priorities c"
  by (simp_all add: consume_window_of_def Let_def)

lemma erase_keeps [simp]:
  "hc_pending (erase_if_closed i c) = hc_pending c" "hc_requests (erase_if_closed i c) = hc_requests c"
  "hc_has_router (erase_if_closed i c) = hc_has_router c" "hc_has_handler (erase_if_closed i c) = hc_has_handler c"
  "hc_decoder (erase_if_closed i c) = hc_decoder c" "hc_local_settings (erase_if_closed i c) = hc_local_settings c"
  "hc_pending (update_stream i f c) = hc_pending c" "hc_requests (update_stream i f c) = hc_requests c"
  "hc_has_router (update_stream i f c) = hc_has_router c" "hc_has_handler (update_stream i f c) = hc_has_handler c"
  "hc_decoder (update_stream i f c) = hc_decoder c" "hc_local_settings (update_stream i f c) = hc_local_settings c"
  by (simp_all add: erase_if_closed_def update_stream_def split: option.splits)

subsection \<open>A request as frames\<close>

text \<open>The frames a client sends for a header block cut into fragments and a body cut into pieces.\<close>

definition header_frame :: "u32 \<Rightarrow> byte list \<Rightarrow> bool \<Rightarrow> bool \<Rightarrow> typed_frame" where
  "header_frame sid fragment end_stream end_headers = Headers_frame
     \<lparr>hf_stream_id = sid, hf_header_block = fragment, hf_pad_length = 0,
      hf_priority = \<lparr>stream_dependency = 0, pr_weight = 0, pr_exclusive = False\<rparr>,
      hf_end_stream = end_stream, hf_end_headers = end_headers, hf_has_priority = False\<rparr>"

fun continuation_frames :: "u32 \<Rightarrow> byte list list \<Rightarrow> typed_frame list" where
  "continuation_frames sid [] = []"
| "continuation_frames sid (f # fs) =
     Continuation_frame \<lparr>cf_stream_id = sid, cf_header_block = f, cf_end_headers = (fs = [])\<rparr> #
     continuation_frames sid fs"

fun data_frames :: "u32 \<Rightarrow> byte list list \<Rightarrow> typed_frame list" where
  "data_frames sid [] = []"
| "data_frames sid (d # ds) =
     Data_frame \<lparr>df_stream_id = sid, df_data = d, df_pad_length = 0, df_end_stream = (ds = [])\<rparr> #
     data_frames sid ds"

definition request_frames :: "u32 \<Rightarrow> byte list \<Rightarrow> byte list list \<Rightarrow> byte list list \<Rightarrow> typed_frame list" where
  "request_frames sid f fs ds =
     header_frame sid f (ds = []) (fs = []) # continuation_frames sid fs @ data_frames sid ds"

lemma request_bytes: "map encode_typed (request_frames sid f fs ds) = map frame_bytes (map wire_frame (request_frames sid f fs ds))"
proof -
  have "list_all (\<lambda>t. \<not> exclusive_frame t) (continuation_frames sid fs)"
    by (induction sid fs rule: continuation_frames.induct) simp_all
  moreover have "list_all (\<lambda>t. \<not> exclusive_frame t) (data_frames sid ds)"
    by (induction sid ds rule: data_frames.induct) simp_all
  ultimately have "\<forall>t \<in> set (request_frames sid f fs ds). \<not> exclusive_frame t"
    by (auto simp: request_frames_def header_frame_def list_all_iff)
  then show ?thesis by (simp add: encode_typed_eq wire_sent_frame)
qed

text \<open>What the application gets.\<close>

definition request_of :: "bool \<Rightarrow> u32 \<Rightarrow> header_field list \<Rightarrow> byte list \<Rightarrow> delivery" where
  "request_of router sid headers body =
     (if router
      then Routed sid (let req = fold request_header headers request_new
                       in if body = [] then req else req\<lparr>rq_body := body\<rparr>) True
      else Handled sid headers body True)"

lemma deliver_eq:
  assumes "hc_has_router c \<or> hc_has_handler c"
  shows "deliver sid headers body c = c\<lparr>hc_requests := hc_requests c @ [request_of (hc_has_router c) sid headers body]\<rparr>"
  using assms by (auto simp: deliver_def route_stream_def request_of_def Let_def)

lemma sid_and: "unat (sid :: u32) < 2 ^ 31 \<Longrightarrow> sid AND 0x7FFFFFFF = sid"
  by (rule stream_id_31)

text \<open>A callback of the framer that stands for a frame.\<close>

definition calls_frame :: "frame_call \<Rightarrow> typed_frame \<Rightarrow> bool" where
  "calls_frame c t \<longleftrightarrow> call_frame c = wire_frame t"

lemma calls_data:
  assumes "calls_frame f (Data_frame \<lparr>df_stream_id = sid, df_data = d, df_pad_length = 0, df_end_stream = e\<rparr>)"
    "unat sid < 2 ^ 31"
  shows "fc_type f = 0" "fc_stream_id f = sid" "take (fc_len f) (fc_payload f) = d"
    "fc_flags f AND HTTP2_FLAG_END_STREAM \<noteq> 0 \<longleftrightarrow> e"
  using assms by (auto simp: calls_frame_def call_frame_def set_id_def padded_def sid_and flag_if_def
      HTTP2_FLAG_END_STREAM_def split: if_splits)

lemma calls_continuation:
  assumes "calls_frame f (Continuation_frame \<lparr>cf_stream_id = sid, cf_header_block = d, cf_end_headers = e\<rparr>)"
    "unat sid < 2 ^ 31"
  shows "fc_type f = 9" "fc_stream_id f = sid" "take (fc_len f) (fc_payload f) = d"
    "fc_flags f AND HTTP2_FLAG_END_HEADERS \<noteq> 0 \<longleftrightarrow> e"
  using assms by (auto simp: calls_frame_def call_frame_def set_id_def sid_and flag_if_def
      HTTP2_FLAG_END_HEADERS_def split: if_splits)

lemma calls_header:
  assumes "calls_frame f (header_frame sid d es eh)" "unat sid < 2 ^ 31"
  shows "fc_type f = 1" "fc_stream_id f = sid" "take (fc_len f) (fc_payload f) = d"
    "fc_flags f AND HTTP2_FLAG_END_STREAM \<noteq> 0 \<longleftrightarrow> es" "fc_flags f AND HTTP2_FLAG_END_HEADERS \<noteq> 0 \<longleftrightarrow> eh"
  using assms by (cases es; cases eh; auto simp: calls_frame_def call_frame_def header_frame_def set_id_def
      padded_def sid_and flag_if_def HTTP2_FLAG_END_STREAM_def HTTP2_FLAG_END_HEADERS_def split: if_splits)+

definition listens :: "u32 \<Rightarrow> http2_connection \<Rightarrow> bool" where
  "listens sid c \<longleftrightarrow> (hc_last_stream_id c = 0 \<or> sid \<le> hc_last_stream_id c) \<and> (hc_has_router c \<or> hc_has_handler c)"

lemma listens_frame: "listens sid c \<Longrightarrow> \<not> (hc_last_stream_id c > 0 \<and> sid > hc_last_stream_id c)"
  by (auto simp: listens_def word_gt_0)

lemma listens_keep:
  "hc_last_stream_id c' = hc_last_stream_id c \<Longrightarrow> hc_has_router c' = hc_has_router c \<Longrightarrow>
   hc_has_handler c' = hc_has_handler c \<Longrightarrow> listens sid c' = listens sid c"
  by (simp add: listens_def)

lemma erase_last [simp]:
  "hc_last_stream_id (erase_if_closed i c) = hc_last_stream_id c"
  "hc_last_stream_id (update_stream i f c) = hc_last_stream_id c"
  by (simp_all add: erase_if_closed_def update_stream_def split: option.splits)

text \<open>What a handler leaves of the members that the other streams depend on.\<close>

definition same_rest :: "u32 \<Rightarrow> http2_connection \<Rightarrow> http2_connection \<Rightarrow> bool" where
  "same_rest sid c c' \<longleftrightarrow>
     hc_last_stream_id c' = hc_last_stream_id c \<and> hc_has_router c' = hc_has_router c \<and>
     hc_has_handler c' = hc_has_handler c \<and>
     (\<forall>j. j \<noteq> sid \<longrightarrow> map_of (hc_pending c') j = map_of (hc_pending c) j)"

lemma same_rest_refl [simp]: "same_rest sid c c"
  by (simp add: same_rest_def)

lemma same_rest_trans: "same_rest sid a b \<Longrightarrow> same_rest sid b c \<Longrightarrow> same_rest sid a c"
  by (simp add: same_rest_def)

lemma same_rest_listens: "same_rest sid c c' \<Longrightarrow> listens j c' = listens j c"
  by (simp add: same_rest_def listens_def)

lemma data_frame_step:
  assumes "listens sid c" "map_of (hc_pending c) sid = Some ps" "unat sid < 2 ^ 31"
    "calls_frame f (Data_frame \<lparr>df_stream_id = sid, df_data = d, df_pad_length = 0, df_end_stream = e\<rparr>)"
  shows "\<exists>c'. handle_frame f c = Some c' \<and> same_rest sid c c' \<and> hc_decoder c' = hc_decoder c \<and>
    (if e then hc_requests c' = hc_requests c @ [request_of (hc_has_router c) sid (ps_headers ps) (ps_data ps @ d)] \<and>
        map_of (hc_pending c') sid = None
     else hc_requests c' = hc_requests c \<and>
       map_of (hc_pending c') sid = Some (ps\<lparr>ps_data := ps_data ps @ d, ps_end_stream := False\<rparr>))"
proof -
  note f = calls_data [OF assms(4,3)]
  have h: "handle_frame f c = Some (handle_data_frame (fc_flags f) sid (fc_payload f) (fc_len f) c)"
    using f listens_frame [OF assms(1)] by (auto simp: handle_frame_def Let_def)
  have r: "hc_has_router c \<or> hc_has_handler c" using assms(1) by (simp add: listens_def)
  show ?thesis
  proof (cases e)
    case False
    then show ?thesis using h f assms(2) by (simp add: handle_data_frame_def Let_def same_rest_def)
  next
    case True
    then show ?thesis using h f assms(2) r
      by (simp add: handle_data_frame_def Let_def same_rest_def deliver_eq)
  qed
qed

lemma data_run:
  assumes "listens sid c" "map_of (hc_pending c) sid = Some ps" "unat sid < 2 ^ 31"
    "list_all2 calls_frame cs (data_frames sid ds)" "ds \<noteq> []"
  shows "\<exists>c'. handle_frames cs c = Some c' \<and> same_rest sid c c' \<and> hc_decoder c' = hc_decoder c \<and>
    hc_requests c' = hc_requests c @ [request_of (hc_has_router c) sid (ps_headers ps) (ps_data ps @ concat ds)] \<and>
    map_of (hc_pending c') sid = None"
  using assms
proof (induction ds arbitrary: c ps cs)
  case (Cons d ds)
  then obtain f cs' where cs: "cs = f # cs'" "list_all2 calls_frame cs' (data_frames sid ds)"
    "calls_frame f (Data_frame \<lparr>df_stream_id = sid, df_data = d, df_pad_length = 0, df_end_stream = (ds = [])\<rparr>)"
    by (auto simp: list_all2_Cons2)
  from data_frame_step [OF Cons.prems(1-3) cs(3)] obtain c1 where
    c1: "handle_frame f c = Some c1" "same_rest sid c c1" "hc_decoder c1 = hc_decoder c"
      "if ds = [] then hc_requests c1 = hc_requests c @
            [request_of (hc_has_router c) sid (ps_headers ps) (ps_data ps @ d)] \<and> map_of (hc_pending c1) sid = None
       else hc_requests c1 = hc_requests c \<and>
         map_of (hc_pending c1) sid = Some (ps\<lparr>ps_data := ps_data ps @ d, ps_end_stream := False\<rparr>)"
    by blast
  show ?case
  proof (cases "ds = []")
    case True
    then show ?thesis using c1 cs by simp
  next
    case False
    have l: "listens sid c1" using Cons.prems(1) same_rest_listens [OF c1(2)] by simp
    have p: "map_of (hc_pending c1) sid = Some (ps\<lparr>ps_data := ps_data ps @ d, ps_end_stream := False\<rparr>)"
      using c1(4) False by simp
    from Cons.IH [OF l p Cons.prems(3) cs(2) False] obtain c2 where
      c2: "handle_frames cs' c1 = Some c2" "same_rest sid c1 c2" "hc_decoder c2 = hc_decoder c1"
        "hc_requests c2 = hc_requests c1 @
          [request_of (hc_has_router c1) sid (ps_headers ps) ((ps_data ps @ d) @ concat ds)]"
        "map_of (hc_pending c2) sid = None" by auto
    have "hc_has_router c1 = hc_has_router c" using c1(2) by (simp add: same_rest_def)
    then show ?thesis using c1 c2 cs False same_rest_trans [OF c1(2) c2(2)] by simp
  qed
qed simp

text \<open>The state of a request behind its header block.\<close>

definition headers_done :: "u32 \<Rightarrow> bool \<Rightarrow> header_field list \<Rightarrow> http2_connection \<Rightarrow> http2_connection \<Rightarrow> bool" where
  "headers_done sid e headers c c' \<longleftrightarrow> same_rest sid c c' \<and>
     (if e then hc_requests c' = hc_requests c @ [request_of (hc_has_router c) sid headers []] \<and>
        map_of (hc_pending c') sid = None
      else hc_requests c' = hc_requests c \<and>
        (\<exists>ps. map_of (hc_pending c') sid = Some ps \<and> ps_headers ps = headers \<and> ps_data ps = []))"

lemma continuation_run:
  assumes "listens sid c" "map_of (hc_pending c) sid = Some ps" "ps_waiting ps" "ps_data ps = []"
    "unat sid < 2 ^ 31" "list_all2 calls_frame cs (continuation_frames sid fs)" "fs \<noteq> []"
    "hpack_decode (ps_fragment ps @ concat fs) (hc_decoder c) = Some (dec, headers)"
  shows "\<exists>c'. handle_frames cs c = Some c' \<and> headers_done sid (ps_end_stream ps) headers c c' \<and> hc_decoder c' = dec"
  using assms
proof (induction fs arbitrary: c ps cs)
  case (Cons d fs)
  then obtain f cs' where cs: "cs = f # cs'" "list_all2 calls_frame cs' (continuation_frames sid fs)"
    "calls_frame f (Continuation_frame \<lparr>cf_stream_id = sid, cf_header_block = d, cf_end_headers = (fs = [])\<rparr>)"
    by (auto simp: list_all2_Cons2)
  note f = calls_continuation [OF cs(3) Cons.prems(5)]
  have h: "handle_frame f c = handle_continuation_frame (fc_flags f) sid (fc_payload f) (fc_len f) c"
    using f listens_frame [OF Cons.prems(1)] by (auto simp: handle_frame_def Let_def)
  have r: "hc_has_router c \<or> hc_has_handler c" using Cons.prems(1) by (simp add: listens_def)
  show ?case
  proof (cases "fs = []")
    case True
    have dd: "hpack_decode (ps_fragment ps @ d) (hc_decoder c) = Some (dec, headers)"
      using Cons.prems(8) True by simp
    show ?thesis using h f True cs(1,2) Cons.prems(2,3,4) r dd
      by (simp add: handle_continuation_frame_def Let_def headers_done_def same_rest_def deliver_eq)
  next
    case False
    let ?ps = "ps\<lparr>ps_fragment := ps_fragment ps @ d\<rparr>"
    let ?c = "c\<lparr>hc_pending := AList.update sid ?ps (hc_pending c)\<rparr>"
    have s: "handle_frame f c = Some ?c"
      using h f False Cons.prems(2,3) by (simp add: handle_continuation_frame_def Let_def)
    have l: "listens sid ?c" using Cons.prems(1) by (simp add: listens_def)
    have p: "map_of (hc_pending ?c) sid = Some ?ps" by simp
    have dd: "hpack_decode (ps_fragment ?ps @ concat fs) (hc_decoder ?c) = Some (dec, headers)"
      using Cons.prems(8) by simp
    have same: "same_rest sid c ?c" by (simp add: same_rest_def)
    from Cons.IH [OF l p _ _ Cons.prems(5) cs(2) False dd] Cons.prems(3,4) obtain c2 where
      c2: "handle_frames cs' ?c = Some c2" "headers_done sid (ps_end_stream ps) headers ?c c2" "hc_decoder c2 = dec"
      by auto
    then have "headers_done sid (ps_end_stream ps) headers c c2"
      using same_rest_trans [OF same] by (auto simp: headers_done_def)
    then show ?thesis using s c2 cs(1) by auto
  qed
qed simp
text \<open>A stream the peer may open: no state of it is left and the table has room.\<close>

definition accepts :: "u32 \<Rightarrow> http2_connection \<Rightarrow> bool" where
  "accepts sid c \<longleftrightarrow> listens sid c \<and> unat sid < 2 ^ 31 \<and>
     map_of (hc_streams c) sid = None \<and> map_of (hc_pending c) sid = None \<and>
     length (hc_streams c) < unat (max_concurrent_streams (hc_local_settings c))"

lemma header_run:
  assumes "accepts sid c" "calls_frame f (header_frame sid d e (fs = []))"
    "list_all2 calls_frame cs (continuation_frames sid fs)"
    "hpack_decode (d @ concat fs) (hc_decoder c) = Some (dec, headers)"
  shows "\<exists>c'. handle_frames (f # cs) c = Some c' \<and> headers_done sid e headers c c' \<and> hc_decoder c' = dec"
proof -
  have a: "listens sid c" "unat sid < 2 ^ 31" "map_of (hc_streams c) sid = None"
    "map_of (hc_pending c) sid = None"
    "\<not> unat (max_concurrent_streams (hc_local_settings c)) \<le> length (hc_streams c)"
    using assms(1) by (simp_all add: accepts_def)
  have r: "hc_has_router c \<or> hc_has_handler c" using a(1) by (simp add: listens_def)
  note fl = calls_header [OF assms(2) a(2)]
  have h: "handle_frame f c = handle_headers_frame (fc_flags f) sid (fc_payload f) (fc_len f) c"
    using fl listens_frame [OF a(1)] by (auto simp: handle_frame_def Let_def)
  let ?c = "c\<lparr>hc_streams := AList.update sid (on_receive_headers e (http2_stream_new sid)) (hc_streams c)\<rparr>"
  show ?thesis
  proof (cases "fs = []")
    case True
    then show ?thesis using h fl a assms(3,4) r
      by (simp add: handle_headers_frame_def Let_def headers_done_def same_rest_def deliver_eq
          pending_stream_new_def)
  next
    case False
    let ?ps = "pending_stream_new\<lparr>ps_fragment := d, ps_end_stream := e, ps_waiting := True\<rparr>"
    let ?c1 = "?c\<lparr>hc_pending := AList.update sid ?ps (hc_pending ?c)\<rparr>"
    have s: "handle_frame f c = Some ?c1"
      using h fl a False by (simp add: handle_headers_frame_def Let_def pending_stream_new_def)
    have l: "listens sid ?c1" using a(1) by (simp add: listens_def)
    have p: "map_of (hc_pending ?c1) sid = Some ?ps" by simp
    have dd: "hpack_decode (ps_fragment ?ps @ concat fs) (hc_decoder ?c1) = Some (dec, headers)"
      using assms(4) by simp
    have w: "ps_waiting ?ps" "ps_data ?ps = []" by (simp_all add: pending_stream_new_def)
    have same: "same_rest sid c ?c1" by (simp add: same_rest_def)
    from continuation_run [OF l p w a(2) assms(3) False dd] obtain c2 where
      c2: "handle_frames cs ?c1 = Some c2" "headers_done sid e headers ?c1 c2" "hc_decoder c2 = dec" by auto
    then have "headers_done sid e headers c c2"
      using same_rest_trans [OF same] by (auto simp: headers_done_def)
    then show ?thesis using s c2 by auto
  qed
qed

lemma handle_frames_append:
  "handle_frames (fs @ gs) c = (case handle_frames fs c of None \<Rightarrow> None | Some c \<Rightarrow> handle_frames gs c)"
  by (induction fs arbitrary: c) (auto split: option.splits)

lemma request_run:
  assumes "accepts sid c" "list_all2 calls_frame cs (request_frames sid f fs ds)"
    "hpack_decode (f @ concat fs) (hc_decoder c) = Some (dec, headers)"
  shows "\<exists>c'. handle_frames cs c = Some c' \<and> hc_decoder c' = dec \<and> map_of (hc_pending c') sid = None \<and>
    hc_requests c' = hc_requests c @ [request_of (hc_has_router c) sid headers (concat ds)]"
proof -
  obtain h cs1 cs2 where cs: "cs = h # cs1 @ cs2" "calls_frame h (header_frame sid f (ds = []) (fs = []))"
    "list_all2 calls_frame cs1 (continuation_frames sid fs)" "list_all2 calls_frame cs2 (data_frames sid ds)"
    using assms(2) by (auto simp: request_frames_def list_all2_Cons2 list_all2_append2)
  from header_run [OF assms(1) cs(2,3) assms(3)] obtain c1 where
    c1: "handle_frames (h # cs1) c = Some c1" "headers_done sid (ds = []) headers c c1" "hc_decoder c1 = dec"
    by blast
  have run: "handle_frames cs c = handle_frames cs2 c1"
    using handle_frames_append [of "h # cs1" cs2 c] c1(1) cs(1) by simp
  show ?thesis
  proof (cases "ds = []")
    case True
    then show ?thesis using run c1 cs(4) by (auto simp: headers_done_def)
  next
    case False
    with c1(2) obtain ps where ps: "map_of (hc_pending c1) sid = Some ps" "ps_headers ps = headers"
      "ps_data ps = []" "hc_requests c1 = hc_requests c" "same_rest sid c c1" by (auto simp: headers_done_def)
    have l: "listens sid c1" "unat sid < 2 ^ 31"
      using assms(1) same_rest_listens [OF ps(5)] by (simp_all add: accepts_def)
    from data_run [OF l(1) ps(1) l(2) cs(4) False] show ?thesis
      using run c1(3) ps by (auto simp: same_rest_def)
  qed
qed

text \<open>C20 (request_delivered): a request that a client encodes with HPACK, cuts into HEADERS,
  CONTINUATION and DATA frames and sends in pieces of any size is handed to the application exactly
  once, with the headers in order and the whole body, and both HPACK tables stay in step for the
  next request.\<close>

theorem request_delivered:
  assumes "in_step te (hc_decoder c)" "\<forall>f \<in> set headers. field_small f"
    "hpack_encode headers te = (te', f @ concat fs)" "accepts sid c"
    "concat chunks = concat (map encode_typed (request_frames sid f fs ds))" "length (concat chunks) < 2 ^ 63"
    "\<forall>t \<in> set (request_frames sid f fs ds). length (fr_payload (wire_frame t)) < 2 ^ 24"
    "partial_buffer (hc_framer c) = []"
  shows "\<exists>cs c'. feed_chunks chunks (hc_framer c) = Some (\<lparr>partial_buffer = []\<rparr>, cs) \<and>
    handle_frames cs c = Some c' \<and>
    hc_requests c' = hc_requests c @ [request_of (hc_has_router c) sid headers (concat ds)] \<and>
    map_of (hc_pending c') sid = None \<and> in_step te' (hc_decoder c')"
proof -
  have ok: "list_all frame_ok (map wire_frame (request_frames sid f fs ds))"
    using assms(7) wire_stream_id by (auto simp: list_all_iff frame_ok_def)
  have "concat chunks = concat (map frame_bytes (map wire_frame (request_frames sid f fs ds))) @ []"
    by (simp only: assms(5) request_bytes append_Nil2)
  then have s: "split_frames (concat chunks) = (map wire_frame (request_frames sid f fs ds), [])"
    using split_frames_concat [OF ok, of "[]"] by (simp add: split_frames_None whole_frame_def)
  have e: "snd (split_frames []) = []" by (simp add: split_frames.simps whole_frame_def)
  from feed_chunks_ok [of "hc_framer c" chunks] s e assms(6,8) obtain cs where
    cs: "feed_chunks chunks (hc_framer c) = Some (\<lparr>partial_buffer = []\<rparr>, cs)"
      "map call_frame cs = map wire_frame (request_frames sid f fs ds)" by auto
  have calls: "list_all2 calls_frame cs (request_frames sid f fs ds)"
    using cs(2) unfolding list_all2_conv_all_nth calls_frame_def
    by (metis length_map nth_map)
  have "length (f @ concat fs) < 2 ^ 63"
  proof -
    have "length (f @ concat fs) \<le> length (concat (map encode_typed (header_frame sid f (ds = []) (fs = []) #
        continuation_frames sid fs)))"
    proof -
      have "length (concat fs) \<le> length (concat (map encode_typed (continuation_frames sid fs)))"
        by (induction fs) (simp_all add: encode_continuation_frame_def Let_def)
      then show ?thesis by (simp add: header_frame_def encode_headers_frame_def Let_def)
    qed
    also have "\<dots> \<le> length (concat chunks)" by (simp add: assms(5) request_frames_def)
    finally show ?thesis using assms(6) by simp
  qed
  from hpack_block_ok [OF assms(1-3) this] obtain td' where
    td: "hpack_decode (f @ concat fs) (hc_decoder c) = Some (td', headers)" "in_step te' td'" by blast
  from request_run [OF assms(4) calls td(1)] show ?thesis using cs(1) td(2) by blast
qed

theorem request_delivered_witness:
  "\<exists>cs c'. feed_chunks [[0, 0, 1, 1, 0, 0], [0, 0, 1, 0x82, 0, 0, 1, 9, 4, 0, 0, 0, 1, 0x86],
      [0, 0, 2, 0, 1, 0, 0, 0, 1, 7, 8]] \<lparr>partial_buffer = []\<rparr> = Some (\<lparr>partial_buffer = []\<rparr>, cs) \<and>
    handle_frames cs (http2_connection_new False True) = Some c' \<and>
    hc_requests c' = [Handled 1 [('':method'', ''GET''), ('':scheme'', ''http'')] [7, 8] True]"
proof -
  let ?c = "http2_connection_new False True"
  let ?hs = "[('':method'', ''GET''), ('':scheme'', ''http'')]"
  let ?chunks = "[[0, 0, 1, 1, 0, 0], [0, 0, 1, 0x82, 0, 0, 1, 9, 4, 0, 0, 0, 1, 0x86],
      [0, 0, 2, 0, 1, 0, 0, 0, 1, 7, 8]] :: byte list list"
  have b: "snd (hpack_encode ?hs (hpack_new 4096)) = [0x82, 0x86]" by code_simp
  then obtain te' where e: "hpack_encode ?hs (hpack_new 4096) = (te', [0x82] @ concat [[0x86]])"
    by (metis prod.collapse append_Cons append_Nil concat.simps(1,2) append_Nil2)
  have dec: "hc_decoder ?c = hpack_new 4096" "hc_framer ?c = \<lparr>partial_buffer = []\<rparr>" "hc_requests ?c = []"
    by (simp_all add: http2_connection_new_def header_table_size_def settings_get_def http2_settings_new_def
        settings_set_def)
  have acc: "accepts 1 ?c"
    by (simp add: accepts_def listens_def http2_connection_new_def max_concurrent_streams_def settings_get_def
        http2_settings_new_def settings_set_def)
  have w: "concat ?chunks = concat (map encode_typed (request_frames 1 [0x82] [[0x86]] [[7, 8]]))"
    by code_simp
  have step: "in_step (hpack_new 4096) (hc_decoder ?c)" unfolding dec by (rule in_step_new) simp_all
  have small: "\<forall>f \<in> set ?hs. field_small f" by (simp add: field_small_def)
  have len: "\<forall>t \<in> set (request_frames 1 [0x82] [[0x86]] [[7, 8]]). length (fr_payload (wire_frame t)) < 2 ^ 24"
    by (simp add: request_frames_def header_frame_def set_id_def padded_def)
  have rq: "request_of (hc_has_router ?c) 1 ?hs (concat [[7, 8]]) = Handled 1 ?hs [7, 8] True"
    by (simp add: request_of_def http2_connection_new_def)
  have l: "length (concat ?chunks) < 2 ^ 63" by simp
  from request_delivered [OF step small e acc w l len dec(2) [THEN arg_cong [of _ _ partial_buffer], simplified]]
  show ?thesis unfolding rq dec append_Nil by blast
qed

subsection \<open>Bounds of a connection\<close>

text \<open>
  Fixed limits: the streams up to the number the peer was told, a write buffer of 4 MB and a read
  buffer of 64 KB; and the close handler is called at most once.
\<close>

definition connection_inv :: "http2_connection \<Rightarrow> bool" where
  "connection_inv c \<longleftrightarrow>
     length (hc_streams c) \<le> unat (max_concurrent_streams (hc_local_settings c)) \<and>
     int (length (hc_write_buffer c)) \<le> MAX_WRITE_BUFFER_SIZE \<and>
     length (hc_read_buffer c) \<le> MAX_READ_BUFFER_SIZE \<and>
     length (hc_close_codes c) \<le> 1 \<and> (hc_close_codes c \<noteq> [] \<longrightarrow> hc_closed c)"

named_theorems inv_intros \<open>operations that keep the bounds of a connection\<close>

lemma inv_irrelevant [simp]:
  "connection_inv (c\<lparr>hc_pending := a1\<rparr>) = connection_inv c" "connection_inv (c\<lparr>hc_decoder := a2\<rparr>) = connection_inv c"
  "connection_inv (c\<lparr>hc_encoder := a3\<rparr>) = connection_inv c" "connection_inv (c\<lparr>hc_flow := a4\<rparr>) = connection_inv c"
  "connection_inv (c\<lparr>hc_stream_consumed := a5\<rparr>) = connection_inv c"
  "connection_inv (c\<lparr>hc_connection_consumed := a6\<rparr>) = connection_inv c"
  "connection_inv (c\<lparr>hc_priorities := a7\<rparr>) = connection_inv c"
  "connection_inv (c\<lparr>hc_remote_settings := a8\<rparr>) = connection_inv c"
  "connection_inv (c\<lparr>hc_requests := a9\<rparr>) = connection_inv c"
  "connection_inv (c\<lparr>hc_last_stream_id := b1\<rparr>) = connection_inv c"
  "connection_inv (c\<lparr>hc_write_batch_depth := b2\<rparr>) = connection_inv c"
  "connection_inv (c\<lparr>hc_framer := b3\<rparr>) = connection_inv c"
  "connection_inv (c\<lparr>hc_preface_received := b4\<rparr>) = connection_inv c"
  by (simp_all add: connection_inv_def)

lemma inv_flush [inv_intros]: "connection_inv c \<Longrightarrow> connection_inv (flush_writes c)"
  by (auto simp: connection_inv_def flush_writes_def MAX_WRITE_BUFFER_SIZE_def)

lemma inv_close [inv_intros]: "connection_inv c \<Longrightarrow> connection_inv (close_connection e c)"
  by (auto simp: connection_inv_def close_connection_def flush_writes_def Let_def MAX_WRITE_BUFFER_SIZE_def)

lemma inv_write [inv_intros]: "connection_inv c \<Longrightarrow> connection_inv (write_frame f c)"
  using inv_close [of c Enhance_your_calm] by (auto simp: write_frame_def) (simp add: connection_inv_def)

lemma inv_goaway [inv_intros]: "connection_inv c \<Longrightarrow> connection_inv (send_goaway e c)"
  by (simp add: send_goaway_def inv_intros)

lemma inv_window_update [inv_intros]: "connection_inv c \<Longrightarrow> connection_inv (send_window_update i n c)"
  by (simp add: send_window_update_def Let_def inv_intros)

lemma inv_consume [inv_intros]: "connection_inv c \<Longrightarrow> connection_inv (consume_window_of i n c)"
  by (simp add: consume_window_of_def Let_def inv_intros)

lemma inv_fewer_streams:
  "connection_inv c \<Longrightarrow> length ss \<le> length (hc_streams c) \<Longrightarrow> connection_inv (c\<lparr>hc_streams := ss\<rparr>)"
  by (auto simp: connection_inv_def)

lemma length_update: "length (AList.update k v al) = (if map_of al k = None then Suc (length al) else length al)"
  by (induction al) (auto simp: map_of_eq_None_iff)

lemma inv_erase [inv_intros]: "connection_inv c \<Longrightarrow> connection_inv (erase_if_closed i c)"
  by (auto simp: erase_if_closed_def inv_fewer_streams length_delete_le split: option.split)

lemma inv_update_stream [inv_intros]: "connection_inv c \<Longrightarrow> connection_inv (update_stream i f c)"
  by (auto simp: update_stream_def inv_fewer_streams length_update split: option.split)

lemma inv_deliver [inv_intros]: "connection_inv c \<Longrightarrow> connection_inv (deliver i hs d c)"
  by (simp add: deliver_def route_stream_def Let_def)

lemma inv_rst [inv_intros]: "connection_inv c \<Longrightarrow> connection_inv (send_rst_stream i e c)"
  using inv_write [of c "encode_rst_stream_frame \<lparr>rst_stream_id = i, rst_error_code = e\<rparr>"]
  by (simp add: send_rst_stream_def Let_def inv_fewer_streams length_delete_le)

lemma inv_data [inv_intros]: "connection_inv c \<Longrightarrow> connection_inv (handle_data_frame fl i p n c)"
  by (simp add: handle_data_frame_def Let_def inv_intros split: option.split)

lemma inv_headers:
  assumes "connection_inv c" "handle_headers_frame fl i p n c = Some c'"
  shows "connection_inv c'"
proof (cases "map_of (hc_streams c) i")
  case None
  show ?thesis
  proof (cases "length (hc_streams c) \<ge> unat (max_concurrent_streams (hc_local_settings c))")
    case True
    then show ?thesis using assms None by (auto simp: handle_headers_frame_def inv_intros)
  next
    case False
    then have "connection_inv (c\<lparr>hc_streams := AList.update i st (hc_streams c)\<rparr>)" for st
      using assms(1) None by (auto simp: connection_inv_def length_update)
    then show ?thesis using assms None False
      by (auto simp: handle_headers_frame_def Let_def inv_intros split: option.splits if_splits)
  qed
next
  case (Some st)
  then show ?thesis using assms
    by (auto simp: handle_headers_frame_def Let_def inv_intros split: option.splits if_splits)
qed

lemma inv_continuation:
  "connection_inv c \<Longrightarrow> handle_continuation_frame fl i p n c = Some c' \<Longrightarrow> connection_inv c'"
  by (auto simp: handle_continuation_frame_def Let_def inv_intros split: option.splits if_splits)

lemma inv_settings:
  "connection_inv c \<Longrightarrow> handle_settings_frame fl p n c = Some c' \<Longrightarrow> connection_inv c'"
  by (auto simp: handle_settings_frame_def Let_def inv_intros split: option.splits if_splits)

lemma inv_frame:
  assumes "connection_inv c" "handle_frame f c = Some c'"
  shows "connection_inv c'"
proof -
  have others: "connection_inv (handle_rst_stream_frame i c)" "connection_inv (handle_priority_frame i p n c)"
    "connection_inv (handle_push_promise_frame p n c)"
    "handle_ping_frame fl p c = Some c' \<Longrightarrow> connection_inv c'"
    "handle_goaway_frame p c = Some c' \<Longrightarrow> connection_inv c'"
    "handle_window_update_frame i p c = Some c' \<Longrightarrow> connection_inv c'" for i p n fl
    using assms(1)
    by (auto simp: handle_rst_stream_frame_def handle_priority_frame_def handle_push_promise_frame_def
        handle_ping_frame_def handle_goaway_frame_def handle_window_update_frame_def Let_def inv_intros
        inv_fewer_streams length_delete_le split: option.splits prod.splits if_splits)
  show ?thesis
    using assms(2) others inv_headers [OF assms(1)] inv_continuation [OF assms(1)] inv_settings [OF assms(1)]
      inv_data [OF assms(1)] assms(1)
    by (simp add: handle_frame_def Let_def split: if_splits) (metis option.inject)+
qed
lemma rst_keeps_local [simp]: "hc_local_settings (send_rst_stream i e c) = hc_local_settings c"
  by (simp add: send_rst_stream_def Let_def)

lemma deliver_keeps_local [simp]: "hc_local_settings (deliver i hs d c) = hc_local_settings c"
  by (simp add: deliver_def route_stream_def Let_def)

lemma goaway_keeps_local [simp]: "hc_local_settings (send_goaway e c) = hc_local_settings c"
  by (simp add: send_goaway_def)

lemma flush_keeps_local [simp]: "hc_local_settings (flush_writes c) = hc_local_settings c"
  by (simp add: flush_writes_def)

lemma handlers_keep_local:
  "hc_local_settings (handle_data_frame fl i p n c) = hc_local_settings c"
  "handle_headers_frame fl i p n c = Some c' \<Longrightarrow> hc_local_settings c' = hc_local_settings c"
  "handle_continuation_frame fl i p n c = Some c' \<Longrightarrow> hc_local_settings c' = hc_local_settings c"
  "handle_settings_frame fl p n c = Some c' \<Longrightarrow> hc_local_settings c' = hc_local_settings c"
  "handle_ping_frame fl p c = Some c' \<Longrightarrow> hc_local_settings c' = hc_local_settings c"
  "handle_goaway_frame p c = Some c' \<Longrightarrow> hc_local_settings c' = hc_local_settings c"
  "handle_window_update_frame i p c = Some c' \<Longrightarrow> hc_local_settings c' = hc_local_settings c"
  "hc_local_settings (handle_rst_stream_frame i c) = hc_local_settings c"
  "hc_local_settings (handle_priority_frame i p n c) = hc_local_settings c"
  "hc_local_settings (handle_push_promise_frame p n c) = hc_local_settings c"
  by (auto simp: handle_data_frame_def handle_headers_frame_def handle_continuation_frame_def
      handle_settings_frame_def handle_ping_frame_def handle_goaway_frame_def handle_window_update_frame_def
      handle_rst_stream_frame_def handle_priority_frame_def handle_push_promise_frame_def Let_def
      split: option.splits prod.splits if_splits)

lemma frame_local: "handle_frame f c = Some c' \<Longrightarrow> hc_local_settings c' = hc_local_settings c"
  by (auto simp: handle_frame_def Let_def handlers_keep_local split: if_splits)

lemma frames_local: "handle_frames fs c = Some c' \<Longrightarrow> hc_local_settings c' = hc_local_settings c"
  by (induction fs arbitrary: c) (auto split: option.splits dest: frame_local)

lemma read_local: "read_frames c = Some c' \<Longrightarrow> hc_local_settings c' = hc_local_settings c"
  by (auto simp: read_frames_def Let_def split: option.splits dest!: frames_local)

lemma readable_local: "on_readable b c = Some c' \<Longrightarrow> hc_local_settings c' = hc_local_settings c"
  by (auto simp: on_readable_def Let_def split: if_splits dest!: read_local)
lemma inv_frames: "connection_inv c \<Longrightarrow> handle_frames fs c = Some c' \<Longrightarrow> connection_inv c'"
  by (induction fs arbitrary: c) (auto split: option.splits intro: inv_frame)

lemma inv_read:
  assumes "connection_inv c" "read_frames c = Some c'"
  shows "connection_inv c'"
proof -
  obtain fr calls where d: "decode_frames (hc_read_buffer c) (hc_framer c) = Some (fr, calls)"
    using assms(2) by (auto simp: read_frames_def Let_def split: option.splits)
  let ?c = "c\<lparr>hc_write_batch_depth := hc_write_batch_depth c + 1, hc_framer := fr\<rparr>"
  obtain c1 where c1: "handle_frames calls ?c = Some c1"
    "c' = flush_writes (c1\<lparr>hc_write_batch_depth := hc_write_batch_depth c1 - 1, hc_read_buffer := []\<rparr>)"
    using assms(2) d by (auto simp: read_frames_def Let_def split: option.splits)
  have "connection_inv c1" using inv_frames [OF _ c1(1)] assms(1) by simp
  then have "connection_inv (c1\<lparr>hc_write_batch_depth := hc_write_batch_depth c1 - 1, hc_read_buffer := []\<rparr>)"
    by (simp add: connection_inv_def)
  then show ?thesis unfolding c1(2) by (rule inv_flush)
qed

lemma inv_new: "connection_inv (http2_connection_new r h)"
  by (simp add: connection_inv_def http2_connection_new_def MAX_WRITE_BUFFER_SIZE_def)

text \<open>The bytes of one \<open>receive\<close> after the other.\<close>

fun read_all :: "byte list list \<Rightarrow> http2_connection \<Rightarrow> http2_connection option" where
  "read_all [] c = Some c"
| "read_all (b # bs) c = (case on_readable b c of None \<Rightarrow> None | Some c \<Rightarrow> read_all bs c)"

lemma inv_readable:
  assumes "connection_inv c" "on_readable b c = Some c'"
  shows "connection_inv c'"
proof -
  let ?c = "c\<lparr>hc_read_buffer := hc_read_buffer c @ b\<rparr>"
  show ?thesis
  proof (cases "hc_closed c \<or> b = [] \<or> length (hc_read_buffer c) + length b > MAX_READ_BUFFER_SIZE")
    case True
    then show ?thesis using assms by (auto simp: on_readable_def inv_intros split: if_splits)
  next
    case False
    then have i: "connection_inv ?c" using assms(1) by (auto simp: connection_inv_def)
    have d: "connection_inv (?c\<lparr>hc_preface_received := True, hc_read_buffer := drop 24 (hc_read_buffer ?c)\<rparr>)"
      using i by (auto simp: connection_inv_def)
    from False show ?thesis using assms(2) i inv_read [OF i] inv_read [OF inv_write [OF d]]
      by (auto simp: on_readable_def Let_def inv_intros split: if_splits)
  qed
qed

subsection \<open>What a peer makes a connection hold\<close>

text \<open>
  The requests that are not finished, and the maps of priorities, consumed bytes and windows, have
  no limit of their own: they are bounded by what the peer has sent. Decoded header lists are not
  counted: HPACK may expand a byte to a whole field.
\<close>

definition pending_weight :: "pending_stream \<Rightarrow> nat" where
  "pending_weight ps = 1 + length (ps_fragment ps) + length (ps_data ps)"

definition assoc_sum :: "('v \<Rightarrow> nat) \<Rightarrow> ('k \<times> 'v) list \<Rightarrow> nat" where
  "assoc_sum w al = sum_list (map (w \<circ> snd) al)"

definition tables :: "http2_connection \<Rightarrow> nat" where
  "tables c = assoc_sum pending_weight (hc_pending c) + length (hc_priorities c) +
     length (hc_stream_consumed c) + length (stream_windows (hc_flow c))"

definition held :: "http2_connection \<Rightarrow> nat" where
  "held c = length (hc_read_buffer c) + length (partial_buffer (hc_framer c)) + tables c"

lemma assoc_sum_update:
  "assoc_sum w (AList.update k v al) + (case map_of al k of None \<Rightarrow> 0 | Some u \<Rightarrow> w u) = assoc_sum w al + w v"
  by (induction al) (auto simp: assoc_sum_def)

lemma assoc_sum_put: "map_of al k = None \<Longrightarrow> assoc_sum w (AList.update k v al) = assoc_sum w al + w v"
  using assoc_sum_update [of w k v al] by simp

lemma assoc_sum_set: "map_of al k = Some u \<Longrightarrow> assoc_sum w (AList.update k v al) + w u = assoc_sum w al + w v"
  using assoc_sum_update [of w k v al] by simp

lemma assoc_sum_delete: "assoc_sum w (AList.delete k al) \<le> assoc_sum w al"
  by (induction al) (auto simp: assoc_sum_def)

lemma update_grows: "length (AList.update k v al) \<le> Suc (length al)"
  by (simp add: length_update)

lemma length_update_same [simp]: "length (AList.update k v (AList.update k u al)) = length (AList.update k u al)"
  by (simp add: length_update)

lemma consume_grows:
  "length (stream_windows (fc_consume i a fc)) \<le> Suc (length (stream_windows fc))"
  "length (stream_windows (fc_add_window i a fc)) \<le> Suc (length (stream_windows fc))"
  by (auto simp: fc_consume_def fc_add_window_def Let_def update_grows split: option.split)

lemma flow_keeps [simp]:
  "hc_flow (close_connection e c) = hc_flow c" "hc_preface_received (close_connection e c) = hc_preface_received c"
  "hc_flow (send_window_update i m c) = hc_flow c"
  "hc_preface_received (send_window_update i m c) = hc_preface_received c"
  "hc_flow (erase_if_closed i c) = hc_flow c" "hc_flow (update_stream i f c) = hc_flow c"
  "hc_stream_consumed (erase_if_closed i c) = hc_stream_consumed c"
  "hc_stream_consumed (update_stream i f c) = hc_stream_consumed c"
  "hc_priorities (update_stream i f c) = hc_priorities c"
  "hc_flow (consume_window_of i n c) = fc_consume i (of_nat n) (hc_flow c)"
  by (simp_all add: close_connection_def flush_writes_def send_window_update_def erase_if_closed_def
      update_stream_def consume_window_of_def Let_def split: option.split)

text \<open>What no frame handler touches: the framer, the read buffer and whether the preface came.\<close>

definition same_input :: "http2_connection \<Rightarrow> http2_connection \<Rightarrow> bool" where
  "same_input c d \<longleftrightarrow> hc_framer d = hc_framer c \<and> hc_read_buffer d = hc_read_buffer c \<and>
     hc_preface_received d = hc_preface_received c"

lemma same_input_refl [simp]: "same_input c c"
  by (simp add: same_input_def)

lemma same_input_trans: "same_input a b \<Longrightarrow> same_input b c \<Longrightarrow> same_input a c"
  by (simp add: same_input_def)

lemma input_simps [simp]:
  "hc_framer (erase_if_closed i c) = hc_framer c" "hc_read_buffer (erase_if_closed i c) = hc_read_buffer c"
  "hc_preface_received (erase_if_closed i c) = hc_preface_received c"
  "hc_framer (update_stream i f c) = hc_framer c" "hc_read_buffer (update_stream i f c) = hc_read_buffer c"
  "hc_preface_received (update_stream i f c) = hc_preface_received c"
  "hc_preface_received (consume_window_of i n c) = hc_preface_received c"
  "hc_framer (deliver i hs d c) = hc_framer c" "hc_read_buffer (deliver i hs d c) = hc_read_buffer c"
  "hc_preface_received (deliver i hs d c) = hc_preface_received c"
  "hc_framer (send_goaway e c) = hc_framer c" "hc_read_buffer (send_goaway e c) = hc_read_buffer c"
  "hc_preface_received (send_goaway e c) = hc_preface_received c"
  "hc_framer (send_rst_stream i e c) = hc_framer c" "hc_read_buffer (send_rst_stream i e c) = hc_read_buffer c"
  "hc_preface_received (send_rst_stream i e c) = hc_preface_received c"
  by (simp_all add: erase_if_closed_def update_stream_def consume_window_of_def deliver_def route_stream_def
      send_goaway_def send_rst_stream_def Let_def split: option.split)

lemma tables_simps [simp]:
  "tables (write_frame f c) = tables c" "tables (close_connection e c) = tables c"
  "tables (deliver i hs d c) = tables c" "tables (send_goaway e c) = tables c"
  "tables (update_stream i g c) = tables c" "tables (flush_writes c) = tables c"
  "tables (c\<lparr>hc_streams := ss\<rparr>) = tables c" "tables (c\<lparr>hc_decoder := dec\<rparr>) = tables c"
  "tables (c\<lparr>hc_framer := fr\<rparr>) = tables c" "tables (c\<lparr>hc_read_buffer := b\<rparr>) = tables c"
  "tables (c\<lparr>hc_write_batch_depth := wd\<rparr>) = tables c" "tables (c\<lparr>hc_preface_received := pr\<rparr>) = tables c"
  by (simp_all add: tables_def deliver_def route_stream_def send_goaway_def flush_writes_def Let_def)

lemma tables_pending:
  "tables (c\<lparr>hc_pending := al\<rparr>) + assoc_sum pending_weight (hc_pending c) = tables c + assoc_sum pending_weight al"
  by (simp add: tables_def)

lemma tables_erase: "tables (erase_if_closed i c) \<le> tables c"
  by (auto simp: erase_if_closed_def tables_def length_delete_le split: option.split)

lemma tables_drop:
  "tables (c\<lparr>hc_pending := AList.delete i (hc_pending c)\<rparr>) \<le> tables c"
  "tables (c\<lparr>hc_stream_consumed := AList.delete i (hc_stream_consumed c)\<rparr>) \<le> tables c"
  "tables (c\<lparr>hc_priorities := AList.delete i (hc_priorities c)\<rparr>) \<le> tables c"
  by (simp_all add: tables_def assoc_sum_delete length_delete_le)

lemma tables_rst: "tables (send_rst_stream i e c) \<le> tables c"
proof -
  have "hc_flow (send_rst_stream i e c) = hc_flow c" "hc_pending (send_rst_stream i e c) = AList.delete i (hc_pending c)"
    "hc_priorities (send_rst_stream i e c) = AList.delete i (hc_priorities c)"
    "hc_stream_consumed (send_rst_stream i e c) = AList.delete i (hc_stream_consumed c)"
    by (simp_all add: send_rst_stream_def Let_def)
  then show ?thesis using assoc_sum_delete [of pending_weight i "hc_pending c"]
      length_delete_le [of i "hc_priorities c"] length_delete_le [of i "hc_stream_consumed c"]
    by (simp add: tables_def)
qed

lemma tables_consume: "tables (consume_window_of i n c) \<le> tables c + 2"
proof -
  have "length (hc_stream_consumed (consume_window_of i n c)) \<le> Suc (length (hc_stream_consumed c))"
    by (simp add: consume_window_of_def Let_def update_grows)
  then show ?thesis using consume_grows(1) [of i "of_nat n" "hc_flow c"] by (simp add: tables_def)
qed

text \<open>A stored request that grows by a piece.\<close>

lemma tables_put:
  assumes "pending_weight ps \<le> n + (case map_of (hc_pending c) i of None \<Rightarrow> 1 | Some q \<Rightarrow> pending_weight q)"
  shows "tables (c\<lparr>hc_pending := AList.update i ps (hc_pending c)\<rparr>) \<le> tables c + 1 + n"
  using assms assoc_sum_update [of pending_weight i ps "hc_pending c"]
    tables_pending [of "AList.update i ps (hc_pending c)" c]
  by (cases "map_of (hc_pending c) i") auto

definition grows :: "nat \<Rightarrow> http2_connection \<Rightarrow> http2_connection \<Rightarrow> bool" where
  "grows n c d \<longleftrightarrow> tables d \<le> tables c + n \<and> same_input c d"

lemma grows_data: "grows (3 + length (take n p)) c (handle_data_frame fl i p n c)"
proof (cases "map_of (hc_pending c) i")
  case None
  then show ?thesis using tables_rst [of i Stream_closed c]
    by (simp add: handle_data_frame_def grows_def same_input_def)
next
  case (Some ps)
  define c1 where "c1 = consume_window_of i n c"
  define ps1 where "ps1 = ps\<lparr>ps_data := ps_data ps @ take n p, ps_end_stream := (fl AND HTTP2_FLAG_END_STREAM \<noteq> 0)\<rparr>"
  define c2 where "c2 = c1\<lparr>hc_pending := AList.update i ps1 (hc_pending c1)\<rparr>"
  define c3 where "c3 = deliver i (ps_headers ps1) (ps_data ps1)
    (erase_if_closed i (update_stream i (on_receive_data True) c2))"
  define c4 where "c4 = c3\<lparr>hc_pending := AList.delete i (hc_pending c3)\<rparr>"
  define c5 where "c5 = c4\<lparr>hc_stream_consumed := AList.delete i (hc_stream_consumed c4)\<rparr>"
  have p: "hc_pending c1 = hc_pending c" by (simp add: c1_def)
  have "tables c2 \<le> tables c1 + 1 + length (take n p)" unfolding c2_def
    by (rule tables_put) (simp add: p Some ps1_def pending_weight_def)
  moreover have "tables c1 \<le> tables c + 2" unfolding c1_def by (rule tables_consume)
  ultimately have t2: "tables c2 \<le> tables c + (3 + length (take n p))" by simp
  have "tables c3 \<le> tables c2" using tables_erase [of i "update_stream i (on_receive_data True) c2"] by (simp add: c3_def)
  moreover have "tables c4 \<le> tables c3" "tables c5 \<le> tables c4" unfolding c4_def c5_def by (rule tables_drop)+
  ultimately have t5: "tables c5 \<le> tables c + (3 + length (take n p))" using t2 by linarith
  have s: "same_input c c2" "same_input c c5"
    by (simp_all add: same_input_def c5_def c4_def c3_def c2_def c1_def)
  have "handle_data_frame fl i p n c = (if fl AND HTTP2_FLAG_END_STREAM \<noteq> 0 then c5 else c2)"
    using Some by (simp add: handle_data_frame_def Let_def c5_def c4_def c3_def c2_def ps1_def c1_def)
  then show ?thesis using t2 t5 s by (simp add: grows_def)
qed

lemma grows_end:
  assumes "grows n c d"
  shows "grows n c (d\<lparr>hc_pending := AList.delete i (hc_pending d)\<rparr>)"
    "grows n c (deliver i hs b d)" "grows n c (erase_if_closed i d)"
  using assms tables_drop(1) [of i d] tables_erase [of i d] by (auto simp: grows_def same_input_def)

lemma grows_put:
  assumes "pending_weight ps \<le> n + (case map_of (hc_pending c) i of None \<Rightarrow> 1 | Some q \<Rightarrow> pending_weight q)"
  shows "grows (1 + n) c (c\<lparr>hc_pending := AList.update i ps (hc_pending c)\<rparr>)"
  using tables_put [OF assms] by (simp add: grows_def same_input_def)

lemma grows_from:
  assumes "grows n d e" "tables d = tables c" "same_input c d"
  shows "grows n c e"
  using assms by (auto simp: grows_def same_input_def)

lemma grows_headers:
  assumes "handle_headers_frame fl i p n c = Some d"
  shows "grows (1 + length (take n p)) c d"
proof -
  let ?e = "fl AND HTTP2_FLAG_END_STREAM \<noteq> 0"
  define c1 where "c1 = (if map_of (hc_streams c) i = None
    then c\<lparr>hc_streams := AList.update i (on_receive_headers ?e (http2_stream_new i)) (hc_streams c)\<rparr> else c)"
  define q where "q = (case map_of (hc_pending c1) i of Some ps \<Rightarrow> ps | None \<Rightarrow> pending_stream_new)"
  define ps where "ps = q\<lparr>ps_fragment := ps_fragment q @ take n p, ps_end_stream := ?e\<rparr>"
  have c1: "tables c1 = tables c" "same_input c c1" "hc_pending c1 = hc_pending c" "hc_decoder c1 = hc_decoder c"
    by (simp_all add: c1_def same_input_def)
  have w: "pending_weight ps \<le> length (take n p) + (case map_of (hc_pending c) i of None \<Rightarrow> 1 | Some q \<Rightarrow> pending_weight q)"
    by (simp add: ps_def q_def c1(3) pending_weight_def pending_stream_new_def split: option.split)
  have put: "grows (1 + length (take n p)) c (c2\<lparr>hc_pending := AList.update i ps' (hc_pending c2)\<rparr>)"
    if "pending_weight ps' \<le> pending_weight ps" "c2 = c1 \<or> (\<exists>dec. c2 = c1\<lparr>hc_decoder := dec\<rparr>)" for ps' c2
  proof -
    have "hc_pending c2 = hc_pending c" "tables c2 = tables c" "same_input c c2"
      using that(2) c1 by (auto simp: same_input_def)
    then show ?thesis using that(1) w by (intro grows_from [OF grows_put]) auto
  qed
  show ?thesis
  proof (cases "map_of (hc_streams c) i = None \<and> unat (max_concurrent_streams (hc_local_settings c)) \<le> length (hc_streams c)")
    case True
    then have "d = send_rst_stream i Refused_stream c" using assms by (simp add: handle_headers_frame_def)
    then show ?thesis using tables_rst [of i Refused_stream c] by (simp add: grows_def same_input_def)
  next
    case False
    note h = assms [unfolded handle_headers_frame_def Let_def, folded c1_def, folded q_def, folded ps_def]
    show ?thesis
    proof (cases "fl AND HTTP2_FLAG_END_HEADERS \<noteq> 0")
      case False
      then have "d = c1\<lparr>hc_pending := AList.update i (ps\<lparr>ps_waiting := True\<rparr>) (hc_pending c1)\<rparr>"
        using h \<open>\<not> (map_of (hc_streams c) i = None \<and> _)\<close> by auto
      then show ?thesis using put [of "ps\<lparr>ps_waiting := True\<rparr>" c1] by (simp add: pending_weight_def)
    next
      case True
      then obtain dec hs where dh: "hpack_decode (ps_fragment ps) (hc_decoder c1) = Some (dec, hs)"
        using h \<open>\<not> (map_of (hc_streams c) i = None \<and> _)\<close> by (auto split: option.splits)
      let ?ps = "ps\<lparr>ps_headers := hs, ps_fragment := [], ps_waiting := False\<rparr>"
      let ?c2 = "c1\<lparr>hc_decoder := dec, hc_pending := AList.update i ?ps (hc_pending c1)\<rparr>"
      have g: "grows (1 + length (take n p)) c ?c2"
        using put [of ?ps "c1\<lparr>hc_decoder := dec\<rparr>"] by (auto simp: pending_weight_def)
      let ?c3 = "deliver i hs [] (erase_if_closed i ?c2)"
      have "d = (if ?e then ?c3\<lparr>hc_pending := AList.delete i (hc_pending ?c3)\<rparr> else ?c2)"
        using h True dh \<open>\<not> (map_of (hc_streams c) i = None \<and> _)\<close> by auto
      then show ?thesis using g grows_end(1) [OF grows_end(2) [OF grows_end(3) [OF g]]] by auto
    qed
  qed
qed

lemma grows_continuation:
  assumes "handle_continuation_frame fl i p n c = Some d"
  shows "grows (1 + length (take n p)) c d"
proof (cases "map_of (hc_pending c) i")
  case None
  then show ?thesis using assms by (auto simp: handle_continuation_frame_def grows_def same_input_def)
next
  case (Some q)
  define ps where "ps = q\<lparr>ps_fragment := ps_fragment q @ take n p\<rparr>"
  have put: "grows (1 + length (take n p)) c (c2\<lparr>hc_pending := AList.update i ps' (hc_pending c2)\<rparr>)"
    if "pending_weight ps' \<le> pending_weight ps" "c2 = c \<or> (\<exists>dec. c2 = c\<lparr>hc_decoder := dec\<rparr>)" for ps' c2
  proof -
    have "hc_pending c2 = hc_pending c" "tables c2 = tables c" "same_input c c2"
      using that(2) by (auto simp: same_input_def)
    then show ?thesis using that(1) Some
      by (intro grows_from [OF grows_put]) (auto simp: ps_def pending_weight_def)
  qed
  show ?thesis
  proof (cases "ps_waiting q")
    case False
    then show ?thesis using assms Some by (auto simp: handle_continuation_frame_def grows_def same_input_def)
  next
    case w: True
    note h = assms [unfolded handle_continuation_frame_def Let_def Some option.case, folded ps_def]
    show ?thesis
    proof (cases "fl AND HTTP2_FLAG_END_HEADERS \<noteq> 0")
      case False
      then have "d = c\<lparr>hc_pending := AList.update i ps (hc_pending c)\<rparr>" using h w by simp
      then show ?thesis using put [of ps c] by simp
    next
      case True
      then obtain dec hs where dh: "hpack_decode (ps_fragment ps) (hc_decoder c) = Some (dec, hs)"
        using h w by (auto split: option.splits)
      let ?ps = "ps\<lparr>ps_headers := hs, ps_fragment := [], ps_waiting := False\<rparr>"
      let ?c2 = "c\<lparr>hc_decoder := dec, hc_pending := AList.update i ?ps (hc_pending c)\<rparr>"
      have g: "grows (1 + length (take n p)) c ?c2"
        using put [of ?ps "c\<lparr>hc_decoder := dec\<rparr>"] by (auto simp: pending_weight_def)
      let ?c3 = "deliver i hs [] ?c2"
      have "d = (if ps_end_stream ps then ?c3\<lparr>hc_pending := AList.delete i (hc_pending ?c3)\<rparr> else ?c2)"
        using h w True dh by auto
      then show ?thesis using g grows_end(1) [OF grows_end(2) [OF g]] by auto
    qed
  qed
qed

lemma grows_weaken: "grows m c d \<Longrightarrow> m \<le> n \<Longrightarrow> grows n c d"
  by (simp add: grows_def)

lemma grows_same: "tables d \<le> tables c \<Longrightarrow> same_input c d \<Longrightarrow> grows n c d"
  by (simp add: grows_def)

lemma grows_settings:
  assumes "handle_settings_frame fl p n c = Some d"
  shows "grows 0 c d"
proof -
  have "hc_flow d = hc_flow c \<or> (\<exists>w. hc_flow d = set_initial_window w (hc_flow c))"
    "hc_pending d = hc_pending c" "hc_priorities d = hc_priorities c" "hc_stream_consumed d = hc_stream_consumed c"
    using assms by (auto simp: handle_settings_frame_def Let_def split: option.splits if_splits)
  then have "tables d = tables c" by (auto simp: tables_def set_initial_window_def)
  moreover have "same_input c d"
    using assms by (auto simp: same_input_def handle_settings_frame_def Let_def split: option.splits if_splits)
  ultimately show ?thesis by (simp add: grows_def)
qed

lemma grows_ping: "handle_ping_frame fl p c = Some d \<Longrightarrow> grows 0 c d"
  by (auto simp: handle_ping_frame_def grows_def same_input_def split: prod.splits option.splits if_splits)

lemma grows_goaway:
  assumes "handle_goaway_frame p c = Some d"
  shows "grows 0 c d"
proof -
  have "d = c \<or> (\<exists>i. d = close_connection No_error (c\<lparr>hc_last_stream_id := i\<rparr>))"
    using assms by (auto simp: handle_goaway_frame_def split: prod.splits option.splits if_splits)
  then show ?thesis by (auto simp: grows_def same_input_def tables_def)
qed

lemma grows_window_update:
  assumes "handle_window_update_frame i p c = Some d"
  shows "grows 1 c d"
proof -
  have "d = c \<or> d = close_connection Protocol_error c \<or> d = send_goaway Flow_control_error c \<or>
      (\<exists>a. d = c\<lparr>hc_flow := fc_add_window i a (hc_flow c)\<rparr>)"
    using assms by (auto simp: handle_window_update_frame_def Let_def split: prod.splits option.splits if_splits)
  then show ?thesis
    by (elim disjE exE) (simp_all add: grows_def same_input_def, use consume_grows(2) in \<open>simp add: tables_def\<close>)
qed

lemma grows_rst: "grows 0 c (handle_rst_stream_frame i c)"
proof -
  have "length (hc_priorities (handle_rst_stream_frame i c)) \<le> length (hc_priorities c)"
    "hc_pending (handle_rst_stream_frame i c) = AList.delete i (hc_pending c)"
    "hc_stream_consumed (handle_rst_stream_frame i c) = AList.delete i (hc_stream_consumed c)"
    "hc_flow (handle_rst_stream_frame i c) = hc_flow c"
    by (simp_all add: handle_rst_stream_frame_def Let_def length_delete_le split: option.split)
  then have "tables (handle_rst_stream_frame i c) \<le> tables c"
    using assoc_sum_delete [of pending_weight i "hc_pending c"] length_delete_le [of i "hc_stream_consumed c"]
    by (simp add: tables_def)
  moreover have "same_input c (handle_rst_stream_frame i c)"
    by (simp add: same_input_def handle_rst_stream_frame_def Let_def split: option.split)
  ultimately show ?thesis by (simp add: grows_def)
qed

lemma grows_priority: "grows 1 c (handle_priority_frame i p n c)"
  using update_grows [of i _ "hc_priorities c"]
  by (auto simp: handle_priority_frame_def Let_def grows_def same_input_def tables_def split: prod.split option.split)

lemma grows_push: "grows (1 + length (take n p)) c (handle_push_promise_frame p n c)"
proof -
  have d: "bc_data (fst (try_read_be32 (cursor_of (take n p)))) = take n p"
    by (simp add: try_read_be32_def try_read_fixed_def advance_def cursor_of_def)
  obtain cur r where r: "try_read_be32 (cursor_of (take n p)) = (cur, r)" by (cases "try_read_be32 (cursor_of (take n p))")
  then have dc: "bc_data cur = take n p" using d by simp
  show ?thesis
  proof (cases r)
    case None
    then show ?thesis using r by (simp add: handle_push_promise_frame_def grows_def)
  next
    case (Some psid)
    let ?i = "psid AND 0x7FFFFFFF"
    let ?q = "case map_of (hc_pending c) ?i of Some ps \<Rightarrow> ps | None \<Rightarrow> pending_stream_new"
    let ?ps = "?q\<lparr>ps_fragment := ps_fragment ?q @ take (cur_remaining cur) (take n p)\<rparr>"
    have "grows (1 + length (take n p)) c (c\<lparr>hc_pending := AList.update ?i ?ps (hc_pending c)\<rparr>)"
      by (rule grows_put) (auto simp: pending_weight_def pending_stream_new_def min_def split: option.split)
    then show ?thesis using r Some dc by (simp add: handle_push_promise_frame_def Let_def)
  qed
qed

lemma grows_frame:
  assumes "handle_frame f c = Some d"
  shows "grows (3 + length (fr_payload (call_frame f))) c d"
proof -
  let ?n = "3 + length (take (fc_len f) (fc_payload f))"
  have "grows ?n c (handle_data_frame (fc_flags f) (fc_stream_id f) (fc_payload f) (fc_len f) c)"
    "handle_headers_frame (fc_flags f) (fc_stream_id f) (fc_payload f) (fc_len f) c = Some d \<Longrightarrow> grows ?n c d"
    "handle_continuation_frame (fc_flags f) (fc_stream_id f) (fc_payload f) (fc_len f) c = Some d \<Longrightarrow> grows ?n c d"
    "handle_settings_frame (fc_flags f) (fc_payload f) (fc_len f) c = Some d \<Longrightarrow> grows ?n c d"
    "handle_ping_frame (fc_flags f) (fc_payload f) c = Some d \<Longrightarrow> grows ?n c d"
    "handle_goaway_frame (fc_payload f) c = Some d \<Longrightarrow> grows ?n c d"
    "handle_window_update_frame (fc_stream_id f) (fc_payload f) c = Some d \<Longrightarrow> grows ?n c d"
    "grows ?n c (handle_rst_stream_frame (fc_stream_id f) c)"
    "grows ?n c (handle_priority_frame (fc_stream_id f) (fc_payload f) (fc_len f) c)"
    "grows ?n c (handle_push_promise_frame (fc_payload f) (fc_len f) c)" "grows ?n c c"
    by (rule grows_data grows_weaken [OF grows_headers] grows_weaken [OF grows_continuation]
        grows_weaken [OF grows_settings] grows_weaken [OF grows_ping] grows_weaken [OF grows_goaway]
        grows_weaken [OF grows_window_update] grows_weaken [OF grows_rst] grows_weaken [OF grows_priority]
        grows_weaken [OF grows_push] grows_same | assumption | simp)+
  with assms show ?thesis unfolding handle_frame_def Let_def
    by (simp add: call_frame_def split: if_splits)
qed

definition frame_size :: "frame \<Rightarrow> nat" where
  "frame_size f = 9 + length (fr_payload f)"

lemma grows_frames:
  "handle_frames fs c = Some d \<Longrightarrow> grows (sum_list (map (frame_size \<circ> call_frame) fs)) c d"
proof (induction fs arbitrary: c)
  case Nil
  then show ?case by (simp add: grows_def)
next
  case (Cons f fs)
  then obtain c1 where c1: "handle_frame f c = Some c1" "handle_frames fs c1 = Some d" by (auto split: option.splits)
  from grows_frame [OF c1(1)] Cons.IH [OF c1(2)] show ?case
    by (auto simp: grows_def frame_size_def dest: same_input_trans)
qed

subsection \<open>Frames that are handled\<close>

text \<open>The frames whose handlers read a fixed number of bytes, without so many bytes in them.\<close>

definition short_frame :: "frame \<Rightarrow> bool" where
  "short_frame f \<longleftrightarrow>
     fr_type f = frame_type_code FT_ping \<and> fr_flags f AND HTTP2_FLAG_ACK = 0 \<and> length (fr_payload f) < 8 \<or>
     fr_type f = frame_type_code FT_goaway \<and> length (fr_payload f) < 4 \<or>
     fr_type f = frame_type_code FT_window_update \<and> length (fr_payload f) < 4"

lemma settings_loop_ends:
  "cursor_ok cur \<Longrightarrow> length (cur_rest cur) < rounds \<Longrightarrow> \<exists>es'. settings_loop rounds cur es = Some es'"
proof (induction rounds arbitrary: cur es)
  case (Suc rounds)
  show ?case
  proof (cases "6 \<le> length (cur_rest cur)")
    case True
    have ok2: "cursor_ok (cur_adv 2 cur)" using cursor_ok_adv_le [OF Suc.prems(1), of 2] True by simp
    have four: "4 \<le> length (cur_rest cur) - 2" using True by arith
    have r: "try_read_be16 cur = (cur_adv 2 cur, Some (read_be16 (cur_rest cur)))"
      "try_read_be32 (cur_adv 2 cur) = (cur_adv 6 cur, Some (read_be32 (drop 2 (cur_rest cur))))"
      using fixed_rest [OF Suc.prems(1), of 2] fixed_rest [OF ok2, of 4] True four
      by (simp_all add: try_read_be16_def try_read_be32_def)
    have "cursor_ok (cur_adv 6 cur)" using cursor_ok_adv_le [OF Suc.prems(1) True] .
    from Suc.IH [OF this] Suc.prems(2) True
    show ?thesis by (simp add: cursor_ok_rest [OF Suc.prems(1)] r Let_def)
  next
    case False
    then show ?thesis by (simp add: cursor_ok_rest [OF Suc.prems(1)])
  qed
qed simp

lemma assoc_sum_ge: "map_of al k = Some u \<Longrightarrow> w u \<le> assoc_sum w al"
  by (induction al) (auto simp: assoc_sum_def split: if_splits)

lemma fragment_le: "map_of (hc_pending c) i = Some ps \<Longrightarrow> length (ps_fragment ps) \<le> tables c"
  using assoc_sum_ge [of "hc_pending c" i ps pending_weight] by (simp add: pending_weight_def tables_def)

lemma headers_ends:
  assumes "tables c + length (take n p) < 2 ^ 63"
  shows "\<exists>d. handle_headers_frame fl i p n c = Some d"
proof -
  have l: "length (ps_fragment (case map_of (hc_pending c) i of None \<Rightarrow> pending_stream_new | Some ps \<Rightarrow> ps) @ take n p) < 2 ^ 63"
    using assms fragment_le [of c i] by (auto simp: pending_stream_new_def split: option.split)
  have e: "\<exists>d hs. hpack_decode (ps_fragment (case map_of (hc_pending c) i of None \<Rightarrow> pending_stream_new | Some ps \<Rightarrow> ps) @
      take n p) dec = Some (d, hs)" for dec
    using decode_ends [OF l, of dec] by blast
  show ?thesis unfolding handle_headers_frame_def Let_def
    using e [of "hc_decoder c"] by (auto split: option.split)
qed

lemma continuation_ends:
  assumes "tables c + length (take n p) < 2 ^ 63"
  shows "\<exists>d. handle_continuation_frame fl i p n c = Some d"
proof (cases "map_of (hc_pending c) i")
  case None
  then show ?thesis by (simp add: handle_continuation_frame_def)
next
  case (Some ps)
  have "length (ps_fragment ps @ take n p) < 2 ^ 63" using assms fragment_le [OF Some] by simp
  from decode_ends [OF this, of "hc_decoder c"] show ?thesis
    using Some by (auto simp: handle_continuation_frame_def Let_def)
qed

lemma settings_ends:
  assumes "length (take n p) < 2 ^ 63"
  shows "\<exists>d. handle_settings_frame fl p n c = Some d"
proof -
  have ok: "cursor_ok (cursor_of (take n p))" using assms by (simp add: cursor_ok_def cursor_of_def bc_size_def)
  have "length (cur_rest (cursor_of (take n p))) < n + 1" by simp
  from settings_loop_ends [OF ok this, of "[]"] show ?thesis by (auto simp: handle_settings_frame_def Let_def)
qed

lemma frame_ends:
  assumes "\<not> short_frame (call_frame f)" "tables c + frame_size (call_frame f) < 2 ^ 63"
  shows "\<exists>d. handle_frame f c = Some d"
proof -
  let ?p = "fc_payload f" and ?n = "fc_len f"
  have l: "tables c + length (take ?n ?p) < 2 ^ 63" "length (take ?n ?p) < 2 ^ 63" "length (take ?n ?p) \<le> length ?p"
    using assms(2) by (simp_all add: frame_size_def call_frame_def)
  have "fc_type f = frame_type_code FT_ping \<Longrightarrow> \<exists>d. handle_ping_frame (fc_flags f) ?p c = Some d"
    "fc_type f = frame_type_code FT_goaway \<Longrightarrow> \<exists>d. handle_goaway_frame ?p c = Some d"
    "fc_type f = frame_type_code FT_window_update \<Longrightarrow> \<exists>d. handle_window_update_frame (fc_stream_id f) ?p c = Some d"
    using assms(1) l(3)
    by (auto simp: short_frame_def call_frame_def handle_ping_frame_def handle_goaway_frame_def
        handle_window_update_frame_def Let_def split: prod.split option.split)
  then show ?thesis
    using headers_ends [OF l(1)] continuation_ends [OF l(1)] settings_ends [OF l(2)]
    unfolding handle_frame_def Let_def by (simp del: frame_type_code.simps)
qed

lemma frames_end:
  "list_all (\<lambda>f. \<not> short_frame (call_frame f)) fs \<Longrightarrow>
   tables c + sum_list (map (frame_size \<circ> call_frame) fs) < 2 ^ 63 \<Longrightarrow> \<exists>d. handle_frames fs c = Some d"
proof (induction fs arbitrary: c)
  case (Cons f fs)
  then obtain c1 where c1: "handle_frame f c = Some c1" using frame_ends [of f c] by auto
  have "tables c1 \<le> tables c + frame_size (call_frame f)"
    using grows_frame [OF c1] by (simp add: grows_def frame_size_def)
  then show ?case using Cons c1 by simp
qed simp

lemma split_size: "sum_list (map frame_size (fst (split_frames bs))) + length (snd (split_frames bs)) = length bs"
proof (induction bs rule: split_frames.induct)
  case (1 bs)
  show ?case
  proof (cases "whole_frame bs")
    case True
    then have "frame_size (head_frame bs) = 9 + unat (read_be24 bs)" "9 + unat (read_be24 bs) \<le> length bs"
      by (auto simp: whole_frame_def frame_size_def head_frame_def)
    then show ?thesis using "1" [OF True] by (simp add: split_frames_Some [OF True])
  qed (simp add: split_frames_None)
qed

lemma split_more:
  assumes "f \<in> set (fst (split_frames (snd (split_frames bs) @ cs)))"
  shows "f \<in> set (fst (split_frames (bs @ cs)))"
  using assms by (simp add: split_frames_append [of bs cs])

subsection \<open>Reading\<close>

lemma read_frames_holds:
  fixes c :: http2_connection
  defines "bs \<equiv> partial_buffer (hc_framer c) @ hc_read_buffer c"
  assumes "length bs < 2 ^ 63"
  shows "read_frames c = Some d \<Longrightarrow> held d \<le> held c \<and> hc_read_buffer d = [] \<and>
      partial_buffer (hc_framer d) = snd (split_frames bs) \<and> hc_preface_received d = hc_preface_received c"
    "tables c + length bs < 2 ^ 63 \<Longrightarrow> \<forall>f \<in> set (fst (split_frames bs)). \<not> short_frame f \<Longrightarrow>
      \<exists>d. read_frames c = Some d"
proof -
  let ?s = "split_frames bs" and ?c = "c\<lparr>hc_write_batch_depth := hc_write_batch_depth c + 1\<rparr>"
  from decode_frames_ok [of "hc_framer c" "hc_read_buffer c"] assms(2) obtain cs where
    cs: "decode_frames (hc_read_buffer c) (hc_framer c) = Some (\<lparr>partial_buffer = snd ?s\<rparr>, cs)"
      "map call_frame cs = fst ?s" unfolding bs_def by blast
  let ?c1 = "?c\<lparr>hc_framer := \<lparr>partial_buffer = snd ?s\<rparr>\<rparr>"
  have size: "sum_list (map (frame_size \<circ> call_frame) cs) + length (snd ?s) = length bs"
    using split_size [of bs] unfolding cs(2) [symmetric] by simp
  have run: "read_frames c = (case handle_frames cs ?c1 of None \<Rightarrow> None | Some c \<Rightarrow>
      Some (flush_writes (c\<lparr>hc_write_batch_depth := hc_write_batch_depth c - 1, hc_read_buffer := []\<rparr>)))"
    using cs(1) by (simp add: read_frames_def Let_def)
  have t: "tables ?c1 = tables c" by simp
  show "held d \<le> held c \<and> hc_read_buffer d = [] \<and> partial_buffer (hc_framer d) = snd ?s \<and>
      hc_preface_received d = hc_preface_received c" if rf: "read_frames c = Some d"
  proof -
    obtain e where e: "handle_frames cs ?c1 = Some e"
      "d = flush_writes (e\<lparr>hc_write_batch_depth := hc_write_batch_depth e - 1, hc_read_buffer := []\<rparr>)"
      using rf unfolding run by (auto split: option.splits)
    have g: "tables e \<le> tables c + sum_list (map (frame_size \<circ> call_frame) cs)" "same_input ?c1 e"
      using grows_frames [OF e(1)] t by (simp_all add: grows_def)
    have "hc_framer d = hc_framer e" "hc_read_buffer d = []" "hc_preface_received d = hc_preface_received e"
      "tables d = tables e" unfolding e(2) by (simp_all add: flush_writes_def tables_def)
    then show ?thesis using g size by (auto simp: same_input_def held_def bs_def)
  qed
  show "\<exists>d. read_frames c = Some d"
    if "tables c + length bs < 2 ^ 63" "\<forall>f \<in> set (fst ?s). \<not> short_frame f"
  proof -
    have "list_all (\<lambda>f. \<not> short_frame (call_frame f)) cs"
      using that(2) unfolding cs(2) [symmetric] by (simp add: list_all_iff)
    moreover have "tables ?c1 + sum_list (map (frame_size \<circ> call_frame) cs) < 2 ^ 63"
      using that(1) size t by simp
    ultimately obtain e where "handle_frames cs ?c1 = Some e" using frames_end by blast
    then show ?thesis using run by simp
  qed
qed

text \<open>What an open connection has made of the bytes it was given.\<close>

definition input_ok :: "byte list \<Rightarrow> http2_connection \<Rightarrow> bool" where
  "input_ok bs c \<longleftrightarrow> held c \<le> length bs \<and>
     (hc_closed c \<or>
      (if hc_preface_received c
       then 24 \<le> length bs \<and> hc_read_buffer c = [] \<and> partial_buffer (hc_framer c) = snd (split_frames (drop 24 bs))
       else hc_read_buffer c = bs \<and> partial_buffer (hc_framer c) = []))"

lemma held_close [simp]: "held (close_connection e c) = held c" "hc_closed (close_connection e c)"
  by (simp add: held_def) (simp add: close_connection_def flush_writes_def Let_def)

lemma held_write [simp]: "held (write_frame f c) = held c"
  by (simp add: held_def)

text \<open>A call that reads frames starts from a connection with the frame bytes in its two buffers; every
  other call only keeps the bytes or closes.\<close>

definition reads_from :: "byte list \<Rightarrow> byte list \<Rightarrow> http2_connection \<Rightarrow> http2_connection \<Rightarrow> bool" where
  "reads_from bs b c d \<longleftrightarrow> hc_preface_received d \<and> held d \<le> length (bs @ b) \<and> 24 \<le> length (bs @ b) \<and>
     partial_buffer (hc_framer d) @ hc_read_buffer d =
       (if hc_preface_received c then snd (split_frames (drop 24 bs)) @ b else drop 24 (bs @ b)) \<and>
     (hc_preface_received c \<longrightarrow> 24 \<le> length bs)"

lemma readable_preface:
  assumes "input_ok bs c" "\<not> hc_closed c" "b \<noteq> []" "length (hc_read_buffer c) + length b \<le> MAX_READ_BUFFER_SIZE"
    "\<not> hc_preface_received c"
  shows "(\<exists>e. on_readable b c = Some e \<and> input_ok (bs @ b) e) \<or>
    (\<exists>d. on_readable b c = read_frames d \<and> reads_from bs b c d)"
proof -
  let ?c = "c\<lparr>hc_read_buffer := hc_read_buffer c @ b\<rparr>"
  have rb: "hc_read_buffer c = bs" "partial_buffer (hc_framer c) = []"
    using assms(1,2,5) by (simp_all add: input_ok_def)
  have h: "held ?c \<le> length (bs @ b)" using assms(1) by (simp add: input_ok_def held_def)
  consider "length (bs @ b) < 24" | "24 \<le> length (bs @ b)" "take 24 (bs @ b) \<noteq> HTTP2_CLIENT_PREFACE" |
    "24 \<le> length (bs @ b)" "take 24 (bs @ b) = HTTP2_CLIENT_PREFACE" by linarith
  then show ?thesis
  proof cases
    case 1
    then have "on_readable b c = Some ?c" using assms rb by (simp add: on_readable_def Let_def)
    moreover have "input_ok (bs @ b) ?c" using h rb assms(5) by (simp add: input_ok_def)
    ultimately show ?thesis by blast
  next
    case 2
    then have "on_readable b c = Some (close_connection Protocol_error ?c)"
      using assms rb by (simp add: on_readable_def Let_def)
    moreover have "input_ok (bs @ b) (close_connection Protocol_error ?c)" using h by (simp add: input_ok_def)
    ultimately show ?thesis by blast
  next
    case 3
    let ?d = "\<lambda>fr. write_frame fr (?c\<lparr>hc_preface_received := True, hc_read_buffer := drop 24 (bs @ b)\<rparr>)"
    obtain fr where r: "on_readable b c = read_frames (?d fr)"
      using 3 assms rb by (simp add: on_readable_def Let_def)
    have "held (?d fr) \<le> held ?c" using rb by (simp add: held_def)
    then have "reads_from bs b c (?d fr)" using h 3 rb assms(5) by (simp add: reads_from_def)
    then show ?thesis using r by blast
  qed
qed

lemma readable_cases:
  assumes "input_ok bs c"
  shows "(\<exists>e. on_readable b c = Some e \<and> input_ok (bs @ b) e) \<or>
    (\<exists>d. on_readable b c = read_frames d \<and> reads_from bs b c d)"
proof -
  let ?c = "c\<lparr>hc_read_buffer := hc_read_buffer c @ b\<rparr>"
  have h: "held c \<le> length (bs @ b)" "held ?c \<le> length (bs @ b)"
    using assms by (simp_all add: input_ok_def held_def)
  show ?thesis
  proof (cases "hc_closed c \<or> b = [] \<or> length (hc_read_buffer c) + length b > MAX_READ_BUFFER_SIZE")
    case True
    then have "\<exists>e. on_readable b c = Some e \<and> held e = held c \<and> hc_closed e"
      by (auto simp: on_readable_def)
    then show ?thesis using h by (auto simp: input_ok_def)
  next
    case False
    show ?thesis
    proof (cases "hc_preface_received c")
      case True
      have "on_readable b c = read_frames ?c" using False True by (simp add: on_readable_def Let_def)
      moreover have "reads_from bs b c ?c" using False True assms h by (simp add: reads_from_def input_ok_def)
      ultimately show ?thesis by blast
    next
      case np: False
      from readable_preface [OF assms _ _ _ np] False show ?thesis by auto
    qed
  qed
qed

lemma readable_step:
  assumes "input_ok bs c" "length (bs @ b) < 2 ^ 63"
  shows "on_readable b c = Some e \<Longrightarrow> input_ok (bs @ b) e"
    "\<forall>f \<in> set (fst (split_frames (drop 24 (bs @ b)))). \<not> short_frame f \<Longrightarrow> \<exists>e. on_readable b c = Some e"
proof -
  have reads: "(\<forall>e. read_frames d = Some e \<longrightarrow> input_ok (bs @ b) e) \<and>
      ((\<forall>f \<in> set (fst (split_frames (drop 24 (bs @ b)))). \<not> short_frame f) \<longrightarrow> (\<exists>e. read_frames d = Some e))"
    if d: "reads_from bs b c d" for d
  proof -
    let ?bs = "partial_buffer (hc_framer d) @ hc_read_buffer d"
    have "held d \<le> length (bs @ b)" using d unfolding reads_from_def by blast
    moreover have "held d = tables d + length ?bs" by (simp add: held_def)
    ultimately have l: "tables d + length ?bs \<le> length (bs @ b)" by linarith
    then have small: "length ?bs < 2 ^ 63" "tables d + length ?bs < 2 ^ 63" using assms(2) by linarith+
    have d': "hc_preface_received d" "24 \<le> length (bs @ b)"
      "?bs = (if hc_preface_received c then snd (split_frames (drop 24 bs)) @ b else drop 24 (bs @ b))"
      "hc_preface_received c \<Longrightarrow> 24 \<le> length bs" "held d \<le> length (bs @ b)"
      using d unfolding reads_from_def by blast+
    have same: "snd (split_frames ?bs) = snd (split_frames (drop 24 (bs @ b))) \<and>
      set (fst (split_frames ?bs)) \<subseteq> set (fst (split_frames (drop 24 (bs @ b))))"
    proof (cases "hc_preface_received c")
      case True
      then have e: "drop 24 (bs @ b) = drop 24 bs @ b" using d'(4) by simp
      show ?thesis using True split_frames_append [of "drop 24 bs" b] unfolding d'(3) e by simp
    qed (simp add: d'(3))
    have "input_ok (bs @ b) e" if e: "read_frames d = Some e" for e
    proof -
      note rf = read_frames_holds(1) [OF small(1) e]
      have "held e \<le> length (bs @ b)" using rf d'(5) by linarith
      then show ?thesis using rf same d'(1,2) by (simp only: input_ok_def simp_thms if_True)
    qed
    moreover have "\<exists>e. read_frames d = Some e" if "\<forall>f \<in> set (fst (split_frames (drop 24 (bs @ b)))). \<not> short_frame f"
      using read_frames_holds(2) [OF small] same that by blast
    ultimately show ?thesis by blast
  qed
  show "input_ok (bs @ b) e" if "on_readable b c = Some e"
    using readable_cases [OF assms(1), of b] reads that by auto
  show "\<exists>e. on_readable b c = Some e" if "\<forall>f \<in> set (fst (split_frames (drop 24 (bs @ b)))). \<not> short_frame f"
    using readable_cases [OF assms(1), of b] reads that by auto
qed

lemma earlier_frames:
  "24 \<le> length bs \<Longrightarrow> set (fst (split_frames (drop 24 bs))) \<subseteq> set (fst (split_frames (drop 24 (bs @ cs))))"
  using split_frames_append [of "drop 24 bs" cs] by auto

lemma earlier_frames_all: "set (fst (split_frames (drop 24 bs))) \<subseteq> set (fst (split_frames (drop 24 (bs @ cs))))"
  using earlier_frames [of bs cs] by (cases "24 \<le> length bs") (auto simp: split_frames.simps [of "[]"] whole_frame_def)

lemma read_all_holds:
  assumes "input_ok ps c" "length (ps @ concat bs) < 2 ^ 63"
  shows "read_all bs c = Some d \<Longrightarrow> held d \<le> length (ps @ concat bs)"
    "\<forall>f \<in> set (fst (split_frames (drop 24 (ps @ concat bs)))). \<not> short_frame f \<Longrightarrow> \<exists>d. read_all bs c = Some d"
  using assms
proof (induction bs arbitrary: ps c)
  case Nil
  { case 1
    then show ?case by (simp add: input_ok_def)
  next
    case 2
    then show ?case by simp }
next
  case (Cons b bs)
  { case 1
    have l: "length (ps @ b) < 2 ^ 63" "length ((ps @ b) @ concat bs) < 2 ^ 63" using 1(3) by simp_all
    from 1(1) obtain e where e: "on_readable b c = Some e" "read_all bs e = Some d" by (auto split: option.splits)
    from Cons.IH(1) [OF e(2) readable_step(1) [OF 1(2) l(1) e(1)] l(2)] show ?case by simp
  next
    case 2
    have l: "length (ps @ b) < 2 ^ 63" "length ((ps @ b) @ concat bs) < 2 ^ 63" using 2(3) by simp_all
    have "\<forall>f \<in> set (fst (split_frames (drop 24 (ps @ b)))). \<not> short_frame f"
      using 2(1) earlier_frames_all [of "ps @ b" "concat bs"] by auto
    from readable_step(2) [OF 2(2) l(1) this] obtain e where e: "on_readable b c = Some e" by blast
    from Cons.IH(2) [OF _ readable_step(1) [OF 2(2) l(1) e] l(2)] 2(1) e show ?case by simp }
qed

lemma input_ok_new: "input_ok [] (http2_connection_new r h)"
  by (simp add: input_ok_def held_def tables_def assoc_sum_def http2_connection_new_def flow_control_new_def)

text \<open>C22 (connection_bounded): for every sequence of received pieces after which the connection still
  runs, it has no more streams than its own limit, at most 4 MB to write and 64 KB read, and has called
  the close handler at most once; a closed connection does not change any more. If fewer than
  \<open>2 ^ 63\<close> bytes were received, then what it holds in all (read buffer, incomplete frame, fragments
  and bodies of unfinished requests, entries of the maps; decoded header fields are not counted) is at
  most the number of bytes received; and if no complete frame among them is a PING of fewer than 8
  bytes without ACK, or a GOAWAY or WINDOW\_UPDATE of fewer than 4, every handler ends and reads only
  received bytes. On such a short frame the code reads behind the payload (\<open>None\<close> when the buffer
  ends there).\<close>

theorem connection_bounded:
  "(\<forall>c. read_all bs (http2_connection_new router handler) = Some c \<longrightarrow>
      length (hc_streams c) \<le> 100 \<and> length (hc_write_buffer c) \<le> 4194304 \<and>
      length (hc_read_buffer c) \<le> 65536 \<and> length (hc_close_codes c) \<le> 1 \<and>
      (hc_closed c \<longrightarrow> read_all ds c = Some c) \<and>
      (length (concat bs) < 2 ^ 63 \<longrightarrow> held c \<le> length (concat bs))) \<and>
   (length (concat bs) < 2 ^ 63 \<and>
      (\<forall>f \<in> set (fst (split_frames (drop 24 (concat bs)))). \<not> short_frame f) \<longrightarrow>
    (\<exists>c. read_all bs (http2_connection_new router handler) = Some c))"
proof (intro conjI allI impI)
  fix c assume r: "read_all bs (http2_connection_new router handler) = Some c"
  have local_set: "hc_local_settings c = hc_local_settings d" if "read_all bs d = Some c" for bs d
    using that by (induction bs arbitrary: d) (auto split: option.splits dest: readable_local)
  have inv: "connection_inv c" if "read_all bs d = Some c" "connection_inv d" for bs d
    using that by (induction bs arbitrary: d) (auto split: option.splits intro: inv_readable)
  have "unat (max_concurrent_streams (hc_local_settings c)) = 100"
    unfolding local_set [OF r]
    by (simp add: http2_connection_new_def max_concurrent_streams_def http2_settings_new_def
        settings_set_def settings_get_def)
  then show "length (hc_streams c) \<le> 100" "length (hc_write_buffer c) \<le> 4194304"
    "length (hc_read_buffer c) \<le> 65536" "length (hc_close_codes c) \<le> 1"
    using inv [OF r inv_new] by (simp_all add: connection_inv_def MAX_WRITE_BUFFER_SIZE_def MAX_READ_BUFFER_SIZE_def)
  show "read_all ds c = Some c" if "hc_closed c" using that by (induction ds) (simp_all add: on_readable_def)
  show "held c \<le> length (concat bs)" if "length (concat bs) < 2 ^ 63"
    using read_all_holds(1) [OF input_ok_new _ r] that by simp
next
  assume "length (concat bs) < 2 ^ 63 \<and> (\<forall>f \<in> set (fst (split_frames (drop 24 (concat bs)))). \<not> short_frame f)"
  then show "\<exists>c. read_all bs (http2_connection_new router handler) = Some c"
    using read_all_holds(2) [OF input_ok_new, of bs] by simp
qed

theorem connection_bounded_witness:
  "\<exists>c. read_all [[1, 2, 3], []] (http2_connection_new False True) = Some c \<and> hc_closed c \<and>
    length (hc_close_codes c) \<le> 1 \<and> read_all [[4]] c = Some c \<and> held c \<le> 3"
proof -
  let ?c = "(http2_connection_new False True)\<lparr>hc_read_buffer := [1, 2, 3], hc_closed := True, hc_close_codes := [2]\<rparr>"
  have r: "read_all [[1, 2, 3], []] (http2_connection_new False True) = Some ?c"
    by (simp add: on_readable_def http2_connection_new_def MAX_READ_BUFFER_SIZE_def close_connection_def
        flush_writes_def)
  have l: "length (concat [[1, 2, 3 :: byte], []]) = 3" by simp
  have b: "length (hc_close_codes ?c) \<le> 1 \<and> (hc_closed ?c \<longrightarrow> read_all [[4]] ?c = Some ?c) \<and>
      (length (concat [[1, 2, 3 :: byte], []]) < 2 ^ 63 \<longrightarrow> held ?c \<le> length (concat [[1, 2, 3 :: byte], []]))"
    using connection_bounded [of "[[1, 2, 3], []]" False True "[[4]]", THEN conjunct1, THEN spec, THEN mp, OF r] by blast
  then show ?thesis using r unfolding l by (intro exI [of _ ?c]) simp
qed

text \<open>Fact (continuation_unlimited): the fragments of a header block are collected for as long as the peer
  sends CONTINUATION frames without END\_HEADERS, whatever their number; nothing closes the
  connection. The 64 KB limit is on one piece of received bytes only.\<close>

theorem continuation_unlimited:
  assumes "map_of (hc_pending c) i = Some q" "ps_waiting q" "hc_last_stream_id c = 0"
  shows "\<exists>d. handle_frames (map (\<lambda>p. \<lparr>fc_type = 9, fc_flags = 0, fc_stream_id = i, fc_payload = p,
      fc_len = length p\<rparr>) ps) c = Some d \<and>
    map_of (hc_pending d) i = Some (q\<lparr>ps_fragment := ps_fragment q @ concat ps\<rparr>) \<and> hc_closed d = hc_closed c"
  using assms
proof (induction ps arbitrary: c q)
  case (Cons p ps)
  let ?q = "q\<lparr>ps_fragment := ps_fragment q @ p\<rparr>"
  let ?c = "c\<lparr>hc_pending := AList.update i ?q (hc_pending c)\<rparr>"
  have "handle_frame \<lparr>fc_type = 9, fc_flags = 0, fc_stream_id = i, fc_payload = p, fc_len = length p\<rparr> c = Some ?c"
    using Cons.prems by (simp add: handle_frame_def handle_continuation_frame_def Let_def)
  then show ?case using Cons.IH [of ?c ?q] Cons.prems by simp
qed simp

theorem continuation_unlimited_witness:
  "\<exists>d. handle_frames (map (\<lambda>p. \<lparr>fc_type = 9, fc_flags = 0, fc_stream_id = 1, fc_payload = p, fc_len = length p\<rparr>)
      [[1, 2], [3]]) ((http2_connection_new False True)\<lparr>hc_pending := [(1, pending_stream_new\<lparr>ps_waiting := True\<rparr>)]\<rparr>) = Some d \<and>
    map_of (hc_pending d) 1 = Some (pending_stream_new\<lparr>ps_waiting := True, ps_fragment := [1, 2, 3]\<rparr>)"
proof -
  let ?c = "(http2_connection_new False True)\<lparr>hc_pending := [(1, pending_stream_new\<lparr>ps_waiting := True\<rparr>)]\<rparr>"
  have "map_of (hc_pending ?c) 1 = Some (pending_stream_new\<lparr>ps_waiting := True\<rparr>)"
    "ps_waiting (pending_stream_new\<lparr>ps_waiting := True\<rparr>)" "hc_last_stream_id ?c = 0"
    by (simp_all add: http2_connection_new_def)
  from continuation_unlimited [OF this, of "[[1, 2], [3]]"] show ?thesis by (auto simp: pending_stream_new_def)
qed

subsection \<open>Where requests are lost\<close>

text \<open>Fact (push_promise_blocks_requests): \<open>last_stream_id_\<close> is the limit that GOAWAY sets for the
  streams of the peer, but \<open>send_push_promise\<close> raises it to the number of its own stream: from
  then on every frame of a client stream with a higher number is dropped without an answer.\<close>

theorem push_promise_blocks_requests:
  assumes "\<not> hc_closed c" "enable_push (hc_remote_settings c)" "promised AND 1 = 0" "promised \<noteq> 0"
    "hc_last_stream_id c \<le> promised" "promised < fc_stream_id f"
  shows "handle_frame f (send_push_promise sid promised headers c) =
    Some (send_push_promise sid promised headers c)"
proof -
  have "hc_last_stream_id (send_push_promise sid promised headers c) = promised"
    using assms by (simp add: send_push_promise_def Let_def case_prod_beta max_def)
  then show ?thesis using assms(4,6) by (simp add: handle_frame_def Let_def word_gt_0)
qed

theorem push_promise_blocks_requests_witness:
  "let c = send_push_promise 1 2 [] ((http2_connection_new False True)\<lparr>hc_remote_settings := [(2, 1)]\<rparr>)
   in handle_frame \<lparr>fc_type = 1, fc_flags = 5, fc_stream_id = 3, fc_payload = [0x82], fc_len = 1\<rparr> c = Some c"
proof -
  let ?c = "(http2_connection_new False True)\<lparr>hc_remote_settings := [(2, 1)]\<rparr>"
  have "\<not> hc_closed ?c" "enable_push (hc_remote_settings ?c)" "hc_last_stream_id ?c \<le> 2"
    by (simp_all add: http2_connection_new_def enable_push_def settings_get_def)
  moreover have "(2 :: u32) AND 1 = 0" "(2 :: u32) \<noteq> 0" by simp_all
  ultimately show ?thesis
    using push_promise_blocks_requests [of ?c 2
        "\<lparr>fc_type = 1, fc_flags = 5, fc_stream_id = 3, fc_payload = [0x82], fc_len = 1\<rparr>" 1 "[]"]
    by (simp add: Let_def)
qed

text \<open>Fact (trailers_lose_request): when a client ends a request by trailers, the application gets the
  trailers in place of the request's headers and no body at all, and the stream stays open: the
  end of the response does not remove it from the table either.\<close>

theorem trailers_lose_request:
  assumes "accepts sid c" "calls_frame h (header_frame sid b False True)"
    "calls_frame d (Data_frame \<lparr>df_stream_id = sid, df_data = body, df_pad_length = 0, df_end_stream = False\<rparr>)"
    "calls_frame t (header_frame sid b' True True)"
    "hpack_decode b (hc_decoder c) = Some (dec, headers)" "hpack_decode b' dec = Some (dec', trailers)"
  shows "\<exists>c'. handle_frames [h, d, t] c = Some c' \<and>
    hc_requests c' = hc_requests c @ [request_of (hc_has_router c) sid trailers []] \<and>
    map_option st_state (map_of (hc_streams (end_sending sid c')) sid) = Some Half_closed_local"
proof -
  have a: "listens sid c" "unat sid < 2 ^ 31" "map_of (hc_streams c) sid = None" "map_of (hc_pending c) sid = None"
    "\<not> unat (max_concurrent_streams (hc_local_settings c)) \<le> length (hc_streams c)"
    using assms(1) by (simp_all add: accepts_def)
  have r: "hc_has_router c \<or> hc_has_handler c" using a(1) by (simp add: listens_def)
  have last: "\<not> (hc_last_stream_id c > 0 \<and> sid > hc_last_stream_id c)" using listens_frame [OF a(1)] .
  note fh = calls_header [OF assms(2) a(2)] and fd = calls_data [OF assms(3) a(2)] and ft = calls_header [OF assms(4) a(2)]
  let ?s = "on_receive_headers False (http2_stream_new sid)"
  let ?ps = "pending_stream_new\<lparr>ps_headers := headers\<rparr>"
  let ?c1 = "c\<lparr>hc_streams := AList.update sid ?s (hc_streams c), hc_decoder := dec,
    hc_pending := AList.update sid ?ps (hc_pending c)\<rparr>"
  have h1: "handle_frame h c = Some ?c1"
  proof -
    have "handle_frame h c = handle_headers_frame (fc_flags h) sid (fc_payload h) (fc_len h) c"
      using fh last by (auto simp: handle_frame_def Let_def)
    then show ?thesis using fh a assms(5) by (simp add: handle_headers_frame_def Let_def pending_stream_new_def)
  qed
  let ?ps2 = "?ps\<lparr>ps_data := body, ps_end_stream := False\<rparr>"
  let ?c2 = "(consume_window_of sid (fc_len d) ?c1)\<lparr>hc_pending := AList.update sid ?ps2 (hc_pending ?c1)\<rparr>"
  have h2: "handle_frame d ?c1 = Some ?c2"
  proof -
    have "handle_frame d ?c1 = Some (handle_data_frame (fc_flags d) sid (fc_payload d) (fc_len d) ?c1)"
      using fd last by (auto simp: handle_frame_def Let_def)
    then show ?thesis using fd by (simp add: handle_data_frame_def Let_def pending_stream_new_def)
  qed
  have str: "map_of (hc_streams ?c2) sid = Some ?s" by simp
  have open_s: "st_state ?s = Open_state" by (simp add: on_receive_headers_def)
  have "handle_frame t ?c2 = handle_headers_frame (fc_flags t) sid (fc_payload t) (fc_len t) ?c2"
    using ft last by (auto simp: handle_frame_def Let_def)
  then have "\<exists>c'. handle_frame t ?c2 = Some c' \<and> hc_streams c' = hc_streams ?c2 \<and>
      hc_requests c' = hc_requests c @ [request_of (hc_has_router c) sid trailers []]"
    using ft str open_s assms(6) r
    by (simp add: handle_headers_frame_def Let_def erase_if_closed_def is_closed_def deliver_eq pending_stream_new_def)
  then obtain c' where c': "handle_frame t ?c2 = Some c'" "hc_streams c' = hc_streams ?c2"
    "hc_requests c' = hc_requests c @ [request_of (hc_has_router c) sid trailers []]" by blast
  have "map_option st_state (map_of (hc_streams (end_sending sid c')) sid) = Some Half_closed_local"
    using c'(2) str open_s
    by (simp add: end_sending_def update_stream_def erase_if_closed_def on_send_data_def is_closed_def)
  then show ?thesis using h1 h2 c' by simp
qed

theorem trailers_lose_request_witness:
  "\<exists>c'. handle_frames
      [\<lparr>fc_type = 1, fc_flags = 4, fc_stream_id = 1, fc_payload = [0x83], fc_len = 1\<rparr>,
       \<lparr>fc_type = 0, fc_flags = 0, fc_stream_id = 1, fc_payload = [7], fc_len = 1\<rparr>,
       \<lparr>fc_type = 1, fc_flags = 5, fc_stream_id = 1, fc_payload = [0x90], fc_len = 1\<rparr>]
      (http2_connection_new False True) = Some c' \<and>
    hc_requests c' = [Handled 1 [(''accept-encoding'', ''gzip, deflate'')] [] True]"
proof -
  let ?c = "http2_connection_new False True"
  have acc: "accepts 1 ?c"
    by (simp add: accepts_def listens_def http2_connection_new_def max_concurrent_streams_def settings_get_def
        http2_settings_new_def settings_set_def)
  have dec: "hc_decoder ?c = hpack_new 4096" "hc_requests ?c = []" "hc_has_router ?c = False"
    by (simp_all add: http2_connection_new_def header_table_size_def settings_get_def http2_settings_new_def
        settings_set_def)
  let ?h = "\<lparr>fc_type = 1, fc_flags = 4, fc_stream_id = 1, fc_payload = [0x83], fc_len = 1\<rparr>"
  let ?d = "\<lparr>fc_type = 0, fc_flags = 0, fc_stream_id = 1, fc_payload = [7], fc_len = 1\<rparr>"
  let ?t = "\<lparr>fc_type = 1, fc_flags = 5, fc_stream_id = 1, fc_payload = [0x90], fc_len = 1\<rparr>"
  have calls: "calls_frame ?h (header_frame 1 [0x83] False True)"
    "calls_frame ?d (Data_frame \<lparr>df_stream_id = 1, df_data = [7], df_pad_length = 0, df_end_stream = False\<rparr>)"
    "calls_frame ?t (header_frame 1 [0x90] True True)"
    by (simp_all add: calls_frame_def call_frame_def header_frame_def set_id_def padded_def flag_if_def)
  have d: "hpack_decode [0x83] (hc_decoder ?c) = Some (hpack_new 4096, [('':method'', ''POST'')])"
    "hpack_decode [0x90] (hpack_new 4096) = Some (hpack_new 4096, [(''accept-encoding'', ''gzip, deflate'')])"
    unfolding dec by code_simp+
  from trailers_lose_request [OF acc calls d] show ?thesis
    unfolding dec append_Nil by (auto simp: request_of_def)
qed

text \<open>Fact (empty_ping_reads_on): the handlers of PING, GOAWAY and WINDOW\_UPDATE give their cursor a
  fixed size. An empty PING at the end of the received bytes reads behind the buffer, and one that
  is followed by the beginning of another frame is answered with the bytes of that frame.\<close>

theorem empty_ping_reads_on:
  "let c = (http2_connection_new False True)\<lparr>hc_preface_received := True\<rparr>
   in on_readable [0, 0, 0, 6, 0, 0, 0, 0, 0] c = None \<and>
      map_option hc_sent (on_readable ([0, 0, 0, 6, 0, 0, 0, 0, 0] @ [0, 0, 5, 0, 1, 0, 0, 0]) c) =
        Some ([0, 0, 8, 6, 1, 0, 0, 0, 0] @ [0, 0, 5, 0, 1, 0, 0, 0])"
proof -
  let ?c = "(http2_connection_new False True)\<lparr>hc_preface_received := True\<rparr>"
  let ?call = "\<lambda>p. \<lparr>fc_type = 6, fc_flags = 0, fc_stream_id = 0, fc_payload = p, fc_len = 0\<rparr>"
  let ?next = "[0, 0, 5, 0, 1, 0, 0, 0] :: byte list"
  have l: "frames_loop (Suc (Suc n)) (cursor_of [0, 0, 0, 6, 0, 0, 0, 0, 0]) [] = Some ([], [?call []])"
    "frames_loop (Suc (Suc n)) (cursor_of [0, 0, 0, 6, 0, 0, 0, 0, 0, 0, 0, 5, 0, 1, 0, 0, 0]) [] =
      Some (?next, [?call ?next])" for n
    by (simp_all add: try_read_be24_def try_read_be32_def try_read_fixed_def try_read_bytes_def try_read_byte_def
        runs_past_def advance_def cursor_of_def cur_remaining_def bc_size_def exhausted_def read_be24_def
        read_be32_def Let_def)
  have d: "decode_frames [0, 0, 0, 6, 0, 0, 0, 0, 0] \<lparr>partial_buffer = []\<rparr> =
      Some (\<lparr>partial_buffer = []\<rparr>, [?call []])"
    "decode_frames [0, 0, 0, 6, 0, 0, 0, 0, 0, 0, 0, 5, 0, 1, 0, 0, 0] \<lparr>partial_buffer = []\<rparr> =
      Some (\<lparr>partial_buffer = ?next\<rparr>, [?call ?next])"
    by (simp_all add: decode_frames_def l del: frames_loop.simps)
  have p: "snd (try_read_be64 (cursor_of ?next)) = Some 0x0000050001000000"
    "encode_ping_frame \<lparr>ping_opaque_data = 0x0000050001000000, ping_ack = True\<rparr> = [0, 0, 8, 6, 1, 0, 0, 0, 0] @ ?next"
    by (simp add: try_read_be64_def try_read_fixed_def runs_past_def cursor_of_def bc_size_def read_be64_def)
      code_simp
  have h: "handle_frame (?call []) c = None"
    "handle_frame (?call ?next) c = Some (write_frame ([0, 0, 8, 6, 1, 0, 0, 0, 0] @ ?next) c)" for c
    using p by (auto simp: handle_frame_def handle_ping_frame_def Let_def split: prod.split)
  show ?thesis unfolding Let_def
    by (simp add: on_readable_def MAX_READ_BUFFER_SIZE_def read_frames_def Let_def d h http2_connection_new_def write_frame_def
        MAX_WRITE_BUFFER_SIZE_def flush_writes_def)
qed

end
