(* ===== verification/Http2Responses.thy ===== *)
theory Http2Responses
  imports Http2Requests
begin

section \<open>Responses on an HTTP/2 connection\<close>

text \<open>
  What the sending operations of \<open>Http2Connection\<close> write: the frames of a header block and of a
  body, the window they use, and the equivalence of the two ways to write DATA frames.
\<close>

text \<open>A list cut into pieces of \<open>n\<close> elements, the last one shorter.\<close>

function pieces :: "nat \<Rightarrow> 'a list \<Rightarrow> 'a list list" where
  "pieces n xs = (if n = 0 \<or> xs = [] then [] else take n xs # pieces n (drop n xs))"
  by pat_completeness auto

termination by (relation "measure (\<lambda>(n, xs). length xs)") auto

declare pieces.simps [simp del]

lemma pieces_Nil [simp]: "pieces n [] = []"
  by (simp add: pieces.simps)

lemma pieces_step: "0 < n \<Longrightarrow> xs \<noteq> [] \<Longrightarrow> pieces n xs = take n xs # pieces n (drop n xs)"
  by (simp add: pieces.simps)

lemma pieces_eq_Nil: "0 < n \<Longrightarrow> pieces n xs = [] \<longleftrightarrow> xs = []"
  by (simp add: pieces.simps)

lemma concat_pieces: "0 < n \<Longrightarrow> concat (pieces n xs) = xs"
proof (induction n xs rule: pieces.induct)
  case (1 n xs)
  then show ?case by (cases "xs = []") (simp_all add: pieces_step)
qed

lemma length_pieces: "p \<in> set (pieces n xs) \<Longrightarrow> length p \<le> n \<and> p \<noteq> []"
proof (induction n xs rule: pieces.induct)
  case (1 n xs)
  then show ?case by (cases "n = 0 \<or> xs = []") (auto simp: pieces_step pieces.simps [of 0])
qed

subsection \<open>Header blocks\<close>

fun block_frames :: "u32 \<Rightarrow> bool \<Rightarrow> bool \<Rightarrow> byte list list \<Rightarrow> typed_frame list" where
  "block_frames sid is_first e [] = []"
| "block_frames sid is_first e (p # ps) =
     (if is_first then header_frame sid p (ps = [] \<and> e) (ps = [])
      else Continuation_frame \<lparr>cf_stream_id = sid, cf_header_block = p, cf_end_headers = (ps = [])\<rparr>) #
     block_frames sid False e ps"

lemma block_frames_rest: "block_frames sid False e ps = continuation_frames sid ps"
  by (induction ps) simp_all

definition frames_bytes :: "typed_frame list \<Rightarrow> byte list" where
  "frames_bytes ts = concat (map encode_typed ts)"

lemma frames_bytes_simps [simp]:
  "frames_bytes [] = []" "frames_bytes (t # ts) = encode_typed t @ frames_bytes ts"
  "frames_bytes (ts @ us) = frames_bytes ts @ frames_bytes us"
  by (simp_all add: frames_bytes_def)

lemma write_room:
  assumes "int (length (hc_write_buffer c) + length f) \<le> MAX_WRITE_BUFFER_SIZE"
  shows "write_frame f c = c\<lparr>hc_write_buffer := hc_write_buffer c @ f\<rparr>"
  using assms by (auto simp: write_frame_def)

lemma write_buffer_twice:
  "c\<lparr>hc_write_buffer := x, hc_write_buffer := y\<rparr> = c\<lparr>hc_write_buffer := y\<rparr>"
  by simp

lemma header_loop_ok:
  assumes "0 < n" "length block - offset < rounds" "offset \<le> length block"
    "int (length (hc_write_buffer c) + length (frames_bytes (block_frames sid is_first e (pieces n (drop offset block)))))
       \<le> MAX_WRITE_BUFFER_SIZE"
  shows "header_loop rounds sid block offset is_first e n c = Some (c\<lparr>hc_write_buffer := hc_write_buffer c @
    frames_bytes (block_frames sid is_first e (pieces n (drop offset block)))\<rparr>)"
  using assms
proof (induction rounds arbitrary: offset is_first c)
  case (Suc rounds)
  show ?case
  proof (cases "offset < length block")
    case False
    then show ?thesis by simp
  next
    case True
    let ?k = "min (length block - offset) n"
    let ?p = "take ?k (drop offset block)" and ?rest = "drop (offset + ?k) block"
    have step: "pieces n (drop offset block) = ?p # pieces n ?rest"
    proof -
      have "pieces n (drop offset block) = take n (drop offset block) # pieces n (drop n (drop offset block))"
        using True Suc.prems(1) by (simp add: pieces_step)
      moreover have "take n (drop offset block) = ?p" by (simp add: min_def)
      moreover have "drop n (drop offset block) = ?rest" by (simp add: min_def add.commute)
      ultimately show ?thesis by simp
    qed
    have fin: "pieces n ?rest = [] \<longleftrightarrow> length block \<le> offset + ?k"
      using Suc.prems(1) by (simp add: pieces_eq_Nil)
    let ?t = "if is_first then header_frame sid ?p (pieces n ?rest = [] \<and> e) (pieces n ?rest = [])
      else Continuation_frame \<lparr>cf_stream_id = sid, cf_header_block = ?p, cf_end_headers = (pieces n ?rest = [])\<rparr>"
    let ?c = "c\<lparr>hc_write_buffer := hc_write_buffer c @ encode_typed ?t\<rparr>"
    have room: "int (length (hc_write_buffer c) + length (encode_typed ?t)) \<le> MAX_WRITE_BUFFER_SIZE"
      using Suc.prems(4) by (simp add: step split del: if_split)
    have k: "0 < ?k" "offset + ?k \<le> length block" using True Suc.prems(1) by auto
    have "header_loop (Suc rounds) sid block offset is_first e n c =
        header_loop rounds sid block (offset + ?k) False e n (write_frame (encode_typed ?t) c)"
      using True fin by (simp add: Let_def header_frame_def)
    also have "write_frame (encode_typed ?t) c = ?c" by (rule write_room [OF room])
    also have "header_loop rounds sid block (offset + ?k) False e n ?c = Some (?c\<lparr>hc_write_buffer :=
        hc_write_buffer ?c @ frames_bytes (block_frames sid False e (pieces n ?rest))\<rparr>)"
    proof (rule Suc.IH)
      show "length block - (offset + ?k) < rounds" using Suc.prems(2) k True by linarith
      show "int (length (hc_write_buffer ?c) + length (frames_bytes (block_frames sid False e (pieces n ?rest))))
          \<le> MAX_WRITE_BUFFER_SIZE"
        using Suc.prems(4) by (simp add: step split del: if_split)
    qed (use Suc.prems(1) k in simp_all)
    finally show ?thesis by (simp add: step split del: if_split)
  qed
qed simp

lemma header_frame_length: "length (encode_typed (header_frame sid p e eh)) = 9 + length p"
  by (simp add: header_frame_def encode_headers_frame_def Let_def build_frame_header_def)

lemma continuation_length:
  "length (encode_typed (Continuation_frame \<lparr>cf_stream_id = sid, cf_header_block = p, cf_end_headers = e\<rparr>)) = 9 + length p"
  by (simp add: encode_continuation_frame_def Let_def build_frame_header_def)

lemma block_frames_length:
  "\<forall>p \<in> set ps. p \<noteq> [] \<Longrightarrow> length (frames_bytes (block_frames sid b e ps)) \<le> 10 * length (concat ps)"
proof (induction ps arbitrary: b)
  case (Cons p ps)
  have "1 \<le> length p" using Cons.prems by (cases p) auto
  moreover have "length (frames_bytes (block_frames sid False e ps)) \<le> 10 * length (concat ps)"
    using Cons by simp
  ultimately show ?case
    by (simp add: header_frame_length continuation_length del: encode_typed.simps)
qed simp

text \<open>The pieces of a header block: it stays whole when it fits one frame.\<close>

definition block_pieces :: "nat \<Rightarrow> byte list \<Rightarrow> byte list list" where
  "block_pieces n block = (if length block > n then pieces n block else [block])"

lemma block_pieces_ok:
  assumes "0 < n"
  shows "\<exists>p ps. block_pieces n block = p # ps \<and> p @ concat ps = block \<and> (\<forall>q \<in> set (p # ps). length q \<le> n)"
proof (cases "length block > n")
  case True
  then have ne: "block \<noteq> []" by auto
  obtain p ps where p: "pieces n block = p # ps" using pieces_step [OF assms ne] by simp
  then show ?thesis using True concat_pieces [OF assms, of block] length_pieces [of _ n block]
    by (auto simp: block_pieces_def)
qed (simp add: block_pieces_def)

lemma write_header_block_ok:
  assumes "0 < max_frame_size (hc_local_settings c)"
    "length (hc_write_buffer c) + 10 * length block + 9 \<le> 4194304"
  shows "write_header_block sid block e c = Some (c\<lparr>hc_write_buffer := hc_write_buffer c @
    frames_bytes (block_frames sid True e (block_pieces (unat (max_frame_size (hc_local_settings c))) block))\<rparr>)"
proof -
  let ?n = "unat (max_frame_size (hc_local_settings c))"
  have n: "0 < ?n" using assms(1) by (simp add: word_less_nat_alt)
  show ?thesis
  proof (cases "length block > ?n")
    case True
    have "length (frames_bytes (block_frames sid True e (pieces ?n block))) \<le> 10 * length (concat (pieces ?n block))"
      by (rule block_frames_length) (auto dest: length_pieces)
    then have "int (length (hc_write_buffer c) + length (frames_bytes (block_frames sid True e (pieces ?n (drop 0 block)))))
        \<le> MAX_WRITE_BUFFER_SIZE"
      using assms(2) concat_pieces [OF n, of block] by (simp add: MAX_WRITE_BUFFER_SIZE_def)
    from header_loop_ok [OF n _ _ this, of "length block + 1"] True show ?thesis
      by (simp add: write_header_block_def Let_def block_pieces_def)
  next
    case False
    have "int (length (hc_write_buffer c) + length (encode_typed (header_frame sid block e True))) \<le> MAX_WRITE_BUFFER_SIZE"
      unfolding header_frame_length using assms(2) by (simp add: MAX_WRITE_BUFFER_SIZE_def)
    from write_room [OF this] False show ?thesis
      by (simp add: write_header_block_def Let_def block_pieces_def header_frame_def)
  qed
qed

subsection \<open>Bodies\<close>

fun body_frames :: "u32 \<Rightarrow> bool \<Rightarrow> byte list list \<Rightarrow> typed_frame list" where
  "body_frames sid e [] = []"
| "body_frames sid e (d # ds) =
     Data_frame \<lparr>df_stream_id = sid, df_data = d, df_pad_length = 0, df_end_stream = (ds = [] \<and> e)\<rparr> #
     body_frames sid e ds"

lemma data_frame_length:
  "length (encode_data_frame \<lparr>df_stream_id = sid, df_data = d, df_pad_length = 0, df_end_stream = e\<rparr>) = 9 + length d"
  by (simp add: encode_data_frame_def Let_def build_frame_header_def)

lemma body_frames_length:
  "\<forall>p \<in> set ps. p \<noteq> [] \<Longrightarrow> length (frames_bytes (body_frames sid e ps)) \<le> 10 * length (concat ps)"
proof (induction ps)
  case (Cons p ps)
  have "1 \<le> length p" using Cons.prems by (cases p) auto
  moreover have "length (frames_bytes (body_frames sid e ps)) \<le> 10 * length (concat ps)"
    using Cons by simp
  ultimately show ?case by (simp add: data_frame_length)
qed simp

text \<open>The credit that both windows give a stream.\<close>

definition credit :: "u32 \<Rightarrow> http2_connection \<Rightarrow> nat" where
  "credit sid c = min (unat (fc_window sid (hc_flow c))) (unat (connection_window (hc_flow c)))"

lemma unat_min: "unat (min a (b :: u32)) = min (unat a) (unat b)"
  by (simp add: min_def word_le_nat_alt)

lemma data_chunk_eq:
  assumes "remaining \<le> credit sid c" "0 < remaining"
  shows "data_chunk sid remaining c = min remaining (unat (max_frame_size (hc_local_settings c)))"
proof -
  let ?a = "min (fc_window sid (hc_flow c)) (connection_window (hc_flow c))"
  have a: "unat ?a = credit sid c" by (simp add: credit_def unat_min)
  have "?a \<noteq> 0" using a assms by auto
  then show ?thesis using a assms(1) by (simp add: data_chunk_def Let_def)
qed

lemma credit_consume:
  assumes "k \<le> credit sid c"
  shows "credit sid (c\<lparr>hc_flow := fc_consume sid (of_nat k) (hc_flow c)\<rparr>) = credit sid c - k"
    "unat (connection_window (fc_consume sid (of_nat k) (hc_flow c))) = unat (connection_window (hc_flow c)) - k"
proof -
  have "unat (connection_window (hc_flow c)) < 2 ^ 32" by (rule order_less_le_trans [OF unsigned_less]) simp
  then have "k < 2 ^ 32" using assms by (simp add: credit_def)
  then have k: "unat (of_nat k :: u32) = k" by (simp add: unat_of_nat)
  have "fc_can_send sid (of_nat k) (hc_flow c)"
    using assms k by (auto simp: fc_can_send_def fc_window_def credit_def Let_def word_le_nat_alt not_less split: option.splits)
  note ok = fc_consume_ok [OF this]
  show "unat (connection_window (fc_consume sid (of_nat k) (hc_flow c))) = unat (connection_window (hc_flow c)) - k"
    using ok(1) k by simp
  show "credit sid (c\<lparr>hc_flow := fc_consume sid (of_nat k) (hc_flow c)\<rparr>) = credit sid c - k"
    using ok(1,4) k by (simp add: credit_def min_diff)
qed

lemma data_loop_ok:
  assumes "n = unat (max_frame_size (hc_local_settings c))" "0 < n" "length data < rounds"
    "length data \<le> credit sid c"
    "int (length (hc_write_buffer c) + length (frames_bytes (body_frames sid e (pieces n data)))) \<le> MAX_WRITE_BUFFER_SIZE"
  shows "\<exists>fc. data_loop rounds sid data e c = Some (c\<lparr>hc_flow := fc,
      hc_write_buffer := hc_write_buffer c @ frames_bytes (body_frames sid e (pieces n data))\<rparr>) \<and>
    unat (connection_window fc) = unat (connection_window (hc_flow c)) - length data"
  using assms
proof (induction rounds arbitrary: data c)
  case (Suc rounds)
  show ?case
  proof (cases "data = []")
    case True
    then show ?thesis by (intro exI [of _ "hc_flow c"]) simp
  next
    case False
    let ?k = "min (length data) n"
    have chunk: "data_chunk sid (length data) c = ?k"
      using data_chunk_eq [of "length data" sid c] Suc.prems(1,4) False by simp
    have step: "pieces n data = take ?k data # pieces n (drop ?k data)"
      using False Suc.prems(2) by (simp add: pieces_step min_def)
    have fin: "pieces n (drop ?k data) = [] \<longleftrightarrow> length data \<le> ?k"
      using Suc.prems(2) by (simp add: pieces_eq_Nil)
    let ?t = "Data_frame \<lparr>df_stream_id = sid, df_data = take ?k data, df_pad_length = 0,
      df_end_stream = (pieces n (drop ?k data) = [] \<and> e)\<rparr>"
    let ?c1 = "c\<lparr>hc_flow := fc_consume sid (of_nat ?k) (hc_flow c)\<rparr>"
    let ?c2 = "?c1\<lparr>hc_write_buffer := hc_write_buffer ?c1 @ encode_typed ?t\<rparr>"
    have room: "int (length (hc_write_buffer ?c1) + length (encode_typed ?t)) \<le> MAX_WRITE_BUFFER_SIZE"
      using Suc.prems(5) by (simp add: step)
    have "data_loop (Suc rounds) sid data e c = data_loop rounds sid (drop ?k data) e (write_frame (encode_typed ?t) ?c1)"
      using False chunk fin by (simp add: Let_def)
    also have "write_frame (encode_typed ?t) ?c1 = ?c2" by (rule write_room [OF room])
    finally have run: "data_loop (Suc rounds) sid data e c = data_loop rounds sid (drop ?k data) e ?c2" .
    have kc: "?k \<le> credit sid c" using Suc.prems(4) by simp
    have cr: "credit sid ?c2 = credit sid c - ?k" using credit_consume(1) [OF kc] by (simp add: credit_def)
    have "n = unat (max_frame_size (hc_local_settings ?c2))" using Suc.prems(1) by simp
    moreover have "length (drop ?k data) < rounds" using Suc.prems(2,3) False by (cases data) auto
    moreover have "length (drop ?k data) \<le> credit sid ?c2" using Suc.prems(4) cr by simp
    moreover have "int (length (hc_write_buffer ?c2) + length (frames_bytes (body_frames sid e (pieces n (drop ?k data)))))
        \<le> MAX_WRITE_BUFFER_SIZE" using Suc.prems(5) by (simp add: step)
    ultimately obtain fc where fc: "data_loop rounds sid (drop ?k data) e ?c2 = Some (?c2\<lparr>hc_flow := fc,
        hc_write_buffer := hc_write_buffer ?c2 @ frames_bytes (body_frames sid e (pieces n (drop ?k data)))\<rparr>)"
      "unat (connection_window fc) = unat (connection_window (hc_flow ?c2)) - length (drop ?k data)"
      using Suc.IH [of ?c2 "drop ?k data"] Suc.prems(2) by blast
    have "unat (connection_window fc) = unat (connection_window (hc_flow c)) - length data"
      using fc(2) credit_consume(2) [OF kc] by simp
    then show ?thesis using run fc(1) by (intro exI [of _ fc]) (simp add: step)
  qed
qed simp

subsection \<open>The two ways to write a body\<close>

text \<open>Two connections that differ in their windows and in the bytes not yet sent.\<close>

definition same_sent :: "http2_connection \<Rightarrow> http2_connection \<Rightarrow> bool" where
  "same_sent c d \<longleftrightarrow> c\<lparr>hc_flow := hc_flow d, hc_write_buffer := hc_write_buffer d\<rparr> = d"

lemma same_sent_trans: "same_sent c d \<Longrightarrow> same_sent d e \<Longrightarrow> same_sent c e"
  unfolding same_sent_def by (cases c, cases d, cases e) simp

lemma same_sent_sym: "same_sent c d \<Longrightarrow> same_sent d c"
  unfolding same_sent_def by (cases c, cases d) simp

lemma same_sent_upd: "same_sent c (c\<lparr>hc_flow := fc, hc_write_buffer := b\<rparr>)"
  "same_sent c (c\<lparr>hc_flow := fc\<rparr>)" "same_sent c (c\<lparr>hc_write_buffer := b\<rparr>)"
  unfolding same_sent_def by (cases c; simp)+

lemma same_sent_closed: "same_sent c d \<Longrightarrow> hc_closed d = hc_closed c"
  "same_sent c d \<Longrightarrow> hc_local_settings d = hc_local_settings c"
  unfolding same_sent_def by (cases c; cases d; simp)+

lemma close_closed: "hc_closed c \<Longrightarrow> close_connection e c = c"
  by (simp add: close_connection_def)

lemma close_closes [simp]: "hc_closed (close_connection e c)"
  by (simp add: close_connection_def flush_writes_def Let_def)

lemma close_flow: "close_connection e (c\<lparr>hc_flow := fc\<rparr>) = (close_connection e c)\<lparr>hc_flow := fc\<rparr>"
  by (cases c) (simp add: close_connection_def flush_writes_def Let_def)

lemma chunk_bounds:
  "0 < max_frame_size (hc_local_settings c) \<Longrightarrow> 0 < n \<Longrightarrow> 1 \<le> data_chunk sid n c \<and> data_chunk sid n c \<le> n"
  by (auto simp: data_chunk_def Let_def Suc_le_eq unat_gt_0 word_gt_0)

lemma write_closed: "hc_closed c \<Longrightarrow> same_sent c (write_frame f c)"
  using same_sent_upd(3) [of c "hc_write_buffer c"]
  by (auto simp: write_frame_def close_closed same_sent_upd)

lemma data_loop_closed:
  assumes "hc_closed c" "0 < max_frame_size (hc_local_settings c)" "length data < rounds"
  shows "\<exists>d. data_loop rounds sid data e c = Some d \<and> same_sent c d"
  using assms
proof (induction rounds arbitrary: data c)
  case (Suc rounds)
  show ?case
  proof (cases "data = []")
    case True
    then show ?thesis using same_sent_upd(2) [of c "hc_flow c"] by simp
  next
    case False
    let ?k = "data_chunk sid (length data) c"
    let ?t = "encode_data_frame \<lparr>df_stream_id = sid, df_data = take ?k data, df_pad_length = 0,
      df_end_stream = (length data \<le> ?k \<and> e)\<rparr>"
    let ?c1 = "c\<lparr>hc_flow := fc_consume sid (of_nat ?k) (hc_flow c)\<rparr>"
    have s: "same_sent c (write_frame ?t ?c1)"
      using same_sent_trans [OF same_sent_upd(2) write_closed [of ?c1]] Suc.prems(1) by simp
    have "1 \<le> ?k" using chunk_bounds [OF Suc.prems(2)] False by simp
    then have "length (drop ?k data) < rounds" using Suc.prems(3) False by (cases data) auto
    from Suc.IH [OF _ _ this, of "write_frame ?t ?c1"] same_sent_closed [OF s] Suc.prems(1,2)
    obtain d where "data_loop rounds sid (drop ?k data) e (write_frame ?t ?c1) = Some d"
      "same_sent (write_frame ?t ?c1) d" by auto
    then show ?thesis using False same_sent_trans [OF s] by (simp add: Let_def)
  qed
qed simp

text \<open>A chunk with room for its frame is written alike by both, one without closes both connections.\<close>

lemma body_step:
  assumes "data \<noteq> []" "0 < max_frame_size (hc_local_settings c)" "k = data_chunk sid (length data) c"
    "t = encode_data_frame \<lparr>df_stream_id = sid, df_data = take k data, df_pad_length = 0,
      df_end_stream = (length data \<le> k \<and> e)\<rparr>"
    "d = c\<lparr>hc_flow := fc_consume sid (of_nat k) (hc_flow c)\<rparr>"
  shows "length t = 9 + k"
    "data_loop (Suc rounds) sid data e c = data_loop rounds sid (drop k data) e (write_frame t d)"
    "body_loop (Suc rounds) sid data e c =
      (if int (length (hc_write_buffer c) + (9 + k)) > MAX_WRITE_BUFFER_SIZE
       then Some (close_connection Enhance_your_calm c)
       else body_loop rounds sid (drop k data) e
         (c\<lparr>hc_write_buffer := hc_write_buffer c @ t, hc_flow := fc_consume sid (of_nat k) (hc_flow c)\<rparr>))"
proof -
  have k: "k \<le> length data" using chunk_bounds [OF assms(2)] assms(1,3) by simp
  show "length t = 9 + k" using k unfolding assms(4) data_frame_length by simp
  show "data_loop (Suc rounds) sid data e c = data_loop rounds sid (drop k data) e (write_frame t d)"
    using assms(1) unfolding assms(4,5) assms(3) by (simp add: Let_def)
  have t: "t = [ucast (drop_bit 16 (of_nat k :: u64) AND 0xFF), ucast (drop_bit 8 (of_nat k :: u64) AND 0xFF),
      ucast ((of_nat k :: u64) AND 0xFF), frame_type_code FT_data,
      (if k \<ge> length data \<and> e then HTTP2_FLAG_END_STREAM else 0),
      ucast (drop_bit 24 sid AND 0x7F), ucast (drop_bit 16 sid AND 0xFF),
      ucast (drop_bit 8 sid AND 0xFF), ucast (sid AND 0xFF)] @ take k data"
    using k unfolding assms(4) by (simp add: encode_data_frame_def build_frame_header_def Let_def min_def)
  show "body_loop (Suc rounds) sid data e c =
      (if int (length (hc_write_buffer c) + (9 + k)) > MAX_WRITE_BUFFER_SIZE
       then Some (close_connection Enhance_your_calm c)
       else body_loop rounds sid (drop k data) e
         (c\<lparr>hc_write_buffer := hc_write_buffer c @ t, hc_flow := fc_consume sid (of_nat k) (hc_flow c)\<rparr>))"
    using assms(1) unfolding t unfolding assms(3) by (simp add: Let_def)
qed

lemma body_loops:
  assumes "0 < max_frame_size (hc_local_settings c)" "length data < rounds"
  shows "\<exists>c1 c2. body_loop rounds sid data e c = Some c1 \<and> data_loop rounds sid data e c = Some c2 \<and>
    (c1 = c2 \<or> int (length (hc_write_buffer c) + 10 * length data) > MAX_WRITE_BUFFER_SIZE \<and>
       hc_closed c1 \<and> same_sent c1 c2)"
  using assms
proof (induction rounds arbitrary: data c)
  case (Suc rounds)
  show ?case
  proof (cases "data = []")
    case False
    define k where "k = data_chunk sid (length data) c"
    define t where "t = encode_data_frame \<lparr>df_stream_id = sid, df_data = take k data, df_pad_length = 0,
      df_end_stream = (length data \<le> k \<and> e)\<rparr>"
    define d where "d = c\<lparr>hc_flow := fc_consume sid (of_nat k) (hc_flow c)\<rparr>"
    note step = body_step [OF False Suc.prems(1) k_def t_def d_def]
    have k: "1 \<le> k" "k \<le> length data" using chunk_bounds [OF Suc.prems(1)] False by (simp_all add: k_def)
    then have rest: "length (drop k data) < rounds" using Suc.prems(2) by auto
    have wb: "hc_write_buffer d = hc_write_buffer c" by (simp add: d_def)
    show ?thesis
    proof (cases "int (length (hc_write_buffer c) + (9 + k)) > MAX_WRITE_BUFFER_SIZE")
      case True
      let ?c1 = "close_connection Enhance_your_calm c"
      have "t \<noteq> []" using step(1) by auto
      then have w: "write_frame t d = ?c1\<lparr>hc_flow := hc_flow d\<rparr>"
        using True step(1) wb by (simp add: write_frame_def) (simp add: d_def close_flow)
      have l: "hc_local_settings (write_frame t d) = hc_local_settings c" by (simp add: w)
      from data_loop_closed [of "write_frame t d", OF _ _ rest] Suc.prems(1) l
      obtain c2 where "data_loop rounds sid (drop k data) e (write_frame t d) = Some c2" "same_sent (write_frame t d) c2"
        by (auto simp: w)
      then show ?thesis using True step(2,3) k same_sent_trans [OF same_sent_upd(2)] by (simp add: w)
    next
      case False
      let ?d = "d\<lparr>hc_write_buffer := hc_write_buffer d @ t\<rparr>"
      have w: "write_frame t d = ?d" by (rule write_room) (use False step(1) wb in simp)
      have eq: "c\<lparr>hc_write_buffer := hc_write_buffer c @ t, hc_flow := fc_consume sid (of_nat k) (hc_flow c)\<rparr> = ?d"
        by (cases c) (simp add: d_def)
      have "0 < max_frame_size (hc_local_settings ?d)" using Suc.prems(1) by (simp add: d_def)
      from Suc.IH [OF this rest] obtain c1 c2 where
        "body_loop rounds sid (drop k data) e ?d = Some c1" "data_loop rounds sid (drop k data) e ?d = Some c2"
        "c1 = c2 \<or> int (length (hc_write_buffer ?d) + 10 * length (drop k data)) > MAX_WRITE_BUFFER_SIZE \<and>
          hc_closed c1 \<and> same_sent c1 c2" by blast
      moreover have "length (hc_write_buffer ?d) + 10 * length (drop k data) \<le> length (hc_write_buffer c) + 10 * length data"
        using step(1) wb k by simp
      ultimately show ?thesis using False step(2,3) unfolding w eq by auto
    qed
  qed simp
qed simp

text \<open>C27 (write_body_frames_equiv): writing the DATA frames straight into the buffer and building and
  writing each frame both end, and with room in the buffer for ten times the body they leave the same
  connection, whatever the windows. Without the room they can differ only after both have closed the
  connection: then the bytes sent, the close code and everything else agree, and what differs is the
  windows and the unsent bytes, since one stops at once and the other goes through the rest of the
  body.\<close>

theorem write_body_frames_equiv:
  assumes "0 < max_frame_size (hc_local_settings c)"
  shows "\<exists>c1 c2. write_body_frames sid data e c = Some c1 \<and> data_loop (length data + 1) sid data e c = Some c2 \<and>
    (length (hc_write_buffer c) + 10 * length data \<le> 4194304 \<longrightarrow> c1 = c2) \<and>
    (c1 = c2 \<or> hc_closed c1 \<and> c1\<lparr>hc_flow := hc_flow c2, hc_write_buffer := hc_write_buffer c2\<rparr> = c2)"
  using body_loops [OF assms, of data "length data + 1" sid e]
  by (auto simp: write_body_frames_def MAX_WRITE_BUFFER_SIZE_def same_sent_def)

theorem write_body_frames_equiv_witness:
  "let c = http2_connection_new False True
   in write_body_frames 1 [7, 8, 9] True c = data_loop (length [7, 8, 9 :: byte] + 1) 1 [7, 8, 9] True c"
proof -
  let ?c = "http2_connection_new False True"
  have "0 < max_frame_size (hc_local_settings ?c)" "length (hc_write_buffer ?c) + 10 * length [7, 8, 9 :: byte] \<le> 4194304"
    by (simp_all add: http2_connection_new_def max_frame_size_def http2_settings_new_def settings_set_def settings_get_def)
  with write_body_frames_equiv [of ?c 1 "[7, 8, 9]" True] show ?thesis unfolding Let_def by metis
qed

subsection \<open>Whole responses\<close>

text \<open>Everything the connection has written, sent or not.\<close>

definition written :: "http2_connection \<Rightarrow> byte list" where
  "written c = hc_sent c @ hc_write_buffer c"

lemma written_flush [simp]: "written (flush_writes c) = written c" "written (flush_writes_over n c) = written c"
  by (simp_all add: written_def flush_writes_def flush_writes_over_def)

lemma written_end [simp]:
  "written (end_sending i c) = written c" "hc_encoder (end_sending i c) = hc_encoder c"
  "hc_flow (end_sending i c) = hc_flow c"
  by (simp_all add: written_def end_sending_def erase_if_closed_def update_stream_def split: option.split)

lemma flush_keeps [simp]:
  "hc_encoder (flush_writes c) = hc_encoder c" "hc_flow (flush_writes c) = hc_flow c"
  "hc_encoder (flush_writes_over n c) = hc_encoder c" "hc_flow (flush_writes_over n c) = hc_flow c"
  by (simp_all add: flush_writes_def flush_writes_over_def)

lemma body_frames_append_length:
  "0 < n \<Longrightarrow> length (frames_bytes (body_frames sid e (pieces n data))) \<le> 10 * length data"
  using body_frames_length [of "pieces n data" sid e] concat_pieces [of n data]
  by (auto dest: length_pieces)

text \<open>C21 (response_delivered): let the response end the stream, its header fields be small and the
  client's decoder be in step; let both windows cover the body, and the write buffer have room for ten
  times the header block and body (the frame headers included, of 4 MB). Then \<open>send_response\<close> writes
  one HEADERS frame, its CONTINUATION frames and the DATA frames of the body, none longer than the
  maximum, only the last header frame with END\_HEADERS and only the last frame of a body with
  END\_STREAM; the fragments are a header block that the client decodes to the headers of the
  response, the pieces are the body, and exactly the length of the body is taken from the
  connection's window. Without the credit the code sends all the same (see \<open>send_overruns_window\<close>).
  A response without a body whose header block is cut carries no END\_STREAM at all.\<close>

theorem response_delivered:
  assumes "in_step (hc_encoder c) td" "\<forall>f \<in> set headers. field_small f"
    "n = unat (max_frame_size (hc_local_settings c))" "0 < n"
    "length (hc_write_buffer c) + 10 * (length (snd (hpack_encode headers (hc_encoder c))) + length body) + 9 \<le> 4194304"
    "length body \<le> credit sid c"
  shows "\<exists>c' p ps ds td'. send_response sid headers body True c = Some c' \<and>
    written c' = written c @ frames_bytes
      (header_frame sid p (ps = [] \<and> body = []) (ps = []) # continuation_frames sid ps @ body_frames sid True ds) \<and>
    (\<forall>q \<in> set (p # ps @ ds). length q \<le> n) \<and> concat ds = body \<and> (body \<noteq> [] \<longrightarrow> ds \<noteq> []) \<and>
    hpack_decode (p @ concat ps) td = Some (td', headers) \<and> in_step (hc_encoder c') td' \<and>
    unat (connection_window (hc_flow c')) = unat (connection_window (hc_flow c)) - length body"
proof -
  obtain enc block where e: "hpack_encode headers (hc_encoder c) = (enc, block)" by (cases "hpack_encode headers (hc_encoder c)")
  let ?c0 = "c\<lparr>hc_encoder := enc\<rparr>"
  have len: "length (hc_write_buffer c) + 10 * (length block + length body) + 9 \<le> 4194304" using assms(5) e by simp
  then have "length block < 2 ^ 63" by simp
  from hpack_block_ok [OF assms(1,2) e this] obtain td' where
    td: "hpack_decode block td = Some (td', headers)" "in_step enc td'" by blast
  obtain p ps where p: "block_pieces n block = p # ps" "p @ concat ps = block" "\<forall>q \<in> set (p # ps). length q \<le> n"
    using block_pieces_ok [OF assms(4), of block] by blast
  let ?hb = "frames_bytes (block_frames sid True (body = []) (p # ps))"
  let ?c1 = "?c0\<lparr>hc_write_buffer := hc_write_buffer c @ ?hb\<rparr>"
  have "0 < max_frame_size (hc_local_settings ?c0)" using assms(3,4) by (simp add: word_less_nat_alt)
  from write_header_block_ok [OF this, of block sid "body = []"] len p(1) assms(3)
  have w: "write_header_block sid block (body = []) ?c0 = Some ?c1" by simp
  have "length ?hb \<le> 10 * length block + 9"
  proof (cases "length block > n")
    case True
    then have "p # ps = pieces n block" using p(1) by (simp add: block_pieces_def)
    then have "\<forall>q \<in> set (p # ps). q \<noteq> []" using length_pieces [of _ n block] by metis
    from block_frames_length [OF this, of sid True "body = []"] p(2) show ?thesis
      by (simp del: block_frames.simps)
  next
    case False
    then have "p = block" "ps = []" using p(1) by (simp_all add: block_pieces_def)
    then show ?thesis by (simp add: header_frame_length)
  qed
  then have room: "int (length (hc_write_buffer ?c1) + length (frames_bytes (body_frames sid True (pieces n body)))) \<le> MAX_WRITE_BUFFER_SIZE"
    using len body_frames_append_length [OF assms(4), of sid True body] by (simp add: MAX_WRITE_BUFFER_SIZE_def)
  have "length body \<le> credit sid ?c1" using assms(6) by (simp add: credit_def)
  from data_loop_ok [of n ?c1 body "length body + 1", OF _ assms(4) _ this room] assms(3)
  obtain fc where d: "data_loop (length body + 1) sid body True ?c1 = Some (?c1\<lparr>hc_flow := fc,
      hc_write_buffer := hc_write_buffer ?c1 @ frames_bytes (body_frames sid True (pieces n body))\<rparr>)"
    "unat (connection_window fc) = unat (connection_window (hc_flow c)) - length body" by auto
  define c2 where "c2 = end_sending sid (?c1\<lparr>hc_flow := fc,
      hc_write_buffer := hc_write_buffer ?c1 @ frames_bytes (body_frames sid True (pieces n body))\<rparr>)"
  have "send_response sid headers body True c =
      (if hc_write_batch_depth c2 = 0 \<or> length body \<ge> 16 * 1024 \<or> \<not> max_concurrent_streams (hc_remote_settings c2) > 1
       then Some (flush_writes c2) else Some (flush_writes_over (1024 * 1024) c2))"
    using e w d(1) unfolding c2_def by (simp add: send_response_def Let_def del: data_loop.simps block_frames.simps)
  then obtain c' where c': "send_response sid headers body True c = Some c'"
    "c' = flush_writes c2 \<or> c' = flush_writes_over (1024 * 1024) c2" by (metis (full_types))
  have "written c' = written c2" "hc_encoder c' = enc" "hc_flow c' = fc" using c'(2) by (auto simp: c2_def)
  moreover have "written c2 = written c @ frames_bytes (header_frame sid p (ps = [] \<and> body = []) (ps = []) #
      continuation_frames sid ps @ body_frames sid True (pieces n body))"
    unfolding c2_def written_end by (simp add: written_def block_frames_rest)
  ultimately show ?thesis using c'(1) td p d(2) concat_pieces [OF assms(4), of body] pieces_eq_Nil [OF assms(4), of body]
    length_pieces [of _ n body]
    by (intro exI [of _ c'] exI [of _ p] exI [of _ ps] exI [of _ "pieces n body"] exI [of _ td']) auto
qed

theorem response_delivered_witness:
  "\<exists>c' p ps ds td'. send_response 1 [('':status'', ''200'')] [7, 8] True (http2_connection_new False True) = Some c' \<and>
    written c' = frames_bytes (header_frame 1 p False (ps = []) # continuation_frames 1 ps @ body_frames 1 True ds) \<and>
    concat ds = [7, 8] \<and> hpack_decode (p @ concat ps) (hpack_new 4096) = Some (td', [('':status'', ''200'')])"
proof -
  let ?c = "http2_connection_new False True"
  have c: "hc_encoder ?c = hpack_new 4096" "written ?c = []" "hc_write_buffer ?c = []"
    "unat (max_frame_size (hc_local_settings ?c)) = 16384" "credit 1 ?c = 65535"
    by (simp_all add: http2_connection_new_def header_table_size_def settings_get_def http2_settings_new_def
        settings_set_def max_frame_size_def written_def credit_def flow_control_new_def fc_window_def
        initial_window_size_def HTTP2_DEFAULT_INITIAL_WINDOW_SIZE_def)
  have step: "in_step (hc_encoder ?c) (hpack_new 4096)" unfolding c by (rule in_step_new) simp_all
  have small: "\<forall>f \<in> set [('':status'', ''200'')]. field_small f" by (simp add: field_small_def)
  have "snd (hpack_encode [('':status'', ''200'')] (hpack_new 4096)) = [0x88]" by code_simp
  then have l: "length (hc_write_buffer ?c) + 10 * (length (snd (hpack_encode [('':status'', ''200'')] (hc_encoder ?c))) +
      length [7, 8 :: byte]) + 9 \<le> 4194304" by (simp add: c)
  have cr: "length [7, 8 :: byte] \<le> credit 1 ?c" by (simp add: c)
  from response_delivered [OF step small refl _ l cr] show ?thesis by (simp add: c) blast
qed

text \<open>Fact (send_overruns_window): when the connection's window is used up the code still sends a byte,
  and the subtraction wraps: the window then counts 4 GB, so flow control is off for the rest of
  the connection. Received DATA is taken from the same windows, so a peer's upload uses them up.\<close>

theorem send_overruns_window:
  assumes "connection_window (hc_flow c) = 0" "0 < max_frame_size (hc_local_settings c)"
  shows "\<exists>c'. send_data sid [b] fin c = Some c' \<and> connection_window (hc_flow c') = 0xFFFFFFFF \<and>
    connection_window (hc_flow (consume_window_of sid 1 c)) = 0xFFFFFFFF"
proof -
  have k: "data_chunk sid (Suc 0) c = 1"
    using assms by (simp add: data_chunk_def Let_def min_def word_gt_0 unat_gt_0 Suc_le_eq word_le_nat_alt unat_eq_0)
  have w: "connection_window (fc_consume sid 1 (hc_flow c)) = 0xFFFFFFFF"
    using assms(1) by (simp add: fc_consume_def Let_def split: option.split)
  have f: "hc_flow (send_window_update i m c) = hc_flow c" for i m c by (simp add: send_window_update_def Let_def)
  have "hc_flow (consume_window_of sid 1 c) = fc_consume sid 1 (hc_flow c)"
    by (simp add: consume_window_of_def Let_def f)
  then show ?thesis using k w by (simp add: send_data_def Let_def)
qed

theorem send_overruns_window_witness:
  "\<exists>c'. send_data 1 [7] True ((http2_connection_new False True)\<lparr>hc_flow := flow_control_new 0\<rparr>) = Some c' \<and>
    connection_window (hc_flow c') = 0xFFFFFFFF"
proof -
  let ?c = "(http2_connection_new False True)\<lparr>hc_flow := flow_control_new 0\<rparr>"
  have "connection_window (hc_flow ?c) = 0" "0 < max_frame_size (hc_local_settings ?c)"
    by (simp_all add: http2_connection_new_def flow_control_new_def max_frame_size_def http2_settings_new_def
        settings_set_def settings_get_def)
  from send_overruns_window [OF this, of 1 7 True] show ?thesis by blast
qed

end
