(* ===== verification/HttpConstants.thy ===== *)
theory HttpConstants
  imports Strings
begin

section \<open>HTTP constants\<close>

text \<open>
  \<open>src/network/http/http_constants.cpp\<close> and its header: status codes with their messages, content
  types, methods, cookie names and header names. A value of the enumeration \<open>http_status\<close> may be any
  16-bit number, because \<open>http_error_category::message\<close> casts one; the named values are a datatype.
\<close>

subsection \<open>Status codes\<close>

datatype http_status =
  S_none | S_continue | S_switching_protocols | S_ok | S_created | S_accepted | S_no_content |
  S_partial_content | S_moved_permanent | S_found | S_see_other | S_not_modified |
  S_temporary_redirect | S_permanent_redirect | S_bad_request | S_unauthorized | S_forbidden |
  S_not_found | S_method_not_allowed | S_not_acceptable | S_proxy_auth_required |
  S_request_timeout | S_conflict | S_gone | S_length_required | S_precondition_failed |
  S_unsupported_media_type | S_range_not_satisfiable | S_expectation_failed |
  S_unprocessable_content | S_upgrade_required | S_payload_too_large | S_uri_too_long |
  S_too_many_requests | S_header_fields_too_large | S_unavailable_for_legal_reasons |
  S_internal_server_error | S_bad_gateway | S_service_unavailable | S_gateway_timeout |
  S_not_implemented | S_http_version_not_supported

fun status_code :: "http_status \<Rightarrow> u16" where
  "status_code S_none = 0"
| "status_code S_continue = 100"
| "status_code S_switching_protocols = 101"
| "status_code S_ok = 200"
| "status_code S_created = 201"
| "status_code S_accepted = 202"
| "status_code S_no_content = 204"
| "status_code S_partial_content = 206"
| "status_code S_moved_permanent = 301"
| "status_code S_found = 302"
| "status_code S_see_other = 303"
| "status_code S_not_modified = 304"
| "status_code S_temporary_redirect = 307"
| "status_code S_permanent_redirect = 308"
| "status_code S_bad_request = 400"
| "status_code S_unauthorized = 401"
| "status_code S_forbidden = 403"
| "status_code S_not_found = 404"
| "status_code S_method_not_allowed = 405"
| "status_code S_not_acceptable = 406"
| "status_code S_proxy_auth_required = 407"
| "status_code S_request_timeout = 408"
| "status_code S_conflict = 409"
| "status_code S_gone = 410"
| "status_code S_length_required = 411"
| "status_code S_precondition_failed = 412"
| "status_code S_unsupported_media_type = 415"
| "status_code S_range_not_satisfiable = 416"
| "status_code S_expectation_failed = 417"
| "status_code S_unprocessable_content = 422"
| "status_code S_upgrade_required = 426"
| "status_code S_payload_too_large = 413"
| "status_code S_uri_too_long = 414"
| "status_code S_too_many_requests = 429"
| "status_code S_header_fields_too_large = 431"
| "status_code S_unavailable_for_legal_reasons = 451"
| "status_code S_internal_server_error = 500"
| "status_code S_bad_gateway = 502"
| "status_code S_service_unavailable = 503"
| "status_code S_gateway_timeout = 504"
| "status_code S_not_implemented = 501"
| "status_code S_http_version_not_supported = 505"

text \<open>The cases of \<open>http_status_message\<close>, and the value it is called with as a number.\<close>

definition status_messages :: "(http_status \<times> string) list" where
  "status_messages = [
     (S_continue, ''Continue''), (S_switching_protocols, ''Switching Protocols''),
     (S_ok, ''OK''), (S_created, ''Created''), (S_accepted, ''Accepted''),
     (S_no_content, ''No Content''), (S_partial_content, ''Partial Content''),
     (S_moved_permanent, ''Moved Permanently''), (S_found, ''Found''),
     (S_see_other, ''See Other''), (S_not_modified, ''Not Modified''),
     (S_temporary_redirect, ''Temporary Redirect''),
     (S_permanent_redirect, ''Permanent Redirect''), (S_bad_request, ''Bad Request''),
     (S_unauthorized, ''Unauthorized''), (S_forbidden, ''Forbidden''),
     (S_not_found, ''Not Found''), (S_method_not_allowed, ''Method Not Allowed''),
     (S_not_acceptable, ''Not Acceptable''),
     (S_proxy_auth_required, ''Proxy Authentication Required''),
     (S_request_timeout, ''Request Timeout''), (S_conflict, ''Conflict''), (S_gone, ''Gone''),
     (S_length_required, ''Length Required''),
     (S_precondition_failed, ''Precondition Failed''),
     (S_payload_too_large, ''Payload Too Large''), (S_uri_too_long, ''URI Too Long''),
     (S_unsupported_media_type, ''Unsupported Media Type''),
     (S_range_not_satisfiable, ''Range Not Satisfiable''),
     (S_expectation_failed, ''Expectation Failed''),
     (S_unprocessable_content, ''Unprocessable Content''),
     (S_upgrade_required, ''Upgrade Required''), (S_too_many_requests, ''Too Many Requests''),
     (S_header_fields_too_large, ''Request Header Fields Too Large''),
     (S_unavailable_for_legal_reasons, ''Unavailable For Legal Reasons''),
     (S_internal_server_error, ''Internal Server Error''),
     (S_not_implemented, ''Not Implemented''), (S_bad_gateway, ''Bad Gateway''),
     (S_service_unavailable, ''Service Unavailable''),
     (S_gateway_timeout, ''Gateway Timeout''),
     (S_http_version_not_supported, ''HTTP Version Not Supported'')]"

definition http_status_message :: "u16 \<Rightarrow> string" where
  "http_status_message v =
     (case map_of (map (\<lambda>(s, m). (status_code s, m)) status_messages) v of
        Some m \<Rightarrow> m
      | None \<Rightarrow> ''Unknown'')"

text \<open>The cases of \<open>http_status_from_code\<close>.\<close>

definition status_cases :: "(u16 \<times> http_status) list" where
  "status_cases = [
     (100, S_continue), (101, S_switching_protocols), (200, S_ok), (201, S_created),
     (202, S_accepted), (204, S_no_content), (206, S_partial_content),
     (301, S_moved_permanent), (302, S_found), (303, S_see_other), (304, S_not_modified),
     (307, S_temporary_redirect), (308, S_permanent_redirect), (400, S_bad_request),
     (401, S_unauthorized), (403, S_forbidden), (404, S_not_found),
     (405, S_method_not_allowed), (406, S_not_acceptable), (407, S_proxy_auth_required),
     (408, S_request_timeout), (409, S_conflict), (410, S_gone), (411, S_length_required),
     (412, S_precondition_failed), (413, S_payload_too_large), (414, S_uri_too_long),
     (415, S_unsupported_media_type), (416, S_range_not_satisfiable),
     (417, S_expectation_failed), (422, S_unprocessable_content), (426, S_upgrade_required),
     (429, S_too_many_requests), (431, S_header_fields_too_large),
     (451, S_unavailable_for_legal_reasons), (500, S_internal_server_error),
     (501, S_not_implemented), (502, S_bad_gateway), (503, S_service_unavailable),
     (504, S_gateway_timeout), (505, S_http_version_not_supported)]"

definition http_status_from_code :: "u16 \<Rightarrow> http_status" where
  "http_status_from_code code =
     (case map_of status_cases code of
        Some s \<Rightarrow> s
      | None \<Rightarrow>
          (if code \<ge> 100 \<and> code < 200 then S_continue
           else if code \<ge> 200 \<and> code < 300 then S_ok
           else if code \<ge> 300 \<and> code < 400 then S_found
           else if code \<ge> 400 \<and> code < 500 then S_bad_request
           else if code \<ge> 500 \<and> code < 600 then S_internal_server_error
           else S_internal_server_error))"

text \<open>\<open>http_error_category::message\<close>: the \<open>int32_t\<close> is cut to 16 bits.\<close>

definition http_error_message :: "32 word \<Rightarrow> string" where
  "http_error_message ev = http_status_message (ucast ev)"

subsection \<open>Content types, methods, cookies and header names\<close>

datatype http_content =
  CT_HTML_TEXT | CT_XML_TEXT | CT_CSS_TEXT | CT_PLAIN_TEXT | CT_JSON_APP | CT_FORM_APP |
  CT_JPEG_IMG | CT_PNG_IMG | CT_BMP_IMG | CT_WEBP_IMG | CT_HTML_MSG

fun content :: "http_content \<Rightarrow> string" where
  "content CT_HTML_TEXT = ''text/html''"
| "content CT_XML_TEXT = ''text/xml''"
| "content CT_CSS_TEXT = ''text/css''"
| "content CT_PLAIN_TEXT = ''text/plain''"
| "content CT_JSON_APP = ''application/json''"
| "content CT_FORM_APP = ''application/x-www-form-urlencoded''"
| "content CT_JPEG_IMG = ''image/jpeg''"
| "content CT_PNG_IMG = ''image/png''"
| "content CT_BMP_IMG = ''image/bmp''"
| "content CT_WEBP_IMG = ''image/webp''"
| "content CT_HTML_MSG = ''message/http''"

datatype http_method =
  M_GET | M_POST | M_HEAD | M_PUT | M_DELETE | M_OPTIONS | M_TRACE | M_CONNECT | M_PATCH

fun method_name :: "http_method \<Rightarrow> string" where
  "method_name M_GET = ''GET''"
| "method_name M_POST = ''POST''"
| "method_name M_HEAD = ''HEAD''"
| "method_name M_PUT = ''PUT''"
| "method_name M_DELETE = ''DELETE''"
| "method_name M_OPTIONS = ''OPTIONS''"
| "method_name M_TRACE = ''TRACE''"
| "method_name M_CONNECT = ''CONNECT''"
| "method_name M_PATCH = ''PATCH''"

datatype http_cookie_name =
  CN_JSESSIONID | CN_SESSIONID | CN_PHPSESSID | CN_ASPSESSIONID

fun cookie_name :: "http_cookie_name \<Rightarrow> string" where
  "cookie_name CN_JSESSIONID = ''JSESSIONID''"
| "cookie_name CN_SESSIONID = ''SESSIONID''"
| "cookie_name CN_PHPSESSID = ''PHPSESSID''"
| "cookie_name CN_ASPSESSIONID = ''ASP.NET_SessionId''"

datatype http_key =
  K_Access_Control_Allow_Credentials | K_Access_Control_Allow_Headers |
  K_Access_Control_Allow_Methods | K_Access_Control_Allow_Origin | K_Access_Control_Max_Age |
  K_Connection | K_Content_Length | K_Content_Type | K_Lax | K_Strict | K_X_Forwarded_Proto |
  K_Strict_Transport_Security | K_X_Frame_Options | K_X_Content_Type_Options |
  K_Content_Security_Policy | K_X_XSS_Protection | K_Referrer_Policy | K_Permissions_Policy

fun key_name :: "http_key \<Rightarrow> string" where
  "key_name K_Access_Control_Allow_Credentials = ''Access-Control-Allow-Credentials''"
| "key_name K_Access_Control_Allow_Headers = ''Access-Control-Allow-Headers''"
| "key_name K_Access_Control_Allow_Methods = ''Access-Control-Allow-Methods''"
| "key_name K_Access_Control_Allow_Origin = ''Access-Control-Allow-Origin''"
| "key_name K_Access_Control_Max_Age = ''Access-Control-Max-Age''"
| "key_name K_Connection = ''Connection''"
| "key_name K_Content_Length = ''Content-Length''"
| "key_name K_Content_Type = ''Content-Type''"
| "key_name K_Lax = ''Lax''"
| "key_name K_Strict = ''Strict''"
| "key_name K_X_Forwarded_Proto = ''X-Forwarded-Proto''"
| "key_name K_Strict_Transport_Security = ''Strict-Transport-Security''"
| "key_name K_X_Frame_Options = ''X-Frame-Options''"
| "key_name K_X_Content_Type_Options = ''X-Content-Type-Options''"
| "key_name K_Content_Security_Policy = ''Content-Security-Policy''"
| "key_name K_X_XSS_Protection = ''X-XSS-Protection''"
| "key_name K_Referrer_Policy = ''Referrer-Policy''"
| "key_name K_Permissions_Policy = ''Permissions-Policy''"

definition content_with_charset :: "http_content \<Rightarrow> string \<Rightarrow> string" where
  "content_with_charset c charset = content c @ ''; charset='' @ charset"

text \<open>\<open>operator&\<close> joins the names of methods, and \<open>DEFAULT\<close> is such a list.\<close>

definition method_and :: "string \<Rightarrow> string \<Rightarrow> string" where
  "method_and lhs rhs = lhs @ '', '' @ rhs"

definition method_default :: string where
  "method_default = method_and (method_and (method_and (method_and (method_name M_GET) (method_name M_POST))
     (method_name M_DELETE)) (method_name M_PUT)) (method_name M_OPTIONS)"

definition is_method :: "http_method \<Rightarrow> string \<Rightarrow> bool" where
  "is_method m method \<longleftrightarrow> method = method_name m"

definition is_content :: "http_content \<Rightarrow> string \<Rightarrow> bool" where
  "is_content c view \<longleftrightarrow> view = content c"

subsection \<open>Codes and statuses\<close>

lemma status_cases_code: "list_all (\<lambda>(code, s). status_code s = code) status_cases"
  by (simp add: status_cases_def)

lemma status_all_cases: "s \<noteq> S_none \<Longrightarrow> (status_code s, s) \<in> set status_cases"
  by (cases s) (simp_all add: status_cases_def)

lemma status_cases_distinct: "distinct (map fst status_cases)"
  by (simp add: status_cases_def)

text \<open>The status RFC 9110 gives an unknown code: the first of its class (for a redirect, 302).\<close>

definition general_status :: "nat \<Rightarrow> http_status" where
  "general_status code =
     (if code div 100 = 1 then S_continue else if code div 100 = 2 then S_ok
      else if code div 100 = 3 then S_found else if code div 100 = 4 then S_bad_request
      else S_internal_server_error)"

lemma known_status: "s \<noteq> S_none \<Longrightarrow> map_of status_cases (status_code s) = Some s"
  using status_all_cases status_cases_distinct by simp

lemma status_case_code: "map_of status_cases code = Some s \<Longrightarrow> status_code s = code \<and> s \<noteq> S_none"
  using map_of_SomeD [of status_cases code s] status_cases_code
  by (auto simp: list_all_iff) (simp add: status_cases_def)

lemma unknown_status:
  assumes "map_of status_cases code = None"
  shows "http_status_from_code code = general_status (unat code)"
proof -
  have d: "(unat code div 100 = k) = (100 * k \<le> unat code \<and> unat code < 100 * Suc k)" for k
    by (auto simp: div_nat_eqI mult.commute dividend_less_times_div intro: div_nat_eqI)
  show ?thesis by (auto simp: http_status_from_code_def general_status_def assms d
      word_le_nat_alt word_less_nat_alt)
qed

text \<open>C28 (status_from_code_total): every status is recovered from its code; every other code gives
  the general status of its class: continue for 1xx, ok for 2xx, found for 3xx, bad request for 4xx,
  and an internal server error for 5xx and for every number outside 100 to 599. The class of the
  answer is the class of the code.\<close>

theorem status_from_code_total:
  "(s \<noteq> S_none \<longrightarrow> http_status_from_code (status_code s) = s) \<and>
   (code \<notin> status_code ` (UNIV - {S_none}) \<longrightarrow>
      http_status_from_code code = general_status (unat code)) \<and>
   (100 \<le> unat code \<and> unat code < 600 \<longrightarrow>
      unat (status_code (http_status_from_code code)) div 100 = unat code div 100)"
proof (intro conjI impI)
  show "http_status_from_code (status_code s) = s" if "s \<noteq> S_none"
    using known_status [OF that] by (simp add: http_status_from_code_def)
  show "http_status_from_code code = general_status (unat code)"
    if "code \<notin> status_code ` (UNIV - {S_none})"
    using that status_case_code [of code] by (intro unknown_status) (cases "map_of status_cases code", auto)
  show "unat (status_code (http_status_from_code code)) div 100 = unat code div 100"
    if c: "100 \<le> unat code \<and> unat code < 600"
  proof (cases "map_of status_cases code")
    case None
    have "unat code div 100 \<in> {1, 2, 3, 4, 5}" using c by (simp add: div_le_mono less_mult_imp_div_less) arith
    then show ?thesis using unknown_status [OF None] by (auto simp: general_status_def)
  next
    case (Some t)
    then show ?thesis using status_case_code [OF Some] by (simp add: http_status_from_code_def)
  qed
qed

theorem status_from_code_total_witness:
  "http_status_from_code 418 = S_bad_request \<and> http_status_from_code 299 = S_ok \<and>
   http_status_from_code (status_code S_gone) = S_gone \<and>
   unat (status_code (http_status_from_code 599)) div 100 = 5"
proof -
  have u: "code \<notin> status_code ` (UNIV - {S_none})" if "code \<in> {418, 299}" for code
  proof (safe)
    fix t assume "code = status_code t"
    then show "t = S_none" using that by (cases t) simp_all
  qed
  show ?thesis
    using status_from_code_total [of S_gone 418] status_from_code_total [of S_gone 299] u
      status_from_code_total [of S_gone 599]
    by (simp add: general_status_def)
qed

end
