(* ===== verification/ChaCha.thy ===== *)
theory ChaCha
  imports ByteCursor
begin

unbundle bit_operations_syntax

text \<open>
The stream cipher of \<open>src/core/encrypt/chacha20_poly1305.cpp\<close>: quarter rounds, the block
function in its portable form and in the SSE2 form, and \<open>chacha20_encrypt\<close>.  An array of words is a
list that is updated by index; an output buffer is passed and returned.
\<close>

section \<open>The block function\<close>

definition CHACHA_CONST :: "byte list" where
  "CHACHA_CONST = [0x65, 0x78, 0x70, 0x61, 0x6e, 0x64, 0x20, 0x33,
                   0x32, 0x2d, 0x62, 0x79, 0x74, 0x65, 0x20, 0x6b]"

definition rotl :: "u32 \<Rightarrow> nat \<Rightarrow> u32" where
  "rotl v n = push_bit n v OR drop_bit (32 - n) v"

text \<open>The two statements a quarter round consists of.\<close>

definition add_word :: "nat \<Rightarrow> nat \<Rightarrow> u32 list \<Rightarrow> u32 list" where
  "add_word i j state = state[i := state ! i + state ! j]"

definition xor_rotl :: "nat \<Rightarrow> nat \<Rightarrow> nat \<Rightarrow> u32 list \<Rightarrow> u32 list" where
  "xor_rotl i j n state =
    (let state = state[i := state ! i XOR state ! j] in state[i := rotl (state ! i) n])"

definition chacha20_quarter_round :: "nat \<Rightarrow> nat \<Rightarrow> nat \<Rightarrow> nat \<Rightarrow> u32 list \<Rightarrow> u32 list" where
  "chacha20_quarter_round a b c d state =
    (let state = add_word a b state;
         state = xor_rotl d a 16 state;
         state = add_word c d state;
         state = xor_rotl b c 12 state;
         state = add_word a b state;
         state = xor_rotl d a 8 state;
         state = add_word c d state
     in xor_rotl b c 7 state)"

definition double_round :: "u32 list \<Rightarrow> u32 list" where
  "double_round working =
    (let working = chacha20_quarter_round 0 4 8 12 working;
         working = chacha20_quarter_round 1 5 9 13 working;
         working = chacha20_quarter_round 2 6 10 14 working;
         working = chacha20_quarter_round 3 7 11 15 working;
         working = chacha20_quarter_round 0 5 10 15 working;
         working = chacha20_quarter_round 1 6 11 12 working;
         working = chacha20_quarter_round 2 7 8 13 working
     in chacha20_quarter_round 3 4 9 14 working)"

definition initial_state :: "byte list \<Rightarrow> u32 \<Rightarrow> byte list \<Rightarrow> u32 list" where
  "initial_state key counter nonce =
    [read_le32 (drop 0 CHACHA_CONST), read_le32 (drop 4 CHACHA_CONST),
     read_le32 (drop 8 CHACHA_CONST), read_le32 (drop 12 CHACHA_CONST)] @
    map (\<lambda>i. read_le32 (drop (i * 4) key)) [0..<8] @ [counter] @
    map (\<lambda>i. read_le32 (drop (i * 4) nonce)) [0..<3]"

text \<open>A write of a word into the middle of a buffer.\<close>

definition put_le32 :: "byte list \<Rightarrow> nat \<Rightarrow> u32 \<Rightarrow> byte list" where
  "put_le32 buf at v = take at buf @ write_le32 (drop at buf) v"

definition chacha20_block :: "byte list \<Rightarrow> u32 \<Rightarrow> byte list \<Rightarrow> byte list \<Rightarrow> byte list" where
  "chacha20_block key counter nonce buf =
    (let state = initial_state key counter nonce;
         working = (double_round ^^ 10) state;
         (working, buf) = foldl (\<lambda>(working, buf) i.
             (let working = working[i := working ! i + state ! i]
              in (working, put_le32 buf (i * 4) (working ! i)))) (working, buf) [0..<16]
     in buf)"

section \<open>The stream\<close>

function encrypt_loop ::
    "byte list \<Rightarrow> byte list \<Rightarrow> byte list \<Rightarrow> nat \<Rightarrow> nat \<Rightarrow> u32 \<Rightarrow> byte list \<Rightarrow> byte list \<Rightarrow> byte list" where
  "encrypt_loop key nonce data len offset blk_ctr keystream out =
    (if offset < len then
       (let keystream = chacha20_block key blk_ctr nonce keystream;
            chunk = (if len - offset > 64 then 64 else len - offset);
            out = out @ map (\<lambda>j. data ! (offset + j) XOR keystream ! j) [0..<chunk]
        in encrypt_loop key nonce data len (offset + 64) (blk_ctr + 1) keystream out)
     else out)"
  by pat_completeness auto
termination by (relation "measure (\<lambda>(key, nonce, data, len, offset, r). len - offset)") auto

declare encrypt_loop.simps [simp del]

definition chacha20_encrypt :: "byte list \<Rightarrow> u32 \<Rightarrow> byte list \<Rightarrow> byte list \<Rightarrow> nat \<Rightarrow> byte list" where
  "chacha20_encrypt key counter nonce data len =
    encrypt_loop key nonce data len 0 counter (replicate 64 0) []"

section \<open>Facts about the block\<close>

lemma length_steps [simp]: "length (add_word i j st) = length st" "length (xor_rotl i j n st) = length st"
  by (simp_all add: add_word_def xor_rotl_def Let_def)

lemma length_quarter [simp]: "length (chacha20_quarter_round a b c d st) = length st"
  by (simp add: chacha20_quarter_round_def Let_def)

lemma length_double [simp]: "length (double_round st) = length st"
  by (simp add: double_round_def Let_def)

lemma length_rounds [simp]: "length ((double_round ^^ n) st) = length st"
  by (induction n) auto

lemma length_initial [simp]: "length (initial_state key counter nonce) = 16"
  by (simp add: initial_state_def)

text \<open>The test vector of the quarter round and the one of the block (RFC 8439, 2.1.1 and 2.3.2).\<close>

lemma quarter_round_vector:
  "chacha20_quarter_round 0 1 2 3 [0x11111111, 0x01020304, 0x9b8d6f43, 0x01234567] =
    [0xea2a92f4, 0xcb1cf8ce, 0x4581472e, 0x5881c4bb]"
  by code_simp

section \<open>The block as a list of bytes\<close>

definition le32_bytes :: "u32 \<Rightarrow> byte list" where
  "le32_bytes v = map (\<lambda>i. ucast (drop_bit (i * 8) v AND 0xFF)) [0..<4]"

definition block_words :: "byte list \<Rightarrow> u32 \<Rightarrow> byte list \<Rightarrow> u32 list" where
  "block_words key counter nonce =
    (let state = initial_state key counter nonce
     in map (\<lambda>i. (double_round ^^ 10) state ! i + state ! i) [0..<16])"

definition block_bytes :: "byte list \<Rightarrow> u32 \<Rightarrow> byte list \<Rightarrow> byte list" where
  "block_bytes key counter nonce = concat (map le32_bytes (block_words key counter nonce))"

lemma length_le32_bytes [simp]: "length (le32_bytes v) = 4"
  by (simp add: le32_bytes_def)

lemma length_concat_words [simp]: "length (concat (map le32_bytes ws)) = 4 * length ws"
  by (induction ws) auto

lemma length_block_words [simp]: "length (block_words key counter nonce) = 16"
  by (simp add: block_words_def Let_def)

lemma length_block_bytes [simp]: "length (block_bytes key counter nonce) = 64"
  by (simp add: block_bytes_def)

lemma put_le32_eq:
  assumes "at + 4 \<le> length buf"
  shows "put_le32 buf at v = take at buf @ le32_bytes v @ drop (at + 4) buf"
proof -
  have "write_le32 d v = le32_bytes v @ drop 4 d" if "4 \<le> length d" for d
  proof -
    obtain a b c r where abc: "d = a # b # c # r"
      using list_of_3 [of d] \<open>4 \<le> length d\<close> by auto
    moreover obtain e r' where "r = e # r'" using abc \<open>4 \<le> length d\<close> by (cases r) auto
    ultimately have "d = a # b # c # e # r'" by simp
    then show ?thesis by (simp add: write_le32_def le32_bytes_def upt_rec)
  qed
  then show ?thesis using assms by (simp add: put_le32_def add.commute)
qed

lemma emit_words:
  assumes "length st = 16" "length w = 16" "length buf = 64" "k \<le> 16"
  shows "foldl (\<lambda>(working, buf) i.
        (let working = working[i := working ! i + st ! i]
         in (working, put_le32 buf (i * 4) (working ! i)))) (w, buf) [0..<k] =
    (map (\<lambda>i. w ! i + st ! i) [0..<k] @ drop k w,
     concat (map (\<lambda>i. le32_bytes (w ! i + st ! i)) [0..<k]) @ drop (4 * k) buf)"
  using assms(4)
proof (induction k)
  case (Suc k)
  let ?ws = "map (\<lambda>i. w ! i + st ! i) [0..<k]" and ?bs = "concat (map (\<lambda>i. le32_bytes (w ! i + st ! i)) [0..<k])"
  have l: "length ?bs = 4 * k" using length_concat_words [of ?ws] by (simp add: comp_def)
  have d: "drop k w = w ! k # drop (Suc k) w" using Suc.prems assms(2) by (simp add: Cons_nth_drop_Suc)
  have "put_le32 (?bs @ drop (4 * k) buf) (k * 4) v = ?bs @ le32_bytes v @ drop (4 * Suc k) buf" for v
    using Suc.prems assms(3) l by (subst put_le32_eq) (simp_all add: add.commute mult.commute)
  then show ?case
    using Suc d assms(2) by (simp add: nth_append list_update_append Let_def)
qed simp

lemma chacha20_block_eq:
  assumes "length buf = 64"
  shows "chacha20_block key counter nonce buf = block_bytes key counter nonce"
  using assms
  by (simp add: chacha20_block_def Let_def emit_words [unfolded Let_def] block_bytes_def block_words_def comp_def)

section \<open>The stream, byte by byte\<close>

definition keystream :: "byte list \<Rightarrow> u32 \<Rightarrow> byte list \<Rightarrow> nat \<Rightarrow> byte" where
  "keystream key counter nonce i = block_bytes key (counter + of_nat (i div 64)) nonce ! (i mod 64)"

lemma encrypt_loop_eq:
  assumes "length ks = 64" "offset mod 64 = 0" "ctr = counter + of_nat (offset div 64)"
  shows "encrypt_loop key nonce data len offset ctr ks out =
    out @ map (\<lambda>i. data ! i XOR keystream key counter nonce i) [offset..<len]"
  using assms
proof (induction key nonce data len offset ctr ks out rule: encrypt_loop.induct)
  case (1 key nonce data len offset ctr ks out)
  show ?case
  proof (cases "offset < len")
    case True
    let ?chunk = "if len - offset > 64 then 64 else len - offset"
    have b: "chacha20_block key ctr nonce ks = block_bytes key ctr nonce"
      by (rule chacha20_block_eq [OF "1.prems"(1)])
    have "map (\<lambda>j. data ! (offset + j) XOR block_bytes key ctr nonce ! j) [0..<?chunk] =
        map (\<lambda>i. data ! i XOR keystream key counter nonce i) [offset..<offset + ?chunk]"
    proof (rule nth_equalityI)
      fix j assume j: "j < length (map (\<lambda>j. data ! (offset + j) XOR block_bytes key ctr nonce ! j) [0..<?chunk])"
      then have "j < 64" by (simp split: if_splits)
      then have "(offset + j) div 64 = offset div 64" "(offset + j) mod 64 = j"
        using "1.prems"(2) by (auto simp: mod_eq_0_iff_dvd elim!: dvdE)
      then show "map (\<lambda>j. data ! (offset + j) XOR block_bytes key ctr nonce ! j) [0..<?chunk] ! j =
          map (\<lambda>i. data ! i XOR keystream key counter nonce i) [offset..<offset + ?chunk] ! j"
        using j "1.prems"(3) by (simp add: keystream_def)
    qed simp
    moreover have "[offset..<len] = [offset..<offset + ?chunk] @ [offset + 64..<len]"
      using True upt_add_eq_append [of offset "offset + ?chunk" "len - offset - ?chunk"] by auto
    moreover have "(offset + 64) mod 64 = 0" "ctr + 1 = counter + of_nat ((offset + 64) div 64)"
    proof -
      have "(offset + 64) div 64 = Suc (offset div 64)" by simp
      then show "(offset + 64) mod 64 = 0" "ctr + 1 = counter + of_nat ((offset + 64) div 64)"
        using "1.prems"(2,3) by (simp_all add: add_ac)
    qed
    ultimately show ?thesis
      using "1.IH" [OF True refl refl refl] True b by (subst encrypt_loop.simps) (simp add: Let_def)
  qed (subst encrypt_loop.simps, simp)
qed

lemma chacha20_encrypt_eq:
  "chacha20_encrypt key counter nonce data (length data) =
    map (\<lambda>i. data ! i XOR keystream key counter nonce i) [0..<length data]"
  by (simp add: chacha20_encrypt_def encrypt_loop_eq)

lemma length_chacha20_encrypt [simp]:
  "length (chacha20_encrypt key counter nonce data (length data)) = length data"
  by (simp add: chacha20_encrypt_eq)

lemma chacha20_twice:
  "chacha20_encrypt key counter nonce (chacha20_encrypt key counter nonce data (length data)) (length data) = data"
proof -
  define c where "c = chacha20_encrypt key counter nonce data (length data)"
  have c: "length c = length data" "i < length data \<Longrightarrow> c ! i = data ! i XOR keystream key counter nonce i" for i
    by (simp_all add: c_def chacha20_encrypt_eq)
  have "chacha20_encrypt key counter nonce c (length c) = data"
    unfolding chacha20_encrypt_eq by (rule nth_equalityI) (simp_all add: c xor.assoc)
  then show ?thesis using c(1) by (simp add: c_def)
qed

section \<open>The SSE2 form\<close>

text \<open>The intrinsics come with the compiler, so they are an argument, a record of functions on an
abstract vector type.\<close>

record 'v simd_ops =
  mm_add_epi32 :: "'v \<Rightarrow> 'v \<Rightarrow> 'v"
  mm_xor_si128 :: "'v \<Rightarrow> 'v \<Rightarrow> 'v"
  mm_or_si128 :: "'v \<Rightarrow> 'v \<Rightarrow> 'v"
  mm_slli_epi32 :: "'v \<Rightarrow> nat \<Rightarrow> 'v"
  mm_srli_epi32 :: "'v \<Rightarrow> nat \<Rightarrow> 'v"
  mm_set_epi32 :: "u32 \<Rightarrow> u32 \<Rightarrow> u32 \<Rightarrow> u32 \<Rightarrow> 'v"
  mm_shuffle_epi32 :: "'v \<Rightarrow> nat \<times> nat \<times> nat \<times> nat \<Rightarrow> 'v"
  mm_storeu_si128 :: "byte list \<Rightarrow> nat \<Rightarrow> 'v \<Rightarrow> byte list"

definition chacha20_rotl32 :: "'v simd_ops \<Rightarrow> 'v \<Rightarrow> nat \<Rightarrow> 'v" where
  "chacha20_rotl32 ops v bits =
    mm_or_si128 ops (mm_slli_epi32 ops v bits) (mm_srli_epi32 ops v (32 - bits))"

definition chacha20_quarter_round_simd :: "'v simd_ops \<Rightarrow> 'v \<times> 'v \<times> 'v \<times> 'v \<Rightarrow> 'v \<times> 'v \<times> 'v \<times> 'v" where
  "chacha20_quarter_round_simd ops = (\<lambda>(a, b, c, d).
    (let a = mm_add_epi32 ops a b;
         d = mm_xor_si128 ops d a;
         d = chacha20_rotl32 ops d 16;
         c = mm_add_epi32 ops c d;
         b = mm_xor_si128 ops b c;
         b = chacha20_rotl32 ops b 12;
         a = mm_add_epi32 ops a b;
         d = mm_xor_si128 ops d a;
         d = chacha20_rotl32 ops d 8;
         c = mm_add_epi32 ops c d;
         b = mm_xor_si128 ops b c;
         b = chacha20_rotl32 ops b 7
     in (a, b, c, d)))"

definition double_round_simd :: "'v simd_ops \<Rightarrow> 'v \<times> 'v \<times> 'v \<times> 'v \<Rightarrow> 'v \<times> 'v \<times> 'v \<times> 'v" where
  "double_round_simd ops w =
    (let (w0, w1, w2, w3) = chacha20_quarter_round_simd ops w;
         w1 = mm_shuffle_epi32 ops w1 (0, 3, 2, 1);
         w2 = mm_shuffle_epi32 ops w2 (1, 0, 3, 2);
         w3 = mm_shuffle_epi32 ops w3 (2, 1, 0, 3);
         (w0, w1, w2, w3) = chacha20_quarter_round_simd ops (w0, w1, w2, w3);
         w1 = mm_shuffle_epi32 ops w1 (2, 1, 0, 3);
         w2 = mm_shuffle_epi32 ops w2 (1, 0, 3, 2);
         w3 = mm_shuffle_epi32 ops w3 (0, 3, 2, 1)
     in (w0, w1, w2, w3))"

definition chacha20_block_simd :: "'v simd_ops \<Rightarrow> byte list \<Rightarrow> u32 \<Rightarrow> byte list \<Rightarrow> byte list \<Rightarrow> byte list" where
  "chacha20_block_simd ops key counter nonce buf =
    (let v0 = mm_set_epi32 ops (read_le32 (drop 12 CHACHA_CONST)) (read_le32 (drop 8 CHACHA_CONST))
                (read_le32 (drop 4 CHACHA_CONST)) (read_le32 (drop 0 CHACHA_CONST));
         v1 = mm_set_epi32 ops (read_le32 (drop 12 key)) (read_le32 (drop 8 key))
                (read_le32 (drop 4 key)) (read_le32 (drop 0 key));
         v2 = mm_set_epi32 ops (read_le32 (drop 28 key)) (read_le32 (drop 24 key))
                (read_le32 (drop 20 key)) (read_le32 (drop 16 key));
         v3 = mm_set_epi32 ops (read_le32 (drop 8 nonce)) (read_le32 (drop 4 nonce))
                (read_le32 (drop 0 nonce)) counter;
         (w0, w1, w2, w3) = (double_round_simd ops ^^ 10) (v0, v1, v2, v3);
         w0 = mm_add_epi32 ops w0 v0;
         w1 = mm_add_epi32 ops w1 v1;
         w2 = mm_add_epi32 ops w2 v2;
         w3 = mm_add_epi32 ops w3 v3;
         buf = mm_storeu_si128 ops buf 0 w0;
         buf = mm_storeu_si128 ops buf 16 w1;
         buf = mm_storeu_si128 ops buf 32 w2
     in mm_storeu_si128 ops buf 48 w3)"

text \<open>What the instruction set documents of them: a vector is four words, the arguments of
\<open>_mm_set_epi32\<close> and of \<open>_MM_SHUFFLE\<close> come highest first, and a store writes the words with their
low bytes first.\<close>

definition simd_laws :: "'v simd_ops \<Rightarrow> ('v \<Rightarrow> u32 list) \<Rightarrow> bool" where
  "simd_laws ops lanes \<longleftrightarrow>
    (\<forall>v. length (lanes v) = 4) \<and>
    (\<forall>v w. lanes (mm_add_epi32 ops v w) = map2 (+) (lanes v) (lanes w)) \<and>
    (\<forall>v w. lanes (mm_xor_si128 ops v w) = map2 (XOR) (lanes v) (lanes w)) \<and>
    (\<forall>v w. lanes (mm_or_si128 ops v w) = map2 (OR) (lanes v) (lanes w)) \<and>
    (\<forall>v n. lanes (mm_slli_epi32 ops v n) = map (push_bit n) (lanes v)) \<and>
    (\<forall>v n. lanes (mm_srli_epi32 ops v n) = map (drop_bit n) (lanes v)) \<and>
    (\<forall>a b c d. lanes (mm_set_epi32 ops d c b a) = [a, b, c, d]) \<and>
    (\<forall>v i j k l. lanes (mm_shuffle_epi32 ops v (l, k, j, i)) =
      [lanes v ! i, lanes v ! j, lanes v ! k, lanes v ! l]) \<and>
    (\<forall>buf at v. at + 16 \<le> length buf \<longrightarrow> mm_storeu_si128 ops buf at v =
      take at buf @ concat (map le32_bytes (lanes v)) @ drop (at + 16) buf)"

text \<open>A quarter round on four words.\<close>

definition quarter :: "u32 \<Rightarrow> u32 \<Rightarrow> u32 \<Rightarrow> u32 \<Rightarrow> u32 \<times> u32 \<times> u32 \<times> u32" where
  "quarter a b c d =
    (let a = a + b; d = rotl (d XOR a) 16; c = c + d; b = rotl (b XOR c) 12;
         a = a + b; d = rotl (d XOR a) 8; c = c + d; b = rotl (b XOR c) 7
     in (a, b, c, d))"

lemma quarter_round_words:
  assumes "quarter va vb vc vd = (x, y, z, w)" "st ! a = va" "st ! b = vb" "st ! c = vc" "st ! d = vd"
    "distinct [a, b, c, d]" "a < length st" "b < length st" "c < length st" "d < length st"
  shows "chacha20_quarter_round a b c d st = st[a := x, b := y, c := z, d := w]"
proof -
  define S where "S p q r t = st[a := p, b := q, c := r, d := t]" for p q r t
  have st: "st = S va vb vc vd" unfolding S_def using assms(2-5) by (metis list_update_id)
  have at: "S p q r t ! a = p" "S p q r t ! b = q" "S p q r t ! c = r" "S p q r t ! d = t"
    "length (S p q r t) = length st" for p q r t
    using assms(6-10) by (simp_all add: S_def)
  have upd: "(S p q r t)[a := v] = S v q r t" "(S p q r t)[b := v] = S p v r t"
    "(S p q r t)[c := v] = S p q v t" "(S p q r t)[d := v] = S p q r v" for p q r t v
    using assms(6) unfolding S_def
    by (simp_all add: list_update_swap [of d a] list_update_swap [of d b] list_update_swap [of d c]
        list_update_swap [of c a] list_update_swap [of c b] list_update_swap [of b a])
  have steps: "add_word a b (S p q r t) = S (p + q) q r t" "add_word c d (S p q r t) = S p q (r + t) t"
    "xor_rotl d a n (S p q r t) = S p q r (rotl (t XOR p) n)"
    "xor_rotl b c n (S p q r t) = S p (rotl (q XOR r) n) r t" for p q r t n
    by (simp_all add: add_word_def xor_rotl_def Let_def at upd)
  have "chacha20_quarter_round a b c d st = S x y z w"
    unfolding st chacha20_quarter_round_def Let_def steps
    using assms(1) unfolding quarter_def Let_def prod.inject by (elim conjE) (hypsubst, rule refl)
  then show ?thesis by (simp add: S_def)
qed

lemma quarter_round_lanes:
  assumes "simd_laws ops lanes" "lanes a = [a0, a1, a2, a3]" "lanes b = [b0, b1, b2, b3]"
    "lanes c = [c0, c1, c2, c3]" "lanes d = [d0, d1, d2, d3]"
    "quarter a0 b0 c0 d0 = (p0, q0, r0, s0)" "quarter a1 b1 c1 d1 = (p1, q1, r1, s1)"
    "quarter a2 b2 c2 d2 = (p2, q2, r2, s2)" "quarter a3 b3 c3 d3 = (p3, q3, r3, s3)"
    "chacha20_quarter_round_simd ops (a, b, c, d) = (a', b', c', d')"
  shows "lanes a' = [p0, p1, p2, p3]" "lanes b' = [q0, q1, q2, q3]" "lanes c' = [r0, r1, r2, r3]"
    "lanes d' = [s0, s1, s2, s3]"
proof -
  have ops: "lanes (mm_add_epi32 ops v w) = map2 (+) (lanes v) (lanes w)"
    "lanes (mm_xor_si128 ops v w) = map2 (XOR) (lanes v) (lanes w)" for v w
    using assms(1) by (simp_all add: simd_laws_def)
  have rot: "lanes (chacha20_rotl32 ops v n) = map (\<lambda>x. rotl x n) (lanes v)" for v n
  proof -
    have "map2 (OR) (map (push_bit n) l) (map (drop_bit (32 - n)) l) = map (\<lambda>x. rotl x n) l" for l :: "u32 list"
      by (induction l) (simp_all add: rotl_def)
    then show ?thesis using assms(1) by (simp add: simd_laws_def chacha20_rotl32_def)
  qed
  have "lanes a' = [p0, p1, p2, p3] \<and> lanes b' = [q0, q1, q2, q3] \<and> lanes c' = [r0, r1, r2, r3] \<and>
    lanes d' = [s0, s1, s2, s3]"
    using assms(6-10) unfolding chacha20_quarter_round_simd_def Let_def prod.case prod.inject quarter_def
    by (elim conjE) (hypsubst, simp add: ops rot assms(2-5))
  then show "lanes a' = [p0, p1, p2, p3]" "lanes b' = [q0, q1, q2, q3]" "lanes c' = [r0, r1, r2, r3]"
    "lanes d' = [s0, s1, s2, s3]" by simp_all
qed

definition rows :: "('v \<Rightarrow> u32 list) \<Rightarrow> 'v \<times> 'v \<times> 'v \<times> 'v \<Rightarrow> u32 list" where
  "rows lanes = (\<lambda>(a, b, c, d). lanes a @ lanes b @ lanes c @ lanes d)"

lemma double_round_lanes:
  assumes L: "simd_laws ops lanes"
  shows "rows lanes (double_round_simd ops w) = double_round (rows lanes w)"
proof -
  obtain a b c d where w: "w = (a, b, c, d)" by (cases w)
  have four: "\<exists>p q r s. lanes v = [p, q, r, s]" for v
  proof -
    have "length (lanes v) = Suc (Suc (Suc (Suc 0)))" using L by (simp add: simd_laws_def)
    then show ?thesis by (auto simp: length_Suc_conv)
  qed
  obtain a0 a1 a2 a3 where a: "lanes a = [a0, a1, a2, a3]" using four by blast
  obtain b0 b1 b2 b3 where b: "lanes b = [b0, b1, b2, b3]" using four by blast
  obtain c0 c1 c2 c3 where c: "lanes c = [c0, c1, c2, c3]" using four by blast
  obtain d0 d1 d2 d3 where d: "lanes d = [d0, d1, d2, d3]" using four by blast
  obtain p0 q0 r0 s0 where 0: "quarter a0 b0 c0 d0 = (p0, q0, r0, s0)" by (cases "quarter a0 b0 c0 d0")
  obtain p1 q1 r1 s1 where 1: "quarter a1 b1 c1 d1 = (p1, q1, r1, s1)" by (cases "quarter a1 b1 c1 d1")
  obtain p2 q2 r2 s2 where 2: "quarter a2 b2 c2 d2 = (p2, q2, r2, s2)" by (cases "quarter a2 b2 c2 d2")
  obtain p3 q3 r3 s3 where 3: "quarter a3 b3 c3 d3 = (p3, q3, r3, s3)" by (cases "quarter a3 b3 c3 d3")
  obtain t0 u0 v0 w0 where 4: "quarter p0 q1 r2 s3 = (t0, u0, v0, w0)" by (cases "quarter p0 q1 r2 s3")
  obtain t1 u1 v1 w1 where 5: "quarter p1 q2 r3 s0 = (t1, u1, v1, w1)" by (cases "quarter p1 q2 r3 s0")
  obtain t2 u2 v2 w2 where 6: "quarter p2 q3 r0 s1 = (t2, u2, v2, w2)" by (cases "quarter p2 q3 r0 s1")
  obtain t3 u3 v3 w3 where 7: "quarter p3 q0 r1 s2 = (t3, u3, v3, w3)" by (cases "quarter p3 q0 r1 s2")
  have "double_round (rows lanes w) = [t0, t1, t2, t3, u3, u0, u1, u2, v2, v3, v0, v1, w1, w2, w3, w0]"
  proof -
    have h0: "chacha20_quarter_round 0 4 8 12 [a0, a1, a2, a3, b0, b1, b2, b3, c0, c1, c2, c3, d0, d1, d2, d3] =
        [p0, a1, a2, a3, q0, b1, b2, b3, r0, c1, c2, c3, s0, d1, d2, d3]"
      using quarter_round_words [OF 0] by simp
    have h1: "chacha20_quarter_round 1 5 9 13 [p0, a1, a2, a3, q0, b1, b2, b3, r0, c1, c2, c3, s0, d1, d2, d3] =
        [p0, p1, a2, a3, q0, q1, b2, b3, r0, r1, c2, c3, s0, s1, d2, d3]"
      using quarter_round_words [OF 1] by simp
    have h2: "chacha20_quarter_round 2 6 10 14 [p0, p1, a2, a3, q0, q1, b2, b3, r0, r1, c2, c3, s0, s1, d2, d3] =
        [p0, p1, p2, a3, q0, q1, q2, b3, r0, r1, r2, c3, s0, s1, s2, d3]"
      using quarter_round_words [OF 2] by simp
    have h3: "chacha20_quarter_round 3 7 11 15 [p0, p1, p2, a3, q0, q1, q2, b3, r0, r1, r2, c3, s0, s1, s2, d3] =
        [p0, p1, p2, p3, q0, q1, q2, q3, r0, r1, r2, r3, s0, s1, s2, s3]"
      using quarter_round_words [OF 3] by simp
    have h4: "chacha20_quarter_round 0 5 10 15 [p0, p1, p2, p3, q0, q1, q2, q3, r0, r1, r2, r3, s0, s1, s2, s3] =
        [t0, p1, p2, p3, q0, u0, q2, q3, r0, r1, v0, r3, s0, s1, s2, w0]"
      using quarter_round_words [OF 4] by simp
    have h5: "chacha20_quarter_round 1 6 11 12 [t0, p1, p2, p3, q0, u0, q2, q3, r0, r1, v0, r3, s0, s1, s2, w0] =
        [t0, t1, p2, p3, q0, u0, u1, q3, r0, r1, v0, v1, w1, s1, s2, w0]"
      using quarter_round_words [OF 5] by simp
    have h6: "chacha20_quarter_round 2 7 8 13 [t0, t1, p2, p3, q0, u0, u1, q3, r0, r1, v0, v1, w1, s1, s2, w0] =
        [t0, t1, t2, p3, q0, u0, u1, u2, v2, r1, v0, v1, w1, w2, s2, w0]"
      using quarter_round_words [OF 6] by simp
    have h7: "chacha20_quarter_round 3 4 9 14 [t0, t1, t2, p3, q0, u0, u1, u2, v2, r1, v0, v1, w1, w2, s2, w0] =
        [t0, t1, t2, t3, u3, u0, u1, u2, v2, v3, v0, v1, w1, w2, w3, w0]"
      using quarter_round_words [OF 7] by simp
    show ?thesis
      unfolding double_round_def Let_def rows_def w prod.case a b c d append.simps h0 h1 h2 h3 h4 h5 h6 h7 ..
  qed
  moreover have "rows lanes (double_round_simd ops w) = [t0, t1, t2, t3, u3, u0, u1, u2, v2, v3, v0, v1, w1, w2, w3, w0]"
  proof -
    obtain a' b' c' d' where x: "chacha20_quarter_round_simd ops (a, b, c, d) = (a', b', c', d')"
      by (cases "chacha20_quarter_round_simd ops (a, b, c, d)")
    note r1 = quarter_round_lanes [OF L a b c d 0 1 2 3 x]
    let ?b = "mm_shuffle_epi32 ops b' (0, 3, 2, 1)" and ?c = "mm_shuffle_epi32 ops c' (1, 0, 3, 2)"
      and ?d = "mm_shuffle_epi32 ops d' (2, 1, 0, 3)"
    have s1: "lanes ?b = [q1, q2, q3, q0]" "lanes ?c = [r2, r3, r0, r1]" "lanes ?d = [s3, s0, s1, s2]"
      using L r1 by (simp_all add: simd_laws_def)
    obtain a2 b2 c2 d2 where y: "chacha20_quarter_round_simd ops (a', ?b, ?c, ?d) = (a2, b2, c2, d2)"
      by (cases "chacha20_quarter_round_simd ops (a', ?b, ?c, ?d)")
    note r2 = quarter_round_lanes [OF L r1(1) s1 4 5 6 7 y]
    show ?thesis using L r2 by (simp add: double_round_simd_def w x y rows_def simd_laws_def del: One_nat_def)
  qed
  ultimately show ?thesis by simp
qed

lemma rounds_lanes:
  "simd_laws ops lanes \<Longrightarrow> rows lanes ((double_round_simd ops ^^ n) w) = (double_round ^^ n) (rows lanes w)"
  by (induction n) (simp_all add: double_round_lanes)

text \<open>C36 (chacha20_simd_equiv): with intrinsics that behave as documented, the SSE2 block function
writes the bytes of the portable one.\<close>

theorem chacha20_simd_equiv:
  assumes L: "simd_laws ops lanes" and buf: "length buf = 64"
  shows "chacha20_block_simd ops key counter nonce buf = chacha20_block key counter nonce buf"
proof -
  have ops: "lanes (mm_add_epi32 ops v w) = map2 (+) (lanes v) (lanes w)" "length (lanes v) = 4"
    "lanes (mm_set_epi32 ops z y x t) = [t, x, y, z]" for v w t x y z
    using L by (simp_all add: simd_laws_def)
  define bytes where "bytes v = concat (map le32_bytes (lanes v))" for v
  have len: "length (bytes v) = 16" for v by (simp add: bytes_def ops(2))
  have store: "at + 16 \<le> length b \<Longrightarrow> mm_storeu_si128 ops b at v = take at b @ bytes v @ drop (at + 16) b" for b at v
    using L by (simp add: simd_laws_def bytes_def)
  define v0 v1 v2 v3 where v: "v0 = mm_set_epi32 ops (read_le32 (drop 12 CHACHA_CONST))
      (read_le32 (drop 8 CHACHA_CONST)) (read_le32 (drop 4 CHACHA_CONST)) (read_le32 (drop 0 CHACHA_CONST))"
    "v1 = mm_set_epi32 ops (read_le32 (drop 12 key)) (read_le32 (drop 8 key))
      (read_le32 (drop 4 key)) (read_le32 (drop 0 key))"
    "v2 = mm_set_epi32 ops (read_le32 (drop 28 key)) (read_le32 (drop 24 key))
      (read_le32 (drop 20 key)) (read_le32 (drop 16 key))"
    "v3 = mm_set_epi32 ops (read_le32 (drop 8 nonce)) (read_le32 (drop 4 nonce)) (read_le32 (drop 0 nonce)) counter"
  let ?st = "initial_state key counter nonce"
  have st: "rows lanes (v0, v1, v2, v3) = ?st"
    by (simp add: rows_def v ops initial_state_def upt_rec)
  obtain w0 w1 w2 w3 where w: "(double_round_simd ops ^^ 10) (v0, v1, v2, v3) = (w0, w1, w2, w3)"
    by (cases "(double_round_simd ops ^^ 10) (v0, v1, v2, v3)")
  have W: "rows lanes (w0, w1, w2, w3) = (double_round ^^ 10) ?st"
    using rounds_lanes [OF L, of 10 "(v0, v1, v2, v3)"] by (simp add: w st)
  have words: "map (\<lambda>i. xs ! i + ys ! i) [0..<16] = map2 (+) xs ys" if "length xs = 16" "length ys = 16"
    for xs ys :: "u32 list"
    using that by (intro nth_equalityI) simp_all
  have "chacha20_block_simd ops key counter nonce buf =
    bytes (mm_add_epi32 ops w0 v0) @ bytes (mm_add_epi32 ops w1 v1) @
    bytes (mm_add_epi32 ops w2 v2) @ bytes (mm_add_epi32 ops w3 v3)"
    using buf unfolding chacha20_block_simd_def Let_def v [symmetric] w prod.case
    by (simp add: store len)
  also have "\<dots> = concat (map le32_bytes (map2 (+) (rows lanes (w0, w1, w2, w3)) (rows lanes (v0, v1, v2, v3))))"
    by (simp add: rows_def ops bytes_def)
  also have "\<dots> = block_bytes key counter nonce"
    unfolding W st block_bytes_def block_words_def Let_def by (subst words) simp_all
  finally show ?thesis by (simp add: chacha20_block_eq [OF buf])
qed

text \<open>Vectors of four words meet the documentation.\<close>

definition lane_list :: "u32 \<times> u32 \<times> u32 \<times> u32 \<Rightarrow> u32 list" where
  "lane_list = (\<lambda>(a, b, c, d). [a, b, c, d])"

definition lane_ops :: "(u32 \<times> u32 \<times> u32 \<times> u32) simd_ops" where
  "lane_ops =
    \<lparr>mm_add_epi32 = (\<lambda>(a, b, c, d) (x, y, z, w). (a + x, b + y, c + z, d + w)),
     mm_xor_si128 = (\<lambda>(a, b, c, d) (x, y, z, w). (a XOR x, b XOR y, c XOR z, d XOR w)),
     mm_or_si128 = (\<lambda>(a, b, c, d) (x, y, z, w). (a OR x, b OR y, c OR z, d OR w)),
     mm_slli_epi32 = (\<lambda>(a, b, c, d) n. (push_bit n a, push_bit n b, push_bit n c, push_bit n d)),
     mm_srli_epi32 = (\<lambda>(a, b, c, d) n. (drop_bit n a, drop_bit n b, drop_bit n c, drop_bit n d)),
     mm_set_epi32 = (\<lambda>d c b a. (a, b, c, d)),
     mm_shuffle_epi32 = (\<lambda>v (l, k, j, i).
       (lane_list v ! i, lane_list v ! j, lane_list v ! k, lane_list v ! l)),
     mm_storeu_si128 = (\<lambda>buf at v. take at buf @ concat (map le32_bytes (lane_list v)) @ drop (at + 16) buf)\<rparr>"

lemma lane_laws: "simd_laws lane_ops lane_list"
  by (auto simp: simd_laws_def lane_ops_def lane_list_def)

lemma chacha20_simd_equiv_witness:
  "chacha20_block_simd lane_ops (replicate 32 7) 1 (replicate 12 9) (replicate 64 0) =
    chacha20_block (replicate 32 7) 1 (replicate 12 9) (replicate 64 0)"
  by (rule chacha20_simd_equiv [OF lane_laws]) simp

end
