(* ===== verification/Poly1305.thy ===== *)
theory Poly1305
  imports ByteCursor
begin

unbundle bit_operations_syntax

text \<open>
\<open>poly1305_mac\<close> of \<open>src/core/encrypt/chacha20_poly1305.cpp\<close>: a number modulo \<open>2 ^ 130 - 5\<close> is
five limbs of 26 bits in 64-bit words.  The properties relate it to the polynomial of RFC 8439 over
the natural numbers.
\<close>

section \<open>The code\<close>

definition poly1305_clamp :: "byte list \<Rightarrow> byte list" where
  "poly1305_clamp r =
    (let r = r[3 := r ! 3 AND 15]; r = r[7 := r ! 7 AND 15];
         r = r[11 := r ! 11 AND 15]; r = r[15 := r ! 15 AND 15];
         r = r[4 := r ! 4 AND 252]; r = r[8 := r ! 8 AND 252]
     in r[12 := r ! 12 AND 252])"

record limbs =
  limb0 :: u64
  limb1 :: u64
  limb2 :: u64
  limb3 :: u64
  limb4 :: u64

definition load_limbs :: "byte list \<Rightarrow> limbs" where
  "load_limbs b =
    \<lparr>limb0 = ucast (read_le32 (drop 0 b) AND 0x03ffffff),
     limb1 = ucast (drop_bit 2 (read_le32 (drop 3 b)) AND 0x03ffffff),
     limb2 = ucast (drop_bit 4 (read_le32 (drop 6 b)) AND 0x03ffffff),
     limb3 = ucast (drop_bit 6 (read_le32 (drop 9 b)) AND 0x03ffffff),
     limb4 = ucast (drop_bit 8 (read_le32 (drop 12 b)) AND 0x03ffffff)\<rparr>"

definition message_block :: "byte list \<Rightarrow> nat \<Rightarrow> nat \<Rightarrow> byte list" where
  "message_block msg offset block_len =
    (take block_len (drop offset msg) @ replicate (17 - block_len) 0)[block_len := 0x01]"

definition add_block :: "limbs \<Rightarrow> byte list \<Rightarrow> limbs" where
  "add_block h block =
    (let b = load_limbs block
     in \<lparr>limb0 = limb0 h + limb0 b, limb1 = limb1 h + limb1 b, limb2 = limb2 h + limb2 b,
         limb3 = limb3 h + limb3 b,
         limb4 = limb4 h + (limb4 b OR push_bit 24 (ucast (block ! 16)))\<rparr>)"

definition mul_limbs :: "limbs \<Rightarrow> limbs \<Rightarrow> limbs" where
  "mul_limbs h r =
    (let s1 = limb1 r * 5; s2 = limb2 r * 5; s3 = limb3 r * 5; s4 = limb4 r * 5
     in \<lparr>limb0 = limb0 h * limb0 r + limb1 h * s4 + limb2 h * s3 + limb3 h * s2 + limb4 h * s1,
         limb1 = limb0 h * limb1 r + limb1 h * limb0 r + limb2 h * s4 + limb3 h * s3 + limb4 h * s2,
         limb2 = limb0 h * limb2 r + limb1 h * limb1 r + limb2 h * limb0 r + limb3 h * s4 + limb4 h * s3,
         limb3 = limb0 h * limb3 r + limb1 h * limb2 r + limb2 h * limb1 r + limb3 h * limb0 r + limb4 h * s4,
         limb4 = limb0 h * limb4 r + limb1 h * limb3 r + limb2 h * limb2 r + limb3 h * limb1 r + limb4 h * limb0 r\<rparr>)"

definition carry_limbs :: "limbs \<Rightarrow> limbs" where
  "carry_limbs d =
    (let c = drop_bit 26 (limb0 d); h0 = limb0 d AND 0x03ffffff;
         c = c + limb1 d; h1 = c AND 0x03ffffff;
         c = drop_bit 26 c + limb2 d; h2 = c AND 0x03ffffff;
         c = drop_bit 26 c + limb3 d; h3 = c AND 0x03ffffff;
         c = drop_bit 26 c + limb4 d; h4 = c AND 0x03ffffff;
         c = drop_bit 26 c;
         h0 = h0 + c * 5; c = drop_bit 26 h0; h0 = h0 AND 0x03ffffff;
         h1 = h1 + c
     in \<lparr>limb0 = h0, limb1 = h1, limb2 = h2, limb3 = h3, limb4 = h4\<rparr>)"

function mac_loop :: "limbs \<Rightarrow> byte list \<Rightarrow> nat \<Rightarrow> nat \<Rightarrow> limbs \<Rightarrow> limbs" where
  "mac_loop r msg msg_len offset h =
    (if offset < msg_len then
       (let block_len = (if msg_len - offset \<ge> 16 then 16 else msg_len - offset);
            h = add_block h (message_block msg offset block_len);
            h = carry_limbs (mul_limbs h r)
        in mac_loop r msg msg_len (offset + block_len) h)
     else h)"
  by pat_completeness auto
termination by (relation "measure (\<lambda>(r, msg, msg_len, offset, h). msg_len - offset)") auto

declare mac_loop.simps [simp del]

definition reduce_pass :: "limbs \<Rightarrow> limbs" where
  "reduce_pass h =
    (let c = drop_bit 26 (limb1 h); h1 = limb1 h AND 0x03ffffff; h2 = limb2 h + c;
         c = drop_bit 26 h2; h2 = h2 AND 0x03ffffff; h3 = limb3 h + c;
         c = drop_bit 26 h3; h3 = h3 AND 0x03ffffff; h4 = limb4 h + c;
         c = drop_bit 26 h4; h4 = h4 AND 0x03ffffff; h0 = limb0 h + c * 5;
         c = drop_bit 26 h0; h0 = h0 AND 0x03ffffff; h1 = h1 + c
     in \<lparr>limb0 = h0, limb1 = h1, limb2 = h2, limb3 = h3, limb4 = h4\<rparr>)"

definition finish_tag :: "limbs \<Rightarrow> u64 \<Rightarrow> u64 \<Rightarrow> byte list \<Rightarrow> byte list" where
  "finish_tag h s_lo s_hi tag =
    (let g0 = limb0 h OR push_bit 26 (limb1 h) OR push_bit 52 (limb2 h AND 0xFFF);
         g1 = drop_bit 12 (limb2 h) OR push_bit 14 (limb3 h) OR push_bit 40 (limb4 h AND 0xFFFFFF);
         g0 = g0 + s_lo;
         carry1 = (if g0 < s_lo then 1 else 0);
         g1 = g1 + (s_hi + carry1);
         tag = write_le64 tag g0
     in take 8 tag @ write_le64 (drop 8 tag) g1)"

definition poly1305_mac :: "byte list \<Rightarrow> byte list \<Rightarrow> nat \<Rightarrow> byte list \<Rightarrow> byte list" where
  "poly1305_mac key msg msg_len tag =
    (let r = load_limbs (poly1305_clamp (take 16 key));
         s_lo = read_le64 (drop 16 key); s_hi = read_le64 (drop 24 key);
         h = mac_loop r msg msg_len 0 \<lparr>limb0 = 0, limb1 = 0, limb2 = 0, limb3 = 0, limb4 = 0\<rparr>;
         h = reduce_pass (reduce_pass h)
     in finish_tag h s_lo s_hi tag)"

section \<open>Bytes as a number\<close>

fun le_val :: "byte list \<Rightarrow> nat" where
  "le_val [] = 0"
| "le_val (b # bs) = unat b + 256 * le_val bs"

lemma unat_or_push:
  fixes x y :: "'a::len word"
  assumes "unat x < 2 ^ n" "unat x + 2 ^ n * unat y < 2 ^ LENGTH('a)"
  shows "unat (x OR push_bit n y) = unat x + 2 ^ n * unat y"
proof -
  have "x AND push_bit n y = 0"
  proof (rule bit_eqI)
    fix m
    have "\<not> bit x m" if "n \<le> m"
      using assms(1) that bit_take_bit_iff [of n "unat x" m] by (simp add: bit_unsigned_iff [symmetric] bit_simps take_bit_nat_eq_self)
    then show "bit (x AND push_bit n y) m \<longleftrightarrow> bit 0 m" by (auto simp: bit_simps)
  qed
  then have "x OR push_bit n y = x + push_bit n y" by (simp add: disjunctive_add_eq_or)
  moreover have "unat (push_bit n y) = 2 ^ n * unat y"
    using assms(2) by (subst unsigned_push_bit_eq) (simp add: push_bit_nat_def take_bit_nat_eq_self mult.commute)
  ultimately show ?thesis using assms(2) by (simp add: unat_word_ariths)
qed

lemma byte_less: "unat (b :: byte) < 256"
  using unsigned_less [of b] by simp

lemma le_val_less: "le_val bs < 256 ^ length bs"
proof (induction bs)
  case (Cons b bs)
  then show ?case using byte_less [of b] by simp
qed simp

lemma le_val_drop: "le_val (drop k bs) = le_val bs div 256 ^ k"
proof (induction k arbitrary: bs)
  case (Suc k)
  show ?case
  proof (cases bs)
    case (Cons b r)
    have "(unat b + 256 * le_val r) div 256 = le_val r" using byte_less [of b] by simp
    then show ?thesis using Suc [of r] Cons by (simp add: div_mult2_eq)
  qed simp
qed simp

lemma le_val_append: "le_val (xs @ ys) = le_val xs + 256 ^ length xs * le_val ys"
  by (induction xs) (simp_all add: algebra_simps)

lemma le_val_take: "le_val (take k bs) = le_val bs mod 256 ^ k"
proof -
  have "k \<le> length bs \<Longrightarrow> ?thesis"
    using le_val_append [of "take k bs" "drop k bs"] le_val_less [of "take k bs"] by simp
  moreover have "length bs < k \<Longrightarrow> ?thesis"
    using less_trans [OF le_val_less [of bs] power_strict_increasing [of "length bs" k "256::nat"]] by simp
  ultimately show ?thesis by linarith
qed

lemma list_of_4: "4 \<le> length d \<Longrightarrow> \<exists>a b c e r. d = a # b # c # e # r"
  using list_of_3 [of d] by (auto simp: numeral_eq_Suc Suc_le_length_iff)

lemma or_push_eq:
  fixes x y :: "'a::len word"
  assumes "unat x = v" "unat y = w" "v < 2 ^ n" "v + 2 ^ n * w < 2 ^ LENGTH('a)"
  shows "unat (x OR push_bit n y) = v + 2 ^ n * w"
  using unat_or_push [of x n y] assms by simp

lemma unat_ucast_byte: "8 \<le> LENGTH('a::len) \<Longrightarrow> unat (ucast (b :: byte) :: 'a word) = unat b"
  using byte_less [of b] power_increasing [of 8 "LENGTH('a)" "2::nat"]
  by (simp add: unsigned_ucast_eq take_bit_nat_eq_self)

lemma unat_read_le32:
  assumes "4 \<le> length d"
  shows "unat (read_le32 d) = le_val (take 4 d)"
proof -
  obtain a b c e r where d: "d = a # b # c # e # r" using list_of_4 [OF assms] by blast
  have "unat (read_le32 d) = ((unat a + 2 ^ 8 * unat b) + 2 ^ 16 * unat c) + 2 ^ 24 * unat e"
    unfolding read_le32_def or.assoc [symmetric]
    using byte_less [of a] byte_less [of b] byte_less [of c] byte_less [of e] d
    by (intro or_push_eq) (simp_all add: unat_ucast_byte)
  then show ?thesis using d by simp
qed

lemma unat_read_le64:
  assumes "8 \<le> length d"
  shows "unat (read_le64 d) = le_val (take 8 d)"
proof -
  obtain a b c e r where d: "d = a # b # c # e # r" using list_of_4 [of d] assms by auto
  obtain a' b' c' e' r' where r: "r = a' # b' # c' # e' # r'" using list_of_4 [of r] d assms by auto
  have "unat (read_le64 d) = ((((((unat a + 2 ^ 8 * unat b) + 2 ^ 16 * unat c) + 2 ^ 24 * unat e) +
      2 ^ 32 * unat a') + 2 ^ 40 * unat b') + 2 ^ 48 * unat c') + 2 ^ 56 * unat e'"
    unfolding read_le64_def or.assoc [symmetric]
    using byte_less [of a] byte_less [of b] byte_less [of c] byte_less [of e]
      byte_less [of a'] byte_less [of b'] byte_less [of c'] byte_less [of e'] d r
    by (intro or_push_eq) (simp_all add: unat_ucast_byte)
  then show ?thesis using d r by simp
qed

section \<open>The authenticator of RFC 8439\<close>

text \<open>The modulus, the mask of the multiplier and the evaluation of the message as a polynomial, one
block of 16 bytes with a 1 appended per coefficient.\<close>

definition poly_p :: nat where
  "poly_p = 2 ^ 130 - 5"

definition clamp_mask :: nat where
  "clamp_mask = 0x0ffffffc0ffffffc0ffffffc0fffffff"

function poly_eval :: "nat \<Rightarrow> byte list \<Rightarrow> nat \<Rightarrow> nat" where
  "poly_eval r msg acc =
    (if msg = [] then acc
     else poly_eval r (drop 16 msg) ((acc + le_val (take 16 msg @ [1])) * r mod poly_p))"
  by pat_completeness auto
termination by (relation "measure (\<lambda>(r, msg, acc). length msg)") auto

declare poly_eval.simps [simp del]

section \<open>Limbs\<close>

definition limbs_val :: "limbs \<Rightarrow> nat" where
  "limbs_val h = unat (limb0 h) + 2 ^ 26 * unat (limb1 h) + 2 ^ 52 * unat (limb2 h) +
    2 ^ 78 * unat (limb3 h) + 2 ^ 104 * unat (limb4 h)"

lemma unat_and_mask: "unat ((x :: 'a::len word) AND mask n) = unat x mod 2 ^ n"
proof -
  have "unat (x AND mask n) = take_bit n (unat x)"
    using unsigned_take_bit_eq [of n x] take_bit_eq_mask [of n x] by metis
  also have "\<dots> = unat x mod 2 ^ n" by (rule take_bit_eq_mod)
  finally show ?thesis .
qed

lemma unat_masks [simp]:
  fixes x :: "'a::len word"
  shows "unat (x AND 0x3FFFFFF) = unat x mod 2 ^ 26" "unat (x AND 0xFFFFFF) = unat x mod 2 ^ 24"
    "unat (x AND 0xFFF) = unat x mod 2 ^ 12"
  using unat_and_mask [of x 26] unat_and_mask [of x 24] unat_and_mask [of x 12]
  by (simp_all add: mask_eq_exp_minus_1)

lemmas unat_mask26 = unat_masks(1)

lemma unat_drop [simp]: "unat (drop_bit n (x :: 'a::len word)) = unat x div 2 ^ n"
  using unat_drop_bit_eq [of n x] drop_bit_eq_div [of n "unat x"] by metis

lemma le_val_slice: "le_val (take m (drop k b)) = le_val b div 256 ^ k mod 256 ^ m"
  by (simp add: le_val_take le_val_drop)

lemma nat_slice:
  "(x :: nat) div 2 ^ k mod 2 ^ m div 2 ^ a mod 2 ^ n = x div 2 ^ (k + a) mod 2 ^ (min n (m - a))"
proof -
  have "take_bit n (drop_bit a (take_bit m (drop_bit k x))) = take_bit (min n (m - a)) (drop_bit (k + a) x)"
    by (simp only: drop_bit_take_bit take_bit_take_bit drop_bit_drop_bit) (simp add: add.commute)
  then show ?thesis by (simp only: drop_bit_eq_div take_bit_eq_mod)
qed

lemma load_limbs_eq:
  assumes "16 \<le> length b"
  shows "unat (limb0 (load_limbs b)) = le_val b mod 2 ^ 26"
    "unat (limb1 (load_limbs b)) = le_val b div 2 ^ 26 mod 2 ^ 26"
    "unat (limb2 (load_limbs b)) = le_val b div 2 ^ 52 mod 2 ^ 26"
    "unat (limb3 (load_limbs b)) = le_val b div 2 ^ 78 mod 2 ^ 26"
    "unat (limb4 (load_limbs b)) = le_val b div 2 ^ 104 mod 2 ^ 24"
proof -
  have u: "unat (ucast (w :: u32) :: u64) = unat w" for w
    
    using unsigned_less [of w, where ?'a = nat] by (simp add: unsigned_ucast_eq take_bit_nat_eq_self)
  have r: "unat (read_le32 (drop k b)) = le_val b div 2 ^ (8 * k) mod 2 ^ 32" if "k \<le> 12" for k
    using unat_read_le32 [of "drop k b"] that assms le_val_slice [of 4 k b] by (simp add: power_mult)
  have l: "unat (drop_bit a (read_le32 (drop k b)) AND 0x3FFFFFF) = le_val b div 2 ^ (8 * k + a) mod 2 ^ (min 26 (32 - a))"
    if "k \<le> 12" for k a
    by (simp only: unat_mask26 unat_drop r [OF that] nat_slice)
  show "unat (limb0 (load_limbs b)) = le_val b mod 2 ^ 26"
    using l [of 0 0] by (simp add: load_limbs_def u)
  show "unat (limb1 (load_limbs b)) = le_val b div 2 ^ 26 mod 2 ^ 26"
    using l [of 3 2] by (simp add: load_limbs_def u)
  show "unat (limb2 (load_limbs b)) = le_val b div 2 ^ 52 mod 2 ^ 26"
    using l [of 6 4] by (simp add: load_limbs_def u)
  show "unat (limb3 (load_limbs b)) = le_val b div 2 ^ 78 mod 2 ^ 26"
    using l [of 9 6] by (simp add: load_limbs_def u)
  show "unat (limb4 (load_limbs b)) = le_val b div 2 ^ 104 mod 2 ^ 24"
    using l [of 12 8] by (simp add: load_limbs_def u)
qed

lemma split_limbs:
  fixes N :: nat
  shows "N mod 2 ^ 26 + 2 ^ 26 * (N div 2 ^ 26 mod 2 ^ 26) + 2 ^ 52 * (N div 2 ^ 52 mod 2 ^ 26) +
    2 ^ 78 * (N div 2 ^ 78 mod 2 ^ 26) + 2 ^ 104 * (N div 2 ^ 104) = N"
proof -
  have s: "N div 2 ^ k = N div 2 ^ k mod 2 ^ 26 + 2 ^ 26 * (N div 2 ^ (k + 26))" for k
    using mod_mult_div_eq [of "N div 2 ^ k" "2 ^ 26"] by (simp add: power_add div_mult2_eq)
  have "N = N mod 2 ^ 26 + 2 ^ 26 * (N div 2 ^ 26)" by simp
  moreover have "N = a0 + 2 ^ 26 * b1 \<Longrightarrow> b1 = a1 + 2 ^ 26 * b2 \<Longrightarrow> b2 = a2 + 2 ^ 26 * b3 \<Longrightarrow>
      b3 = a3 + 2 ^ 26 * b4 \<Longrightarrow> a0 + 2 ^ 26 * a1 + 2 ^ 52 * a2 + 2 ^ 78 * a3 + 2 ^ 104 * b4 = N"
    for a0 a1 a2 a3 b1 b2 b3 b4 :: nat
    by simp
  ultimately show ?thesis using s [of 26] s [of 52] s [of 78] by (simp only: semiring_norm)
qed

lemma limbs_val_load:
  assumes "16 \<le> length b" "le_val b < 2 ^ 128"
  shows "limbs_val (load_limbs b) = le_val b"
proof -
  have "le_val b div 2 ^ 104 < 2 ^ 24" using assms(2) by (simp add: div_less_iff_less_mult)
  then show ?thesis
    unfolding limbs_val_def load_limbs_eq [OF assms(1)] by (simp only: mod_less split_limbs)
qed
section \<open>The limbs stay within 64 bits\<close>

text \<open>The bounds between two blocks: only the second limb may exceed 26 bits.\<close>

definition limbs_ok :: "limbs \<Rightarrow> bool" where
  "limbs_ok h \<longleftrightarrow> unat (limb0 h) < 2 ^ 26 \<and> unat (limb1 h) < 2 ^ 26 + 2 ^ 12 \<and>
    unat (limb2 h) < 2 ^ 26 \<and> unat (limb3 h) < 2 ^ 26 \<and> unat (limb4 h) < 2 ^ 26"

definition limbs_below :: "nat \<Rightarrow> limbs \<Rightarrow> bool" where
  "limbs_below n h \<longleftrightarrow> unat (limb0 h) < n \<and> unat (limb1 h) < n \<and> unat (limb2 h) < n \<and>
    unat (limb3 h) < n \<and> unat (limb4 h) < n"

lemma load_limbs_below: "16 \<le> length b \<Longrightarrow> limbs_below (2 ^ 26) (load_limbs b)"
  using mod_less_divisor [of "2 ^ 24" "le_val b div 2 ^ 104"]
  by (simp add: limbs_below_def load_limbs_eq less_trans [of _ "2 ^ 24" "2 ^ 26"])

lemma unat_sum: "unat x + unat y < 2 ^ 64 \<Longrightarrow> unat ((x :: u64) + y) = unat x + unat y"
  by (simp add: unat_word_ariths)

lemma unat_prod: "unat x * unat y < 2 ^ 64 \<Longrightarrow> unat ((x :: u64) * y) = unat x * unat y"
  by (simp add: unat_word_ariths)

lemma unat_sum5:
  fixes a b c d e :: u64
  assumes "unat a < n" "unat b < n" "unat c < n" "unat d < n" "unat e < n" "5 * n \<le> 2 ^ 64"
  shows "unat (a + b + c + d + e) = unat a + unat b + unat c + unat d + unat e"
  using assms by (simp add: unat_sum)

lemma prod_below:
  fixes h r :: u64
  assumes "unat h < 2 ^ 28" "unat r < 2 ^ 29"
  shows "unat (h * r) < 2 ^ 57 \<and> unat (h * r) = unat h * unat r"
proof -
  have "unat h * unat r < 2 ^ 28 * 2 ^ 29" using assms by (intro mult_strict_mono) simp_all
  then show ?thesis by (simp add: unat_prod)
qed

lemma mul_limbs_eq:
  assumes "limbs_below (2 ^ 28) h" "limbs_below (2 ^ 26) r"
  shows "unat (limb0 (mul_limbs h r)) = unat (limb0 h) * unat (limb0 r) + unat (limb1 h) * (unat (limb4 r) * 5) +
      unat (limb2 h) * (unat (limb3 r) * 5) + unat (limb3 h) * (unat (limb2 r) * 5) + unat (limb4 h) * (unat (limb1 r) * 5)"
    "unat (limb1 (mul_limbs h r)) = unat (limb0 h) * unat (limb1 r) + unat (limb1 h) * unat (limb0 r) +
      unat (limb2 h) * (unat (limb4 r) * 5) + unat (limb3 h) * (unat (limb3 r) * 5) + unat (limb4 h) * (unat (limb2 r) * 5)"
    "unat (limb2 (mul_limbs h r)) = unat (limb0 h) * unat (limb2 r) + unat (limb1 h) * unat (limb1 r) +
      unat (limb2 h) * unat (limb0 r) + unat (limb3 h) * (unat (limb4 r) * 5) + unat (limb4 h) * (unat (limb3 r) * 5)"
    "unat (limb3 (mul_limbs h r)) = unat (limb0 h) * unat (limb3 r) + unat (limb1 h) * unat (limb2 r) +
      unat (limb2 h) * unat (limb1 r) + unat (limb3 h) * unat (limb0 r) + unat (limb4 h) * (unat (limb4 r) * 5)"
    "unat (limb4 (mul_limbs h r)) = unat (limb0 h) * unat (limb4 r) + unat (limb1 h) * unat (limb3 r) +
      unat (limb2 h) * unat (limb2 r) + unat (limb3 h) * unat (limb1 r) + unat (limb4 h) * unat (limb0 r)"
    "limbs_below (2 ^ 60) (mul_limbs h r)"
proof -
  have h: "unat (limb0 h) < 2 ^ 28" "unat (limb1 h) < 2 ^ 28" "unat (limb2 h) < 2 ^ 28"
    "unat (limb3 h) < 2 ^ 28" "unat (limb4 h) < 2 ^ 28"
    using assms(1) by (simp_all add: limbs_below_def)
  have r: "unat (limb0 r) < 2 ^ 29" "unat (limb1 r) < 2 ^ 29" "unat (limb2 r) < 2 ^ 29"
    "unat (limb3 r) < 2 ^ 29" "unat (limb4 r) < 2 ^ 29"
    using assms(2) by (simp_all add: limbs_below_def)
  have s: "unat (x * 5) = unat x * 5" "unat (x * 5) < 2 ^ 29" if "unat x < 2 ^ 26" for x :: u64
    using that unat_prod [of x 5] by simp_all
  have rb: "unat (limb1 r) < 2 ^ 26" "unat (limb2 r) < 2 ^ 26" "unat (limb3 r) < 2 ^ 26" "unat (limb4 r) < 2 ^ 26"
    using assms(2) by (simp_all only: limbs_below_def)
  note s5 = s [OF rb(1)] s [OF rb(2)] s [OF rb(3)] s [OF rb(4)]
  have five: "unat (a1 * b1 + a2 * b2 + a3 * b3 + a4 * b4 + a5 * b5) =
      unat a1 * unat b1 + unat a2 * unat b2 + unat a3 * unat b3 + unat a4 * unat b4 + unat a5 * unat b5 \<and>
      unat (a1 * b1 + a2 * b2 + a3 * b3 + a4 * b4 + a5 * b5) < 2 ^ 60"
    if "unat a1 < 2 ^ 28" "unat a2 < 2 ^ 28" "unat a3 < 2 ^ 28" "unat a4 < 2 ^ 28" "unat a5 < 2 ^ 28"
      "unat b1 < 2 ^ 29" "unat b2 < 2 ^ 29" "unat b3 < 2 ^ 29" "unat b4 < 2 ^ 29" "unat b5 < 2 ^ 29"
    for a1 a2 a3 a4 a5 b1 b2 b3 b4 b5 :: u64
    using unat_sum5 [OF prod_below [OF that(1,6), THEN conjunct1] prod_below [OF that(2,7), THEN conjunct1]
        prod_below [OF that(3,8), THEN conjunct1] prod_below [OF that(4,9), THEN conjunct1]
        prod_below [OF that(5,10), THEN conjunct1]]
      prod_below [OF that(1,6)] prod_below [OF that(2,7)] prod_below [OF that(3,8)]
      prod_below [OF that(4,9)] prod_below [OF that(5,10)]
    by simp
  note f0 = five [OF h r(1) s5(8,6,4,2)] and f1 = five [OF h r(2,1) s5(8,6,4)]
    and f2 = five [OF h r(3,2,1) s5(8,6)] and f3 = five [OF h r(4,3,2,1) s5(8)]
    and f4 = five [OF h r(5,4,3,2,1)]
  note m = mul_limbs_def Let_def limbs.simps s5(1,3,5,7)
  show "unat (limb0 (mul_limbs h r)) = unat (limb0 h) * unat (limb0 r) + unat (limb1 h) * (unat (limb4 r) * 5) +
      unat (limb2 h) * (unat (limb3 r) * 5) + unat (limb3 h) * (unat (limb2 r) * 5) + unat (limb4 h) * (unat (limb1 r) * 5)"
    using f0 by (simp only: m)
  show "unat (limb1 (mul_limbs h r)) = unat (limb0 h) * unat (limb1 r) + unat (limb1 h) * unat (limb0 r) +
      unat (limb2 h) * (unat (limb4 r) * 5) + unat (limb3 h) * (unat (limb3 r) * 5) + unat (limb4 h) * (unat (limb2 r) * 5)"
    using f1 by (simp only: m)
  show "unat (limb2 (mul_limbs h r)) = unat (limb0 h) * unat (limb2 r) + unat (limb1 h) * unat (limb1 r) +
      unat (limb2 h) * unat (limb0 r) + unat (limb3 h) * (unat (limb4 r) * 5) + unat (limb4 h) * (unat (limb3 r) * 5)"
    using f2 by (simp only: m)
  show "unat (limb3 (mul_limbs h r)) = unat (limb0 h) * unat (limb3 r) + unat (limb1 h) * unat (limb2 r) +
      unat (limb2 h) * unat (limb1 r) + unat (limb3 h) * unat (limb0 r) + unat (limb4 h) * (unat (limb4 r) * 5)"
    using f3 by (simp only: m)
  show "unat (limb4 (mul_limbs h r)) = unat (limb0 h) * unat (limb4 r) + unat (limb1 h) * unat (limb3 r) +
      unat (limb2 h) * unat (limb2 r) + unat (limb3 h) * unat (limb1 r) + unat (limb4 h) * unat (limb0 r)"
    using f4 by (simp only: m)
  show "limbs_below (2 ^ 60) (mul_limbs h r)"
    using f0 [THEN conjunct2] f1 [THEN conjunct2] f2 [THEN conjunct2]
      f3 [THEN conjunct2] f4 [THEN conjunct2]
    unfolding limbs_below_def mul_limbs_def Let_def limbs.simps by (intro conjI)
qed
lemma mul_limbs_val:
  assumes "limbs_below (2 ^ 28) h" "limbs_below (2 ^ 26) r"
  shows "limbs_val (mul_limbs h r) mod poly_p = limbs_val h * limbs_val r mod poly_p"
proof -
  have r: "\<exists>K. (h0 + 2 ^ 26 * h1 + 2 ^ 52 * h2 + 2 ^ 78 * h3 + 2 ^ 104 * h4) *
      (r0 + 2 ^ 26 * r1 + 2 ^ 52 * r2 + 2 ^ 78 * r3 + 2 ^ 104 * r4) =
      (h0 * r0 + h1 * (r4 * 5) + h2 * (r3 * 5) + h3 * (r2 * 5) + h4 * (r1 * 5)) +
      2 ^ 26 * (h0 * r1 + h1 * r0 + h2 * (r4 * 5) + h3 * (r3 * 5) + h4 * (r2 * 5)) +
      2 ^ 52 * (h0 * r2 + h1 * r1 + h2 * r0 + h3 * (r4 * 5) + h4 * (r3 * 5)) +
      2 ^ 78 * (h0 * r3 + h1 * r2 + h2 * r1 + h3 * r0 + h4 * (r4 * 5)) +
      2 ^ 104 * (h0 * r4 + h1 * r3 + h2 * r2 + h3 * r1 + h4 * r0) + K * poly_p"
    for h0 h1 h2 h3 h4 r0 r1 r2 r3 r4 :: nat
    by (rule exI [of _ "h1 * r4 + h2 * r3 + h3 * r2 + h4 * r1 + 2 ^ 26 * (h2 * r4 + h3 * r3 + h4 * r2) +
          2 ^ 52 * (h3 * r4 + h4 * r3) + 2 ^ 78 * (h4 * r4)"])
      (simp add: algebra_simps poly_p_def)
  obtain K where "limbs_val h * limbs_val r = limbs_val (mul_limbs h r) + K * poly_p"
    using r unfolding limbs_val_def mul_limbs_eq [OF assms] by blast
  then show ?thesis by simp
qed

text \<open>The carries, over the natural numbers.\<close>

lemma carry_val:
  fixes d0 d1 d2 d3 d4 :: nat
  defines "t1 \<equiv> d0 div 2 ^ 26 + d1"
  defines "t2 \<equiv> t1 div 2 ^ 26 + d2"
  defines "t3 \<equiv> t2 div 2 ^ 26 + d3"
  defines "t4 \<equiv> t3 div 2 ^ 26 + d4"
  defines "u \<equiv> d0 mod 2 ^ 26 + t4 div 2 ^ 26 * 5"
  shows "d0 + 2 ^ 26 * d1 + 2 ^ 52 * d2 + 2 ^ 78 * d3 + 2 ^ 104 * d4 =
    u mod 2 ^ 26 + 2 ^ 26 * (t1 mod 2 ^ 26 + u div 2 ^ 26) + 2 ^ 52 * (t2 mod 2 ^ 26) +
    2 ^ 78 * (t3 mod 2 ^ 26) + 2 ^ 104 * (t4 mod 2 ^ 26) + t4 div 2 ^ 26 * poly_p"
proof -
  have l: "d0 = 2 ^ 26 * q0 + m0 \<Longrightarrow> q0 + d1 = 2 ^ 26 * q1 + m1 \<Longrightarrow> q1 + d2 = 2 ^ 26 * q2 + m2 \<Longrightarrow>
      q2 + d3 = 2 ^ 26 * q3 + m3 \<Longrightarrow> q3 + d4 = 2 ^ 26 * q4 + m4 \<Longrightarrow> m0 + q4 * 5 = 2 ^ 26 * q5 + m5 \<Longrightarrow>
      d0 + 2 ^ 26 * d1 + 2 ^ 52 * d2 + 2 ^ 78 * d3 + 2 ^ 104 * d4 =
      m5 + 2 ^ 26 * (m1 + q5) + 2 ^ 52 * m2 + 2 ^ 78 * m3 + 2 ^ 104 * m4 + q4 * (2 ^ 130 - 5)"
    for q0 q1 q2 q3 q4 q5 m0 m1 m2 m3 m4 m5 :: nat
    by simp
  have x: "n = 2 ^ 26 * (n div 2 ^ 26) + n mod 2 ^ 26" for n :: nat by simp
  show ?thesis
    unfolding poly_p_def
  proof (rule l [OF x])
    show "d0 div 2 ^ 26 + d1 = 2 ^ 26 * (t1 div 2 ^ 26) + t1 mod 2 ^ 26"
      by (subst t1_def [symmetric]) (rule x)
    show "t1 div 2 ^ 26 + d2 = 2 ^ 26 * (t2 div 2 ^ 26) + t2 mod 2 ^ 26"
      by (subst t2_def [symmetric]) (rule x)
    show "t2 div 2 ^ 26 + d3 = 2 ^ 26 * (t3 div 2 ^ 26) + t3 mod 2 ^ 26"
      by (subst t3_def [symmetric]) (rule x)
    show "t3 div 2 ^ 26 + d4 = 2 ^ 26 * (t4 div 2 ^ 26) + t4 mod 2 ^ 26"
      by (subst t4_def [symmetric]) (rule x)
    show "d0 mod 2 ^ 26 + t4 div 2 ^ 26 * 5 = 2 ^ 26 * (u div 2 ^ 26) + u mod 2 ^ 26"
      by (subst u_def [symmetric]) (rule x)
  qed
qed

lemma carry_step: "unat c < 2 ^ 62 \<Longrightarrow> unat d < 2 ^ 62 \<Longrightarrow>
    unat (c + d) = unat c + unat d \<and> unat (drop_bit 26 (c + d)) < 2 ^ 62" for c d :: u64
  using unat_sum [of c d] by (simp add: div_less_iff_less_mult)

lemma carry_limbs_ok:
  assumes "limbs_below (2 ^ 60) d"
  shows "limbs_ok (carry_limbs d) \<and> limbs_val (carry_limbs d) mod poly_p = limbs_val d mod poly_p"
proof -
  define t1 where "t1 = drop_bit 26 (limb0 d) + limb1 d"
  define t2 where "t2 = drop_bit 26 t1 + limb2 d"
  define t3 where "t3 = drop_bit 26 t2 + limb3 d"
  define t4 where "t4 = drop_bit 26 t3 + limb4 d"
  define u where "u = (limb0 d AND 0x03ffffff) + drop_bit 26 t4 * 5"
  have d: "unat (limb0 d) < 2 ^ 60" "unat (limb1 d) < 2 ^ 60" "unat (limb2 d) < 2 ^ 60"
    "unat (limb3 d) < 2 ^ 60" "unat (limb4 d) < 2 ^ 60"
    using assms by (simp_all add: limbs_below_def)
  have s: "unat (drop_bit 26 x + y) = unat x div 2 ^ 26 + unat y" "unat (drop_bit 26 x + y) < 2 ^ 61"
    if "unat x < 2 ^ 61" "unat y < 2 ^ 60" for x y :: u64
    using that unat_sum [of "drop_bit 26 x" y] by (simp_all add: div_less_iff_less_mult)
  have "unat (limb0 d) < 2 ^ 61" using d(1) by simp
  note t1 = s [OF this d(2), folded t1_def]
  note t2 = s [OF t1(2) d(3), folded t2_def]
  note t3 = s [OF t2(2) d(4), folded t3_def]
  note t4 = s [OF t3(2) d(5), folded t4_def]
  have c: "unat t4 div 2 ^ 26 < 2 ^ 35" using t4(2) by (simp add: div_less_iff_less_mult)
  have u: "unat u = unat (limb0 d) mod 2 ^ 26 + unat t4 div 2 ^ 26 * 5" "unat u < 2 ^ 26 * 2 ^ 12"
    using c mod_less_divisor [of "2 ^ 26" "unat (limb0 d)"]
      unat_prod [of "drop_bit 26 t4" 5] unat_sum [of "limb0 d AND 0x03ffffff" "drop_bit 26 t4 * 5"]
    by (simp_all add: u_def)
  have e: "carry_limbs d = \<lparr>limb0 = u AND 0x03ffffff, limb1 = (t1 AND 0x03ffffff) + drop_bit 26 u,
      limb2 = t2 AND 0x03ffffff, limb3 = t3 AND 0x03ffffff, limb4 = t4 AND 0x03ffffff\<rparr>"
    by (simp add: carry_limbs_def Let_def u_def t4_def t3_def t2_def t1_def)
  have h1: "unat ((t1 AND 0x03ffffff) + drop_bit 26 u) = unat t1 mod 2 ^ 26 + unat u div 2 ^ 26"
    using u(2) unat_sum [of "t1 AND 0x03ffffff" "drop_bit 26 u"] mod_less_divisor [of "2 ^ 26" "unat t1"]
    by (simp add: div_less_iff_less_mult)
  have "limbs_val d = limbs_val (carry_limbs d) + unat t4 div 2 ^ 26 * poly_p"
    using carry_val [of "unat (limb0 d)" "unat (limb1 d)" "unat (limb2 d)" "unat (limb3 d)" "unat (limb4 d)",
        folded t1(1), folded t2(1), folded t3(1), folded t4(1), folded u(1)]
    unfolding limbs_val_def e limbs.simps h1 unat_mask26 .
  moreover have "limbs_ok (carry_limbs d)"
  proof -
    have "unat u div 2 ^ 26 < 2 ^ 12" using u(2) by (simp add: div_less_iff_less_mult)
    moreover have "n mod 2 ^ 26 < 2 ^ 26" for n :: nat by simp
    ultimately show ?thesis
      unfolding limbs_ok_def e limbs.simps h1 unat_mask26 by (intro conjI add_strict_mono)
  qed
  ultimately show ?thesis by simp
qed
section \<open>A block\<close>

lemma block_shape:
  assumes "length block = 17" "unat (block ! 16) \<le> 1" "limbs_ok h"
  shows "limbs_below (2 ^ 28) (add_block h block) \<and>
    limbs_val (add_block h block) = limbs_val h + le_val block"
proof -
  let ?b = "load_limbs block"
  have h: "unat (limb0 h) < 2 ^ 27" "unat (limb1 h) < 2 ^ 27" "unat (limb2 h) < 2 ^ 27"
    "unat (limb3 h) < 2 ^ 27" "unat (limb4 h) < 2 ^ 27"
    using assms(3) by (simp_all add: limbs_ok_def)
  have l: "16 \<le> length block" using assms(1) by simp
  have b: "unat (limb0 ?b) < 2 ^ 26" "unat (limb1 ?b) < 2 ^ 26" "unat (limb2 ?b) < 2 ^ 26"
    "unat (limb3 ?b) < 2 ^ 26"
    using load_limbs_below [OF l] by (simp_all only: limbs_below_def)
  have b4: "unat (limb4 ?b) < 2 ^ 24" unfolding load_limbs_eq [OF l] by simp
  have top: "unat (limb4 ?b OR push_bit 24 (ucast (block ! 16))) = unat (limb4 ?b) + 2 ^ 24 * unat (block ! 16)"
    using b4 assms(2) by (intro or_push_eq) (simp_all add: unat_ucast_byte)
  have s: "unat (x + y) = unat x + unat y" "unat (x + y) < 2 ^ 28" if "unat x < 2 ^ 27" "unat y < 2 ^ 27"
    for x y :: u64
    using that unat_sum [of x y] by simp_all
  have b': "unat (limb0 ?b) < 2 ^ 27" "unat (limb1 ?b) < 2 ^ 27" "unat (limb2 ?b) < 2 ^ 27"
    "unat (limb3 ?b) < 2 ^ 27" "unat (limb4 ?b OR push_bit 24 (ucast (block ! 16))) < 2 ^ 27"
    using b b4 assms(2) by (simp_all add: top)
  note a = s [OF h(1) b'(1)] s [OF h(2) b'(2)] s [OF h(3) b'(3)] s [OF h(4) b'(4)] s [OF h(5) b'(5)]
  have lv: "le_val block = le_val (take 16 block) + 2 ^ 128 * unat (block ! 16)"
  proof -
    have "drop 16 block = [block ! 16]" using assms(1) Cons_nth_drop_Suc [of 16 block] by simp
    then have "le_val (take 16 block @ drop 16 block) = le_val (take 16 block) + 2 ^ 128 * unat (block ! 16)"
      unfolding le_val_append using assms(1) by simp
    then show ?thesis by (simp only: append_take_drop_id)
  qed
  have "load_limbs block = load_limbs (take 16 block)"
    using assms(1) by (simp add: load_limbs_def read_le32_def)
  then have "limbs_val ?b = le_val (take 16 block)"
    using limbs_val_load [of "take 16 block"] le_val_less [of "take 16 block"] assms(1) by simp
  moreover have "limbs_val (add_block h block) = limbs_val h + limbs_val ?b + 2 ^ 128 * unat (block ! 16)"
    unfolding limbs_val_def add_block_def Let_def limbs.simps a top by simp
  moreover have "limbs_below (2 ^ 28) (add_block h block)"
    unfolding limbs_below_def add_block_def Let_def limbs.simps using a by simp
  ultimately show ?thesis using lv by simp
qed

lemma le_val_replicate [simp]: "le_val (replicate n 0) = 0"
  by (induction n) simp_all

lemma message_block_eq:
  assumes "offset < length msg" "n = min 16 (length msg - offset)"
  shows "length (message_block msg offset n) = 17 \<and> unat (message_block msg offset n ! 16) \<le> 1 \<and>
    le_val (message_block msg offset n) = le_val (take 16 (drop offset msg) @ [1])"
proof -
  have n: "n \<le> 16" "take n (drop offset msg) = take 16 (drop offset msg)" "length (take 16 (drop offset msg)) = n"
    using assms by (auto simp: min_def)
  have "replicate (17 - n) (0 :: byte) = 0 # replicate (16 - n) 0"
    using n(1) by (cases "17 - n") (auto simp: Suc_diff_le)
  then have m: "message_block msg offset n = take 16 (drop offset msg) @ 1 # replicate (16 - n) 0"
    using n(3) unfolding message_block_def n(2) by (metis list_update_length)
  moreover have "unat (message_block msg offset n ! 16) \<le> 1"
  proof -
    have "(1 # replicate k (0 :: byte)) ! k = (if k = 0 then 1 else 0)" for k by (cases k) (simp_all del: replicate_Suc)
    then show ?thesis unfolding m nth_append n(3) using n(1) by simp
  qed
  moreover have "length (message_block msg offset n) = 17" unfolding m length_append n(3) using n(1) by simp
  moreover have "le_val (message_block msg offset n) = le_val (take 16 (drop offset msg) @ [1])"
    unfolding m le_val_append by simp
  ultimately show ?thesis by blast
qed

lemma mod_shift: "((a mod p + m) * r) mod p = ((a + m) * r) mod p" for a m r p :: nat
  by (metis mod_add_left_eq mod_mult_left_eq)

lemma mac_loop_eq:
  assumes "limbs_below (2 ^ 26) r" "limbs_ok h" "offset \<le> length msg"
  shows "limbs_ok (mac_loop r msg (length msg) offset h) \<and>
    limbs_val (mac_loop r msg (length msg) offset h) mod poly_p =
      poly_eval (limbs_val r) (drop offset msg) (limbs_val h mod poly_p)"
  using assms
proof (induction r msg "length msg" offset h rule: mac_loop.induct)
  case (1 r msg offset h)
  show ?case
  proof (cases "offset < length msg")
    case True
    define n where "n = (if length msg - offset \<ge> 16 then 16 else length msg - offset)"
    then have n: "n = min 16 (length msg - offset)" by simp
    note b = message_block_eq [OF True n]
    define h' where "h' = carry_limbs (mul_limbs (add_block h (message_block msg offset n)) r)"
    note s = block_shape [of "message_block msg offset n" h] 
    have bl: "limbs_below (2 ^ 28) (add_block h (message_block msg offset n))"
      and v: "limbs_val (add_block h (message_block msg offset n)) =
        limbs_val h + le_val (take 16 (drop offset msg) @ [1])"
      using s b "1.prems" by simp_all
    have ok: "limbs_ok h'" and v': "limbs_val h' mod poly_p =
        (limbs_val h + le_val (take 16 (drop offset msg) @ [1])) * limbs_val r mod poly_p"
      using carry_limbs_ok [OF mul_limbs_eq(6) [OF bl "1.prems"(1)]] mul_limbs_val [OF bl "1.prems"(1)] v
      by (simp_all add: h'_def)
    have "mac_loop r msg (length msg) offset h = mac_loop r msg (length msg) (offset + n) h'"
      using True by (subst mac_loop.simps) (simp add: Let_def n_def h'_def)
    moreover have "drop (offset + n) msg = drop 16 (drop offset msg)"
      using n by (auto simp: min_def add.commute)
    moreover have "offset + n \<le> length msg" using True n by simp
    moreover have "limbs_ok (mac_loop r msg (length msg) (offset + n) h') \<and>
        limbs_val (mac_loop r msg (length msg) (offset + n) h') mod poly_p =
        poly_eval (limbs_val r) (drop (offset + n) msg) (limbs_val h' mod poly_p)"
      using "1.hyps" [OF True n_def refl] "1.prems"(1) ok calculation(3) by (simp add: h'_def)
    moreover have "poly_eval (limbs_val r) (drop offset msg) (limbs_val h mod poly_p) =
        poly_eval (limbs_val r) (drop 16 (drop offset msg)) (limbs_val h' mod poly_p)"
      using True by (subst poly_eval.simps) (simp add: v' mod_shift)
    ultimately show ?thesis by simp
  next
    case False
    then show ?thesis
      using "1.prems" mac_loop.simps [of r msg "length msg" offset h] by (simp add: poly_eval.simps)
  qed
qed
section \<open>The final reduction and the tag\<close>

text \<open>After one pass every limb has 26 bits, and a second one changes nothing.\<close>

lemma reduce_pass_ok:
  assumes "limbs_ok h"
  shows "limbs_below (2 ^ 26) (reduce_pass h) \<and> limbs_val (reduce_pass h) mod poly_p = limbs_val h mod poly_p"
proof -
  let ?d = "\<lparr>limb0 = 0, limb1 = limb1 h, limb2 = limb2 h, limb3 = limb3 h, limb4 = limb4 h\<rparr>"
  define t2 where "t2 = limb2 h + drop_bit 26 (limb1 h)"
  define t3 where "t3 = limb3 h + drop_bit 26 t2"
  define t4 where "t4 = limb4 h + drop_bit 26 t3"
  define u where "u = limb0 h + drop_bit 26 t4 * 5"
  have h: "unat (limb0 h) < 2 ^ 26" "unat (limb1 h) < 2 ^ 26 + 2 ^ 12" "unat (limb2 h) < 2 ^ 26"
    "unat (limb3 h) < 2 ^ 26" "unat (limb4 h) < 2 ^ 26"
    using assms by (simp_all add: limbs_ok_def)
  have s: "unat (y + drop_bit 26 x) = unat y + unat x div 2 ^ 26" "unat (y + drop_bit 26 x) < 2 ^ 27"
    if "unat x < 2 ^ 27" "unat y < 2 ^ 26" for x y :: u64
    using that unat_sum [of y "drop_bit 26 x"] by (simp_all add: div_less_iff_less_mult)
  have "unat (limb1 h) < 2 ^ 27" using h(2) by simp
  note t2 = s [OF this h(3), folded t2_def]
  note t3 = s [OF t2(2) h(4), folded t3_def]
  note t4 = s [OF t3(2) h(5), folded t4_def]
  have c: "unat t4 div 2 ^ 26 < 2" using t4(2) by (simp add: div_less_iff_less_mult)
  have u: "unat u = unat (limb0 h) + unat t4 div 2 ^ 26 * 5"
    using c h(1) unat_prod [of "drop_bit 26 t4" 5] unat_sum [of "limb0 h" "drop_bit 26 t4 * 5"]
    by (simp add: u_def)
  have e: "reduce_pass h = \<lparr>limb0 = u AND 0x03ffffff, limb1 = (limb1 h AND 0x03ffffff) + drop_bit 26 u,
      limb2 = t2 AND 0x03ffffff, limb3 = t3 AND 0x03ffffff, limb4 = t4 AND 0x03ffffff\<rparr>"
    by (simp add: reduce_pass_def Let_def u_def t4_def t3_def t2_def)
  have ub: "unat u div 2 ^ 26 < 2" using u c h(1) by (simp add: div_less_iff_less_mult)
  have h1: "unat ((limb1 h AND 0x03ffffff) + drop_bit 26 u) = unat (limb1 h) mod 2 ^ 26 + unat u div 2 ^ 26"
    using ub unat_sum [of "limb1 h AND 0x03ffffff" "drop_bit 26 u"] mod_less_divisor [of "2 ^ 26" "unat (limb1 h)"]
    by simp
  have "unat (limb1 h) mod 2 ^ 26 + unat u div 2 ^ 26 < 2 ^ 26"
  proof (cases "unat (limb1 h) < 2 ^ 26")
    case True
    then have "unat t2 = unat (limb2 h)" using t2(1) by simp
    then have "unat t3 = unat (limb3 h)" using t3(1) h(3) by simp
    then have "unat t4 = unat (limb4 h)" using t4(1) h(4) by simp
    then have "unat u = unat (limb0 h)" using u h(5) by simp
    then show ?thesis using True h(1) by simp
  next
    case False
    then have "unat (limb1 h) mod 2 ^ 26 = unat (limb1 h) - 2 ^ 26"
      using h(2) by (simp add: mod_if)
    then show ?thesis using False h(2) ub by simp
  qed
  moreover have "n mod 2 ^ 26 < 2 ^ 26" for n :: nat by simp
  ultimately have "limbs_below (2 ^ 26) (reduce_pass h)"
    unfolding limbs_below_def e limbs.simps h1 unat_mask26 by (intro conjI)
  moreover have "limbs_val h = limbs_val (reduce_pass h) + unat t4 div 2 ^ 26 * poly_p"
  proof -
    have l: "d1 = 2 ^ 26 * q1 + m1 \<Longrightarrow> d2 + q1 = 2 ^ 26 * q2 + m2 \<Longrightarrow> d3 + q2 = 2 ^ 26 * q3 + m3 \<Longrightarrow>
        d4 + q3 = 2 ^ 26 * q4 + m4 \<Longrightarrow> d0 + q4 * 5 = 2 ^ 26 * q5 + m5 \<Longrightarrow>
        d0 + 2 ^ 26 * d1 + 2 ^ 52 * d2 + 2 ^ 78 * d3 + 2 ^ 104 * d4 =
        m5 + 2 ^ 26 * (m1 + q5) + 2 ^ 52 * m2 + 2 ^ 78 * m3 + 2 ^ 104 * m4 + q4 * (2 ^ 130 - 5)"
      for d0 d1 d2 d3 d4 q1 q2 q3 q4 q5 m1 m2 m3 m4 m5 :: nat
      by simp
    have x: "n = 2 ^ 26 * (n div 2 ^ 26) + n mod 2 ^ 26" for n :: nat by simp
    show ?thesis
      unfolding limbs_val_def e limbs.simps h1 unat_mask26 poly_p_def
      by (rule l [OF x trans [OF t2(1) [symmetric] x] trans [OF t3(1) [symmetric] x]
            trans [OF t4(1) [symmetric] x] trans [OF u [symmetric] x]])
  qed
  ultimately show ?thesis by simp
qed

lemma reduce_pass_id:
  assumes "limbs_below (2 ^ 26) h"
  shows "reduce_pass h = h"
proof -
  have m: "x AND 0x03ffffff = x" "drop_bit 26 x = 0" if "unat x < 2 ^ 26" for x :: u64
    using that by (simp_all add: word_unat_eq_iff)
  show ?thesis using assms by (cases h) (simp add: limbs_below_def reduce_pass_def m)
qed
lemma length_write_le64 [simp]: "length (write_le64 d v) = length d"
  by (simp add: write_le64_def upt_rec)

lemma le_val_write_le64:
  assumes "8 \<le> length d"
  shows "le_val (take 8 (write_le64 d v)) = unat v"
  using unat_read_le64 [of "write_le64 d v"] assms be64_roundtrip(2) [of d v] by simp

lemma add_with_carry:
  fixes a b :: u64
  shows "unat (a + b) + 2 ^ 64 * (if a + b < b then 1 else 0) = unat a + unat b"
proof (cases "unat a + unat b < 2 ^ 64")
  case True
  then have "unat (a + b) = unat a + unat b" by (rule unat_sum)
  then show ?thesis by (simp add: word_less_nat_alt)
next
  case False
  have "unat a < 2 ^ 64" "unat b < 2 ^ 64" using unsigned_less [of a] unsigned_less [of b] by simp_all
  moreover have "unat (a + b) = unat a + unat b - 2 ^ 64"
    using False calculation by (simp add: unat_word_ariths mod_if)
  ultimately show ?thesis using False by (simp add: word_less_nat_alt)
qed

lemma two_words:
  fixes a b c d x y z :: nat
  assumes "a + 2 ^ 64 * c = x + y" "b = z mod 2 ^ 64" "a < 2 ^ 64" "z = d + w + c"
  shows "a + 2 ^ 64 * b = (x + 2 ^ 64 * d + y + 2 ^ 64 * w) mod 2 ^ 128"
proof -
  have "x + 2 ^ 64 * d + y + 2 ^ 64 * w = a + 2 ^ 64 * z" using assms(1,4) by simp
  moreover have "(a + 2 ^ 64 * z) mod (2 ^ 64 * 2 ^ 64) = 2 ^ 64 * ((a + 2 ^ 64 * z) div 2 ^ 64 mod 2 ^ 64) +
      (a + 2 ^ 64 * z) mod 2 ^ 64"
    by (rule mod_mult2_eq)
  moreover have "(a + 2 ^ 64 * z) div 2 ^ 64 = z" "(a + 2 ^ 64 * z) mod 2 ^ 64 = a"
    using assms(3) by simp_all
  ultimately show ?thesis unfolding assms(2) by (simp flip: power_add)
qed

lemma finish_tag_eq:
  assumes "limbs_below (2 ^ 26) h" "length tag = 16"
  shows "length (finish_tag h s_lo s_hi tag) = 16 \<and>
    le_val (finish_tag h s_lo s_hi tag) = (limbs_val h + unat s_lo + 2 ^ 64 * unat s_hi) mod 2 ^ 128"
proof -
  define H0 H1 H2 H3 H4 where H: "H0 = unat (limb0 h)" "H1 = unat (limb1 h)" "H2 = unat (limb2 h)"
    "H3 = unat (limb3 h)" "H4 = unat (limb4 h)"
  have b: "H0 < 2 ^ 26" "H1 < 2 ^ 26" "H2 < 2 ^ 26" "H3 < 2 ^ 26" "H4 < 2 ^ 26"
    using assms(1) by (simp_all add: limbs_below_def H)
  define g0 where "g0 = limb0 h OR push_bit 26 (limb1 h) OR push_bit 52 (limb2 h AND 0xFFF)"
  define g1 where "g1 = drop_bit 12 (limb2 h) OR push_bit 14 (limb3 h) OR push_bit 40 (limb4 h AND 0xFFFFFF)"
  have g0: "unat g0 = (H0 + 2 ^ 26 * H1) + 2 ^ 52 * (H2 mod 2 ^ 12)"
    unfolding g0_def or.assoc [symmetric] by (intro or_push_eq) (use b in \<open>simp_all add: H\<close>)
  have g1: "unat g1 = (H2 div 2 ^ 12 + 2 ^ 14 * H3) + 2 ^ 40 * (H4 mod 2 ^ 24)"
    unfolding g1_def or.assoc [symmetric] by (intro or_push_eq) (use b in \<open>simp_all add: H\<close>)
  have sum: "limbs_val h mod 2 ^ 128 = unat g0 + 2 ^ 64 * unat g1"
  proof -
    have l: "h2 = 2 ^ 12 * q + m \<Longrightarrow> h4 = 2 ^ 24 * q' + m' \<Longrightarrow>
        h0 + 2 ^ 26 * h1 + 2 ^ 52 * h2 + 2 ^ 78 * h3 + 2 ^ 104 * h4 =
        h0 + 2 ^ 26 * h1 + 2 ^ 52 * m + 2 ^ 64 * (q + 2 ^ 14 * h3 + 2 ^ 40 * m') + 2 ^ 128 * q'"
      for h0 h1 h2 h3 h4 q m q' m' :: nat by simp
    have x: "n = 2 ^ k * (n div 2 ^ k) + n mod 2 ^ k" for n k :: nat by simp
    have "limbs_val h = unat g0 + 2 ^ 64 * unat g1 + 2 ^ 128 * (H4 div 2 ^ 24)"
      unfolding limbs_val_def g0 g1 H [symmetric] by (rule l [OF x x])
    moreover have "unat g0 < 2 ^ 64" "unat g1 < 2 ^ 64"
      using unsigned_less [of g0] unsigned_less [of g1] by simp_all
    ultimately show ?thesis by simp
  qed
  define c :: u64 where "c = (if g0 + s_lo < s_lo then 1 else 0)"
  define t where "t = write_le64 tag (g0 + s_lo)"
  have t: "length t = 16" "le_val (take 8 t) = unat (g0 + s_lo)"
    using assms(2) le_val_write_le64 [of tag "g0 + s_lo"] by (simp_all add: t_def)
  have e: "finish_tag h s_lo s_hi tag = take 8 t @ write_le64 (drop 8 t) (g1 + (s_hi + c))"
    by (simp add: finish_tag_def Let_def g0_def g1_def c_def t_def)
  have "le_val (write_le64 (drop 8 t) (g1 + (s_hi + c))) = unat (g1 + (s_hi + c))"
    using le_val_write_le64 [of "drop 8 t"] t(1) by simp
  then have le: "le_val (finish_tag h s_lo s_hi tag) = unat (g0 + s_lo) + 2 ^ 64 * unat (g1 + (s_hi + c))"
    unfolding e le_val_append using t by simp
  have "unat (g0 + s_lo) + 2 ^ 64 * unat c = unat g0 + unat s_lo"
    using add_with_carry [of g0 s_lo] by (simp add: c_def split: if_splits)
  moreover have "unat (g1 + (s_hi + c)) = (unat g1 + unat s_hi + unat c) mod 2 ^ 64"
    by (simp add: unat_word_ariths mod_simps add.assoc)
  moreover have "unat (g0 + s_lo) < 2 ^ 64" using unsigned_less [of "g0 + s_lo"] by simp
  ultimately have "le_val (finish_tag h s_lo s_hi tag) =
      (unat g0 + 2 ^ 64 * unat g1 + unat s_lo + 2 ^ 64 * unat s_hi) mod 2 ^ 128"
    unfolding le by (intro two_words) simp_all
  then show ?thesis
    unfolding sum [symmetric] using t by (simp add: e mod_simps add.assoc)
qed
section \<open>The clamp\<close>

lemma and_byte_split:
  fixes u v m n :: nat
  assumes "u < 256" "m < 256"
  shows "(u + 256 * v) AND (m + 256 * n) = (u AND m) + 256 * (v AND n)"
proof -
  have s: "take_bit 8 (a + 256 * b) = a" "drop_bit 8 (a + 256 * b) = b" if "a < 256" for a b :: nat
    using that by (simp_all add: take_bit_eq_mod drop_bit_eq_div)
  have "take_bit 8 ((u + 256 * v) AND (m + 256 * n)) = u AND m"
    by (simp only: take_bit_and s assms)
  moreover have "drop_bit 8 ((u + 256 * v) AND (m + 256 * n)) = v AND n"
    by (simp only: drop_bit_and s assms)
  ultimately show ?thesis
    using bits_ident [of 8 "(u + 256 * v) AND (m + 256 * n)"]
    by (simp add: push_bit_nat_def)
qed

lemma le_val_and:
  "length xs = length ms \<Longrightarrow> le_val (map2 (AND) xs ms) = (le_val xs AND le_val ms)"
proof (induction xs ms rule: list_induct2)
  case (Cons x xs m ms)
  then show ?case
    using and_byte_split [OF byte_less [of x] byte_less [of m]] by (simp add: unsigned_and_eq)
qed simp

lemma clamp_eq:
  assumes "length r = 16"
  shows "length (poly1305_clamp r) = 16 \<and> le_val (poly1305_clamp r) = (le_val r AND clamp_mask)"
proof -
  let ?m = "[-1, -1, -1, 15, 252, -1, -1, 15, 252, -1, -1, 15, 252, -1, -1, 15] :: byte list"
  obtain a b c d r' where r: "r = a # b # c # d # r'" using list_of_4 [of r] assms by auto
  obtain a' b' c' d' s where s: "r' = a' # b' # c' # d' # s" using list_of_4 [of r'] r assms by auto
  obtain e f g h s' where s': "s = e # f # g # h # s'" using list_of_4 [of s] r s assms by auto
  obtain e' f' g' h' where "s' = [e', f', g', h']" using list_of_4 [of s'] r s s' assms by auto
  then have "poly1305_clamp r = map2 (AND) r ?m"
    using r s s' by (simp add: poly1305_clamp_def Let_def)
  moreover have "le_val ?m = clamp_mask" 
    by (simp add: clamp_mask_def unsigned_minus_1_eq_mask mask_eq_exp_minus_1)
  ultimately show ?thesis using le_val_and [of r ?m] assms by simp
qed

section \<open>The tag\<close>

text \<open>The number the code reduces to is below \<open>2 ^ 130\<close> and congruent to the polynomial.\<close>

definition mac_limbs :: "byte list \<Rightarrow> byte list \<Rightarrow> limbs" where
  "mac_limbs key msg = reduce_pass (reduce_pass (mac_loop (load_limbs (poly1305_clamp (take 16 key)))
    msg (length msg) 0 \<lparr>limb0 = 0, limb1 = 0, limb2 = 0, limb3 = 0, limb4 = 0\<rparr>))"

lemma poly1305_mac_limbs:
  "poly1305_mac key msg (length msg) tag =
    finish_tag (mac_limbs key msg) (read_le64 (drop 16 key)) (read_le64 (drop 24 key)) tag"
  by (simp add: poly1305_mac_def mac_limbs_def Let_def)

lemma mac_limbs_ok:
  assumes "16 \<le> length key"
  shows "limbs_below (2 ^ 26) (mac_limbs key msg) \<and>
    limbs_val (mac_limbs key msg) mod poly_p = poly_eval (le_val (take 16 key) AND clamp_mask) msg 0"
proof -
  let ?c = "poly1305_clamp (take 16 key)"
  let ?h = "mac_loop (load_limbs ?c) msg (length msg) 0 \<lparr>limb0 = 0, limb1 = 0, limb2 = 0, limb3 = 0, limb4 = 0\<rparr>"
  have c: "length ?c = 16" "le_val ?c = (le_val (take 16 key) AND clamp_mask)"
    using clamp_eq [of "take 16 key"] assms by simp_all
  then have "limbs_val (load_limbs ?c) = le_val ?c"
    using le_val_less [of ?c] by (simp add: limbs_val_load)
  moreover have z: "limbs_ok \<lparr>limb0 = 0, limb1 = 0, limb2 = 0, limb3 = 0, limb4 = 0\<rparr>"
    "limbs_val \<lparr>limb0 = 0, limb1 = 0, limb2 = 0, limb3 = 0, limb4 = 0\<rparr> = 0"
    by (simp_all add: limbs_ok_def limbs_val_def)
  moreover have "limbs_below (2 ^ 26) (load_limbs ?c)" using c by (intro load_limbs_below) simp
  ultimately have h: "limbs_ok ?h" "limbs_val ?h mod poly_p = poly_eval (le_val (take 16 key) AND clamp_mask) msg 0"
    using mac_loop_eq [of "load_limbs ?c" "\<lparr>limb0 = 0, limb1 = 0, limb2 = 0, limb3 = 0, limb4 = 0\<rparr>" 0 msg] c
    by simp_all
  have "mac_limbs key msg = reduce_pass ?h"
    unfolding mac_limbs_def by (rule reduce_pass_id [OF reduce_pass_ok [OF h(1), THEN conjunct1]])
  then show ?thesis using reduce_pass_ok [OF h(1)] h(2) by simp
qed

lemma limbs_val_less: "limbs_below (2 ^ 26) h \<Longrightarrow> limbs_val h < 2 ^ 130"
  by (simp add: limbs_below_def limbs_val_def)

definition poly_residue :: "byte list \<Rightarrow> byte list \<Rightarrow> nat" where
  "poly_residue key msg = poly_eval (le_val (take 16 key) AND clamp_mask) msg 0"

lemma le_val_halves:
  assumes "32 \<le> length key"
  shows "unat (read_le64 (drop 16 key)) + 2 ^ 64 * unat (read_le64 (drop 24 key)) = le_val (take 16 (drop 16 key))"
proof -
  have "take 16 (drop 16 key) = take 8 (drop 16 key) @ take 8 (drop 24 key)"
    using take_add [of 8 8 "drop 16 key"] by simp
  then show ?thesis using assms by (simp add: le_val_append unat_read_le64)
qed

text \<open>C37 (poly1305_mac_correct)
  The tag is the number of RFC 8439 plus the second 16 bytes of the key, modulo \<open>2 ^ 128\<close>: the value
  added is congruent to the polynomial in the clamped first 16 bytes and below \<open>2 ^ 130\<close>, and it is the
  polynomial's residue itself whenever that residue is at least 5.\<close>

theorem poly1305_mac_correct:
  assumes "32 \<le> length key" "length tag = 16"
  shows "length (poly1305_mac key msg (length msg) tag) = 16 \<and>
    (\<exists>h \<in> {poly_residue key msg, poly_residue key msg + poly_p}. h < 2 ^ 130 \<and>
      le_val (poly1305_mac key msg (length msg) tag) = (h + le_val (take 16 (drop 16 key))) mod 2 ^ 128) \<and>
    (5 \<le> poly_residue key msg \<longrightarrow>
      le_val (poly1305_mac key msg (length msg) tag) = (poly_residue key msg + le_val (take 16 (drop 16 key))) mod 2 ^ 128)"
proof -
  define h where "h = limbs_val (mac_limbs key msg)"
  have l: "limbs_below (2 ^ 26) (mac_limbs key msg)" and a: "h mod poly_p = poly_residue key msg"
    using mac_limbs_ok [of key msg] assms(1) by (simp_all add: poly_residue_def h_def)
  have h130: "h < 2 ^ 130" using limbs_val_less [OF l] by (simp add: h_def)
  have "h = poly_residue key msg \<or> h = poly_residue key msg + poly_p \<and> poly_residue key msg < 5"
  proof (cases "h < poly_p")
    case False
    then have "h - poly_p < poly_p" using h130 by (simp add: poly_p_def)
    then have "h mod poly_p = h - poly_p" using False by (simp add: mod_if)
    then have "poly_residue key msg = h - poly_p" using a by simp
    then have "h = poly_residue key msg + poly_p" "poly_residue key msg < 5"
      using False h130 by (linarith, simp add: poly_p_def)
    then show ?thesis by blast
  qed (use a in simp)
  moreover have "length (poly1305_mac key msg (length msg) tag) = 16 \<and>
      le_val (poly1305_mac key msg (length msg) tag) = (h + le_val (take 16 (drop 16 key))) mod 2 ^ 128"
    using finish_tag_eq [OF l assms(2), of "read_le64 (drop 16 key)" "read_le64 (drop 24 key)"]
      le_val_halves [of key] assms(1) by (simp add: poly1305_mac_limbs h_def add.assoc)
  ultimately show ?thesis using h130 by auto
qed

lemma poly1305_mac_correct_witness:
  "le_val (poly1305_mac (1 # replicate 31 0) [9] 1 (replicate 16 0)) = 265"
proof -
  have "poly_residue (1 # replicate 31 0) [9] = 265"
    by (simp add: poly_residue_def poly_eval.simps clamp_mask_def poly_p_def)
  then show ?thesis
    using poly1305_mac_correct [of "1 # replicate 31 0" "replicate 16 0" "[9]"] by simp
qed

lemma le_val_inject: "length xs = length ys \<Longrightarrow> le_val xs = le_val ys \<longleftrightarrow> xs = ys"
proof (induction xs ys rule: list_induct2)
  case (Cons x xs y ys)
  have d: "(unat z + 256 * c) mod 256 = unat z" "(unat z + 256 * c) div 256 = c" for z :: byte and c
    using byte_less [of z] by simp_all
  have "unat x + 256 * a = unat y + 256 * b \<longleftrightarrow> unat x = unat y \<and> a = b" for a b
    using d [of x a] d [of y b] by metis
  then show ?case using Cons by (simp add: word_unat_eq_iff)
qed simp

text \<open>Fact (poly1305_tag_unreduced)
  The final reduction never subtracts the modulus, so that when the residue is below 5 the code can add
  the modulus to it: on the test vector of RFC 8439 (A.3, number 7), whose residue is 3, the tag is
  \<open>FE FF ... FF\<close> where the document has \<open>03 00 ... 00\<close>.\<close>

theorem poly1305_tag_unreduced:
  "poly_residue (2 # replicate 31 0) (replicate 16 0xff) = 3 \<and>
   poly1305_mac (2 # replicate 31 0) (replicate 16 0xff) 16 (replicate 16 0) = 0xfe # replicate 15 0xff"
proof -
  have ff: "le_val (replicate n 0xff) + 1 = 256 ^ n" for n
  proof (induction n)
    case (Suc n)
    have "unat (0xff :: byte) = 255" by simp
    then have "le_val (replicate (Suc n) 0xff) + 1 = 256 * (le_val (replicate n 0xff) + 1)" 
      by (simp only: replicate.simps le_val.simps) simp
    then show ?case using Suc by simp
  qed simp
  let ?key = "2 # replicate 31 0 :: byte list" and ?msg = "replicate 16 0xff :: byte list"
  let ?r = "load_limbs (poly1305_clamp (take 16 ?key))" and ?b = "load_limbs (?msg @ [1])"
  have "le_val (?msg @ [1]) = 2 ^ 129 - 1"
    unfolding le_val_append using ff [of 16] by simp
  note b = load_limbs_eq [of "?msg @ [1]", unfolded this]
  have bl: "?b = \<lparr>limb0 = 0x3ffffff, limb1 = 0x3ffffff, limb2 = 0x3ffffff, limb3 = 0x3ffffff, limb4 = 0xffffff\<rparr>"
    using b by (cases ?b) (simp add: word_unat_eq_iff)
  have "le_val (poly1305_clamp (take 16 ?key)) = 2" "length (poly1305_clamp (take 16 ?key)) = 16"
    using clamp_eq [of "take 16 ?key"] by (simp_all add: clamp_mask_def)
  note r = load_limbs_eq [of "poly1305_clamp (take 16 ?key)", unfolded this]
  have rl: "?r = \<lparr>limb0 = 2, limb1 = 0, limb2 = 0, limb3 = 0, limb4 = 0\<rparr>"
    using r by (cases ?r) (simp add: word_unat_eq_iff)
  let ?h = "\<lparr>limb0 = 0x3fffffe, limb1 = 0x3ffffff, limb2 = 0x3ffffff, limb3 = 0x3ffffff, limb4 = 0x3ffffff\<rparr> :: limbs"
  have "message_block ?msg 0 16 = ?msg @ [1]"
    by (simp add: message_block_def list_update_append)
  moreover have "(?msg @ [1]) ! 16 = 1" by (simp add: nth_append)
  ultimately have "add_block \<lparr>limb0 = 0, limb1 = 0, limb2 = 0, limb3 = 0, limb4 = 0\<rparr> (message_block ?msg 0 16) =
      \<lparr>limb0 = 0x3ffffff, limb1 = 0x3ffffff, limb2 = 0x3ffffff, limb3 = 0x3ffffff, limb4 = 0x1ffffff\<rparr>"
    by (simp only: add_block_def Let_def bl limbs.simps) simp
  then have "mac_loop ?r ?msg 16 0 \<lparr>limb0 = 0, limb1 = 0, limb2 = 0, limb3 = 0, limb4 = 0\<rparr> = ?h"
    unfolding rl
    by (simp add: mac_loop.simps [of _ _ 16 0] mac_loop.simps [of _ _ 16 16] Let_def mul_limbs_def carry_limbs_def)
  moreover have "reduce_pass ?h = ?h" by (rule reduce_pass_id) (simp add: limbs_below_def)
  ultimately have m: "mac_limbs ?key ?msg = ?h" by (simp add: mac_limbs_def)
  have z: "8 \<le> n \<Longrightarrow> read_le64 (replicate n 0) = 0" for n
    by (simp add: word_unat_eq_iff unat_read_le64)
  have "le_val (poly1305_mac ?key ?msg 16 (replicate 16 0)) = 2 ^ 128 - 2"
    using finish_tag_eq [of "mac_limbs ?key ?msg" "replicate 16 0" 0 0] poly1305_mac_limbs [of ?key ?msg]
    by (simp add: z m limbs_below_def limbs_val_def)
  moreover have "le_val (0xfe # replicate 15 0xff) = 2 ^ 128 - 2" using ff [of 15] by simp
  moreover have "length (poly1305_mac ?key ?msg 16 (replicate 16 0)) = 16"
    using finish_tag_eq [of "mac_limbs ?key ?msg" "replicate 16 0" 0 0] poly1305_mac_limbs [of ?key ?msg]
    by (simp add: z m limbs_below_def)
  ultimately have "poly1305_mac ?key ?msg 16 (replicate 16 0) = 0xfe # replicate 15 0xff"
    using le_val_inject [of "poly1305_mac ?key ?msg 16 (replicate 16 0)" "0xfe # replicate 15 0xff"] by simp
  moreover have "poly_residue ?key ?msg = 3"
    using mac_limbs_ok [of ?key ?msg] by (simp add: m poly_residue_def limbs_val_def poly_p_def)
  ultimately show ?thesis by blast
qed

end
