(* ===== verification/Aead.thy ===== *)
theory Aead
  imports ChaCha Poly1305
begin

unbundle bit_operations_syntax

text \<open>
\<open>chacha20_poly1305::encrypt\<close> and \<open>decrypt\<close> of \<open>src/core/encrypt/chacha20_poly1305.cpp\<close>, over the
cipher of theory \<open>ChaCha\<close> and the authenticator of theory \<open>Poly1305\<close>.  A view is the list of its
bytes, the tag pointer an optional buffer, and each exception a value of \<open>aead_error\<close>.  A local
array starts with zeros here; the code writes all of it before it reads it.
\<close>

section \<open>The code\<close>

definition secure_compare :: "byte list \<Rightarrow> byte list \<Rightarrow> nat \<Rightarrow> bool" where
  "secure_compare a b len \<longleftrightarrow> foldl (\<lambda>diff i. diff OR (a ! i XOR b ! i)) 0 [0..<len] \<noteq> 0"

definition pad16_len :: "nat \<Rightarrow> nat" where
  "pad16_len len = (16 - len mod 16) mod 16"

datatype aead_error = Key_Size | Nonce_Size | Null_Tag | Tag_Size | Authentication_Failed

text \<open>The bytes the tag is computed from, which both operations assemble in the same way.\<close>

definition poly_msg :: "byte list \<Rightarrow> byte list \<Rightarrow> byte list" where
  "poly_msg aad ciphertext =
    (let msg = [] @ aad;
         msg = msg @ replicate (pad16_len (length aad)) 0;
         msg = msg @ ciphertext;
         msg = msg @ replicate (pad16_len (length ciphertext)) 0;
         len_buf = write_le64 (replicate 8 0) (of_nat (length aad));
         msg = msg @ take 8 len_buf;
         len_buf = write_le64 len_buf (of_nat (length ciphertext))
     in msg @ take 8 len_buf)"

definition encrypt ::
    "byte list \<Rightarrow> byte list \<Rightarrow> byte list \<Rightarrow> byte list \<Rightarrow> byte list option \<Rightarrow> aead_error + byte list \<times> byte list" where
  "encrypt data key nonce aad tag =
    (if length key \<noteq> 32 then Inl Key_Size
     else if length nonce \<noteq> 12 then Inl Nonce_Size
     else case tag of None \<Rightarrow> Inl Null_Tag
     | Some tag \<Rightarrow>
       (let otk = chacha20_block key 0 nonce (replicate 64 0);
            ciphertext = chacha20_encrypt key 1 nonce data (length data);
            msg = poly_msg aad ciphertext
        in Inr (ciphertext, poly1305_mac otk msg (length msg) tag)))"

definition decrypt ::
    "byte list \<Rightarrow> byte list \<Rightarrow> byte list \<Rightarrow> byte list \<Rightarrow> byte list \<Rightarrow> aead_error + byte list" where
  "decrypt data key nonce aad tag =
    (if length key \<noteq> 32 then Inl Key_Size
     else if length nonce \<noteq> 12 then Inl Nonce_Size
     else if length tag \<noteq> 16 then Inl Tag_Size
     else
       (let otk = chacha20_block key 0 nonce (replicate 64 0);
            msg = poly_msg aad data;
            computed_tag = poly1305_mac otk msg (length msg) (replicate 16 0)
        in if secure_compare computed_tag tag 16 then Inl Authentication_Failed
           else Inr (chacha20_encrypt key 1 nonce data (length data))))"

section \<open>The comparison and the tag\<close>

lemma or_fold_zero:
  "foldl (\<lambda>d i. d OR f i) (d :: byte) [0..<n] = 0 \<longleftrightarrow> d = 0 \<and> (\<forall>i<n. f i = 0)"
proof (induction n)
  case (Suc n)
  have "x OR y = 0 \<longleftrightarrow> x = 0 \<and> y = 0" for x y :: byte by (rule or_eq_0_iff)
  then show ?case using Suc by (auto simp: less_Suc_eq)
qed simp

lemma secure_compare_eq:
  assumes "length a = n" "length b = n"
  shows "secure_compare a b n \<longleftrightarrow> a \<noteq> b"
proof -
  have "x XOR y = 0 \<longleftrightarrow> x = y" for x y :: byte by (metis xor_self_eq xor.left_neutral xor.assoc)
  then show ?thesis
    using assms by (simp add: secure_compare_def or_fold_zero list_eq_iff_nth_eq)
qed

text \<open>The tag does not depend on what the buffer held before.\<close>

definition tag_of :: "byte list \<Rightarrow> byte list \<Rightarrow> byte list \<Rightarrow> byte list \<Rightarrow> byte list" where
  "tag_of key nonce aad ciphertext =
    poly1305_mac (block_bytes key 0 nonce) (poly_msg aad ciphertext)
      (length (poly_msg aad ciphertext)) (replicate 16 0)"

lemma mac_buffer:
  assumes "16 \<le> length key" "length tag = 16" "length tag' = 16"
  shows "poly1305_mac key msg (length msg) tag = poly1305_mac key msg (length msg) tag'"
  using finish_tag_eq [OF mac_limbs_ok [OF assms(1), THEN conjunct1] assms(2), of msg]
    finish_tag_eq [OF mac_limbs_ok [OF assms(1), THEN conjunct1] assms(3), of msg] le_val_inject
  unfolding poly1305_mac_limbs by metis

lemma length_tag_of [simp]: "length (tag_of key nonce aad ct) = 16"
  using finish_tag_eq [OF mac_limbs_ok [THEN conjunct1], of "block_bytes key 0 nonce" "replicate 16 0"]
  by (simp add: tag_of_def poly1305_mac_limbs)

lemma encrypt_eq:
  assumes "length key = 32" "length nonce = 12" "length tag = 16"
  shows "encrypt data key nonce aad (Some tag) =
    Inr (chacha20_encrypt key 1 nonce data (length data),
      tag_of key nonce aad (chacha20_encrypt key 1 nonce data (length data)))"
  using assms mac_buffer [OF _ assms(3), of "block_bytes key 0 nonce" "replicate 16 0"]
  by (simp add: encrypt_def Let_def chacha20_block_eq tag_of_def)

lemma decrypt_eq:
  assumes "length key = 32" "length nonce = 12" "length tag = 16"
  shows "decrypt data key nonce aad tag =
    (if tag_of key nonce aad data = tag then Inr (chacha20_encrypt key 1 nonce data (length data))
     else Inl Authentication_Failed)"
  using assms length_tag_of [of key nonce aad data]
    secure_compare_eq [of "tag_of key nonce aad data" 16 tag]
  by (simp add: decrypt_def Let_def chacha20_block_eq tag_of_def)

section \<open>The properties\<close>

lemma encrypt_iff:
  assumes "length buf = 16"
  shows "encrypt data key nonce aad (Some buf) = Inr (ct, tag) \<longleftrightarrow> length key = 32 \<and> length nonce = 12 \<and>
    ct = chacha20_encrypt key 1 nonce data (length data) \<and> tag = tag_of key nonce aad ct"
proof (cases "length key = 32 \<and> length nonce = 12")
  case True
  then show ?thesis using encrypt_eq [OF _ _ assms, of key nonce data aad] by auto
qed (auto simp: encrypt_def)

lemma decrypt_iff:
  "decrypt ct key nonce aad tag = Inr data \<longleftrightarrow> length key = 32 \<and> length nonce = 12 \<and>
    ct = chacha20_encrypt key 1 nonce data (length data) \<and> tag = tag_of key nonce aad ct"
proof (cases "length key = 32 \<and> length nonce = 12 \<and> length tag = 16")
  case True
  have "chacha20_encrypt key 1 nonce ct (length ct) = data \<longleftrightarrow> ct = chacha20_encrypt key 1 nonce data (length data)"
    using chacha20_twice [of key 1 nonce ct] chacha20_twice [of key 1 nonce data] length_chacha20_encrypt
    by metis
  then show ?thesis using True decrypt_eq [of key nonce tag ct aad] by auto
qed (auto simp: decrypt_def)

text \<open>C38 (aead_inverse)
  Decryption inverts encryption: it returns a plaintext exactly when encrypting that plaintext under the
  same key, nonce and associated data gives this ciphertext and this tag.  The tag then has 16 bytes, and byte
  \<open>i\<close> of the ciphertext is the plaintext's exclusive or the key stream that starts at block 1.\<close>

theorem aead_inverse:
  assumes "length buf = 16"
  shows "(decrypt ct key nonce aad tag = Inr data \<longleftrightarrow>
      encrypt data key nonce aad (Some buf) = Inr (ct, tag)) \<and>
    (encrypt data key nonce aad (Some buf) = Inr (ct, tag) \<longrightarrow>
      length tag = 16 \<and> ct = map (\<lambda>i. data ! i XOR keystream key 1 nonce i) [0..<length data])"
  unfolding encrypt_iff [OF assms] decrypt_iff by (auto simp: chacha20_encrypt_eq)

lemma aead_inverse_witness:
  "\<exists>ct tag. encrypt [1, 2, 3] (replicate 32 7) (replicate 12 5) [9] (Some (replicate 16 0)) = Inr (ct, tag) \<and>
    decrypt ct (replicate 32 7) (replicate 12 5) [9] tag = Inr [1, 2, 3] \<and> length tag = 16"
proof -
  let ?k = "replicate 32 (7 :: byte)" and ?n = "replicate 12 (5 :: byte)"
  define ct where "ct = chacha20_encrypt ?k 1 ?n [1, 2, 3] (length [1, 2, 3 :: byte])"
  have "encrypt [1, 2, 3] ?k ?n [9] (Some (replicate 16 0)) = Inr (ct, tag_of ?k ?n [9] ct)"
    by (simp add: encrypt_iff ct_def)
  then show ?thesis using aead_inverse [of "replicate 16 0" ct ?k ?n "[9]" "tag_of ?k ?n [9] ct" "[1, 2, 3]"] by auto
qed

text \<open>C39 (aead_rejects)
  The failures: a wrong key, nonce or tag size gives its own error in that order, and the
  authentication error is given exactly when no plaintext encrypts to this ciphertext and tag.\<close>

theorem aead_rejects:
  "decrypt ct key nonce aad tag = Inl e \<longleftrightarrow>
    (if length key \<noteq> 32 then e = Key_Size
     else if length nonce \<noteq> 12 then e = Nonce_Size
     else if length tag \<noteq> 16 then e = Tag_Size
     else e = Authentication_Failed \<and>
       (\<nexists>data. encrypt data key nonce aad (Some (replicate 16 0)) = Inr (ct, tag)))"
proof (cases "length key = 32 \<and> length nonce = 12 \<and> length tag = 16")
  case True
  have "(\<exists>data. ct = chacha20_encrypt key 1 nonce data (length data))"
    using chacha20_twice [of key 1 nonce ct] length_chacha20_encrypt by metis
  then show ?thesis
    using True decrypt_eq [of key nonce tag ct aad] by (auto simp: encrypt_iff)
qed (auto simp: decrypt_def)

lemma take_write_le64: "length d = 8 \<Longrightarrow> le_val (write_le64 d v) = unat v"
  using le_val_write_le64 [of d v] by simp

text \<open>C40 (poly_msg_inject)
  The bytes under the tag determine both the associated data and the ciphertext, so no
  byte can move from one to the other under the same tag.\<close>

theorem poly_msg_inject:
  assumes "poly_msg aad ct = poly_msg aad' ct'"
    "length aad < 2 ^ 64" "length ct < 2 ^ 64" "length aad' < 2 ^ 64" "length ct' < 2 ^ 64"
  shows "aad = aad' \<and> ct = ct'"
proof -
  define A where "A d = write_le64 (replicate 8 0) (of_nat (length d))" for d :: "byte list"
  define B where "B d c = write_le64 (A d) (of_nat (length c))" for d c :: "byte list"
  have l: "length (A d) = 8" "length (B d c) = 8" for d c by (simp_all add: A_def B_def)
  have m: "poly_msg d c = ((d @ replicate (pad16_len (length d)) 0) @ (c @ replicate (pad16_len (length c)) 0)) @ A d @ B d c"
    for d c by (simp add: poly_msg_def Let_def A_def B_def)
  have e: "A aad @ B aad ct = A aad' @ B aad' ct'" and r: "(aad @ replicate (pad16_len (length aad)) 0) @ (ct @ replicate (pad16_len (length ct)) 0) =
      (aad' @ replicate (pad16_len (length aad')) 0) @ (ct' @ replicate (pad16_len (length ct')) 0)"
    using append_eq_append_conv [THEN iffD1, OF disjI2 assms(1) [unfolded m]] l by simp_all
  have v: "le_val (A d) = length d" "le_val (B d c) = length c" if "length d < 2 ^ 64" "length c < 2 ^ 64" for d c
    using that l(1) by (simp_all add: A_def B_def take_write_le64 unsigned_of_nat take_bit_nat_eq_self)
  have "length aad = length aad'" "length ct = length ct'"
    using e l v [OF assms(2,3)] v [OF assms(4,5)] by (metis append_eq_append_conv)+
  then show ?thesis using r by simp
qed

lemma poly_msg_inject_witness:
  "poly_msg [1] [2] = poly_msg [1] [2] \<and> [1] = [1 :: byte] \<and> [2] = [2 :: byte]"
  using poly_msg_inject [of "[1]" "[2]" "[1]" "[2]"] by simp

end
