(* ===== verification/Spec2Isabelle.thy ===== *)
theory Spec2Isabelle
  imports PriorityQueue HeapTimer TtlCache RbRemove Http2Responses HttpConstants Aead
begin

text \<open>
  \<^bold>\<open>A verification library of NexusForce.\<close>

  NexusForce is a C++ foundation library: containers and algorithms, memory and byte access,
  caches, timers and text formats under \<open>src/core\<close> and \<open>include/NeForce/core\<close>, and a network
  stack under \<open>src/network\<close> with an HTTP/2 server connection built on them. The theories model
  the parts of that code with state and algorithms of their own, one theory per component, and
  prove what makes each correct.

  \<^bold>\<open>Parts and theories.\<close>
  \<^item> \<open>Prelude\<close>: integer types, strict weak orders (what the library asks of a comparator),
    lemmas on lists, association lists and words.
  \<^item> \<open>HeapAlgo\<close> models \<open>algorithm/heap.hpp\<close>: a range is a list, iterators are indices, each loop
    is a function with a measure. Lemmas: the heap invariant, permutation, the greatest element
    on top, \<open>sort_heap\<close> sorts. The locale \<open>vector_heap\<close> is the contract its clients use.
  \<^item> \<open>PriorityQueue\<close> (\<open>container/priority_queue.hpp\<close>) and \<open>HeapTimer\<close> (\<open>async/heap_timer.cpp\<close>)
    are clients of that contract. The timer is refined by a set of pending deadlines,
    for calls in which no cancelled timer hides behind a due one at \<open>drain_expired\<close>.
  \<^item> \<open>LruCache\<close> (\<open>container/lru_cache.hpp\<close>): the linked list with addresses, the hash table from
    keys to list positions, and the recency list that it implements. The locale \<open>recency_cache\<close>
    is what \<open>TtlCache\<close> (\<open>container/ttl_cache.hpp\<close>) relies on: no stale value is ever returned.
  \<^item> \<open>RbNodes\<close>, \<open>RbInsert\<close>, \<open>RbTree\<close>, \<open>RbErase\<close>, \<open>RbUnlink\<close> and \<open>RbRemove\<close>
    (\<open>container/rb_tree.hpp\<close>): the red-black tree under maps and sets, as nodes in memory. A pointer
    is a number (\<open>nullptr\<close> is 0), each member of the nodes a function of the address, and the
    references to root, leftmost and rightmost node are the members of the header node. \<open>focus\<close>
    relates the memory to a tree and the path to one of its nodes; rotations, recolouring, linking
    and unlinking are proved once for such a place, and the loops by induction on the path. The
    loops are \<open>partial_function (option)\<close>, so each property includes that they end. \<open>RbRemove\<close> ends
    with the containers that insertions and erasures reach from an empty one: all are red-black
    trees of logarithmic height.
  \<^item> \<open>ByteCursor\<close> (\<open>memory/endian.hpp\<close>, \<open>memory/byte_cursor.hpp\<close>): fixed-width reads and writes
    in both byte orders, the bounds-checked cursor and its bit buffer, with \<open>size_t\<close> arithmetic
    modulo \<open>2 ^ 64\<close>.
  \<^item> \<open>HpackCodec\<close> and \<open>Hpack\<close> (\<open>http/http2_protocol.cpp\<close>): integers, Huffman coded strings, the
    static and dynamic tables, \<open>hpack_encoder\<close> and \<open>hpack_decoder\<close>. Encoder and decoder are
    inverse and their tables stay in step.
  \<^item> \<open>Http2Framer\<close> and \<open>Http2Stream\<close> (same files): the frame structures, encoders and the
    incremental decoder; the stream state machine, flow control and settings.
  \<^item> \<open>Strings\<close>: the operations of \<open>basic_string\<close> that the network code calls.
  \<^item> \<open>Http2Connection\<close> (\<open>http/http2_connection.cpp\<close>): one record for the members of the class, one
    definition per handler and sending operation. \<open>Http2Requests\<close> and \<open>Http2Responses\<close> prove the
    composition: a request cut into frames and pieces of any size arrives once and intact, a
    response is what the client reads back, and what a connection holds is bounded by limits or
    by what it received.
  \<^item> \<open>HttpConstants\<close> (\<open>http/http_constants.cpp\<close>): status codes, messages and names as tables.
  \<^item> \<open>ChaCha\<close>, \<open>Poly1305\<close> and \<open>Aead\<close> (\<open>core/encrypt/chacha20_poly1305.cpp\<close>): the block function, whose
    SSE2 form takes the compiler's intrinsics as an argument and is proved equal to the portable
    one; the authenticator on limbs of 26 bits, related to the polynomial of RFC 8439 over the
    natural numbers without an overflow; encryption and decryption, which are inverse.

  \<^bold>\<open>Reading a definition.\<close> A class is a record and a method a function from the record (and its
  arguments) to the record and the result; \<open>option\<close> or a result type marks the early returns and
  exceptions. Words keep the width of the code's integers; \<open>size_t\<close> values are \<open>nat\<close> with the
  wrap-around written where the code's tests depend on it. Clocks, random numbers and what the
  allocator answers are arguments.

  \<^bold>\<open>Fuel and bounds.\<close> Loops that consume their input are recursive on it or on a measure. Where
  fuel is used (the frame loop, the sending loops, header block decoding) it starts from the
  number of bytes at hand plus one: each round takes at least one byte, and a lemma shows that
  more fuel changes nothing.

  \<^bold>\<open>Facts that show a defect\<close> stand under texts that begin with the word Fact: they state what the
  code does where that differs from what its comments or its protocol ask for, at concrete inputs
  or in general. The properties are written so that they hold of the code with these defects.

  \<^bold>\<open>Not modelled.\<close> Operating system access (files, processes, sockets, TLS, consoles), the
  wrappers over client libraries, platform error reporting, compile-time metaprogramming and SIMD
  wrappers have no behaviour of their own to state here. Threads are modelled as steps under the
  mutex that the code holds; the lock-free queue and the atomics need a weak memory model and
  are left out. The document formats (JSON, TOML, YAML, Markdown), reverse proxy, HTTP/1 server
  and client, WebSocket and the remaining containers are further work.
\<close>

end
